(* ===== verification/Prelude.thy ===== *)
theory Prelude
  imports Main "HOL-Library.Word" "HOL-Library.AList" "HOL-Library.Multiset"
begin

text \<open>
  Shared vocabulary of the FrankenQueue development: the machine types of the Go sources, byte
  buffers with the slice reads and writes the code performs on them, the little-endian accessors of
  \<open>encoding/binary\<close>, and the association lists that stand for Go maps.

  An \<open>int64\<close> is a 64-bit word read in two's complement by \<^const>\<open>sint\<close>; additions on it wrap, as
  they do in Go.  A Go map is an association list with distinct keys; the order of the list stands
  for the (unspecified) iteration order of the map, so a statement about every such list is a
  statement about every iteration order.
\<close>

unbundle bit_operations_syntax

section \<open>Machine types\<close>

type_synonym u8 = "8 word"
type_synonym u16 = "16 word"
type_synonym u32 = "32 word"
type_synonym u64 = "64 word"
type_synonym i64 = "64 word"
type_synonym bytes = "u8 list"

named_theorems wire "layout facts of byte buffers: slices, writes and lengths"
named_theorems gomap "lookups and updates of association-list maps"

section \<open>Signed arithmetic without wrap-around\<close>

named_theorems i64 "signed reads of 64-bit operations whose exact result is representable"

lemma sint_i64_range: "- (2 ^ 63) \<le> sint (w :: i64)" "sint (w :: i64) < 2 ^ 63"
  using sint_greater_eq [of w] sint_less [of w] by simp_all

lemma sint_i64_add [i64]:
  "- (2 ^ 63) \<le> sint a + sint b \<Longrightarrow> sint a + sint b < 2 ^ 63 \<Longrightarrow> sint (a + b :: i64) = sint a + sint b"
  by (simp add: sint_word_add signed_take_bit_int_eq_self)

lemma sint_i64_diff [i64]:
  "- (2 ^ 63) \<le> sint a - sint b \<Longrightarrow> sint a - sint b < 2 ^ 63 \<Longrightarrow> sint (a - b :: i64) = sint a - sint b"
  by (simp add: sint_word_diff signed_take_bit_int_eq_self)

lemma sint_i64_of_int [i64]:
  "- (2 ^ 63) \<le> k \<Longrightarrow> k < 2 ^ 63 \<Longrightarrow> sint (word_of_int k :: i64) = k"
  by (simp add: signed_of_int signed_take_bit_int_eq_self)

lemma sint_small [i64]: "unat (w :: u64) < 2 ^ 63 \<Longrightarrow> sint w = uint w"
  unfolding sint_uint uint_nat [of w] by (simp add: signed_take_bit_int_eq_self del: of_nat_unat)

lemma sint_neg_small [i64]: "unat (w :: u64) < 2 ^ 63 \<Longrightarrow> sint (- w) = - uint w"
  unfolding sint_word_minus sint_small uint_nat [of w]
  by (simp add: signed_take_bit_int_eq_self del: of_nat_unat)

lemma uint_u8_less: "uint (p :: u8) < 256"
  using uint_lt2p [of p] by simp

lemma sint_ucast_u8 [i64]: "sint (ucast (p :: u8) :: i64) = uint p"
proof -
  have "uint (ucast p :: u64) = uint p"
    using uint_u8_less [of p] by (simp add: unsigned_ucast_eq take_bit_int_eq_self)
  then have "sint (ucast p :: u64) = signed_take_bit 63 (uint p)" unfolding sint_uint by simp
  moreover have "- (2 ^ 63) \<le> uint p" by (rule order_trans [of _ 0]) simp_all
  ultimately show ?thesis using uint_u8_less [of p] by (simp add: signed_take_bit_int_eq_self)
qed

lemma unat_of_nat_u32: "n < 2 ^ 32 \<Longrightarrow> unat (word_of_nat n :: u32) = n"
  by (simp add: unsigned_of_nat take_bit_nat_eq_self)

section \<open>Byte buffers\<close>

text \<open>\<open>slice b i j\<close> is Go's \<open>b[i:j]\<close>; \<open>put_at o bs b\<close> writes \<open>bs\<close> into \<open>b\<close> from offset \<open>o\<close> on.\<close>

definition slice :: "'a list \<Rightarrow> nat \<Rightarrow> nat \<Rightarrow> 'a list" where
  "slice b i j = take (j - i) (drop i b)"

definition put_at :: "nat \<Rightarrow> 'a list \<Rightarrow> 'a list \<Rightarrow> 'a list" where
  "put_at k bs b = take k b @ bs @ drop (k + length bs) b"

lemma length_slice [wire, simp]: "length (slice b i j) = min (j - i) (length b - i)"
  by (simp add: slice_def)

lemma length_put_at [wire, simp]:
  "k + length bs \<le> length b \<Longrightarrow> length (put_at k bs b) = length b"
  by (simp add: put_at_def)

lemma nth_slice: "k < j - i \<Longrightarrow> i + k < length b \<Longrightarrow> slice b i j ! k = b ! (i + k)"
  by (simp add: slice_def)

lemma nth_put_at [wire]:
  "k + length bs \<le> length b \<Longrightarrow> m < length b \<Longrightarrow>
   put_at k bs b ! m = (if m < k \<or> k + length bs \<le> m then b ! m else bs ! (m - k))"
  by (auto simp: put_at_def nth_append min_def)

lemma slice_put_at_same [wire]:
  "k + length bs \<le> length b \<Longrightarrow> j = k + length bs \<Longrightarrow> slice (put_at k bs b) k j = bs"
  by (simp add: slice_def put_at_def)

lemma slice_put_at_below [wire]:
  assumes "j \<le> k" "k + length bs \<le> length b"
  shows "slice (put_at k bs b) i j = slice b i j"
  using assms by (intro nth_equalityI) (auto simp: nth_slice nth_put_at)

lemma slice_put_at_above [wire]:
  assumes "k + length bs \<le> i" "k + length bs \<le> length b"
  shows "slice (put_at k bs b) i j = slice b i j"
  using assms by (intro nth_equalityI) (auto simp: nth_slice nth_put_at)

lemma take_put_at_below [wire]:
  "j \<le> k \<Longrightarrow> k + length bs \<le> length b \<Longrightarrow> take j (put_at k bs b) = take j b"
  using slice_put_at_below [of j k bs b 0] by (simp add: slice_def)

lemma take_put_at_inside [wire]:
  "k + length bs \<le> j \<Longrightarrow> j \<le> length b \<Longrightarrow> take j (put_at k bs b) = put_at k bs (take j b)"
  by (intro nth_equalityI) (auto simp: nth_put_at)

lemma put_at_end: "length b = k + length bs \<Longrightarrow> put_at k bs b = take k b @ bs"
  by (simp add: put_at_def)

lemma put_at_append_right:
  "length xs = i \<Longrightarrow> put_at (i + k) bs (xs @ ys) = xs @ put_at k bs ys"
  by (simp add: put_at_def)

lemma put_at_append_left:
  "k + length bs \<le> length xs \<Longrightarrow> put_at k bs (xs @ ys) = put_at k bs xs @ ys"
  by (simp add: put_at_def)

lemma slice_append_mid: "length xs = i \<Longrightarrow> length ys = n \<Longrightarrow> slice (xs @ ys @ zs) i (i + n) = ys"
  by (simp add: slice_def)

lemma slice_full: "length b \<le> j \<Longrightarrow> slice b 0 j = b"
  by (simp add: slice_def)

section \<open>Little-endian integers\<close>

text \<open>
  \<open>le_bytes n v\<close> lists the \<open>n\<close> low-order bytes of a word, least significant first; \<open>le_word\<close> reads
  them back.  \<open>PutUint16\<close>, \<open>PutUint32\<close> and \<open>PutUint64\<close> of \<open>encoding/binary\<close> are the instances used
  by the code.
\<close>

primrec le_bytes :: "nat \<Rightarrow> 'a::len word \<Rightarrow> bytes" where
  "le_bytes 0 v = []"
| "le_bytes (Suc n) v = ucast v # le_bytes n (drop_bit 8 v)"

primrec le_word :: "bytes \<Rightarrow> 'a::len word" where
  "le_word [] = 0"
| "le_word (b # bs) = ucast b OR push_bit 8 (le_word bs)"

definition PutUint16 :: "u16 \<Rightarrow> bytes" where "PutUint16 v = le_bytes 2 v"
definition PutUint32 :: "u32 \<Rightarrow> bytes" where "PutUint32 v = le_bytes 4 v"
definition PutUint64 :: "u64 \<Rightarrow> bytes" where "PutUint64 v = le_bytes 8 v"
definition Uint16 :: "bytes \<Rightarrow> u16" where "Uint16 b = le_word (take 2 b)"
definition Uint32 :: "bytes \<Rightarrow> u32" where "Uint32 b = le_word (take 4 b)"
definition Uint64 :: "bytes \<Rightarrow> u64" where "Uint64 b = le_word (take 8 b)"

lemma length_le_bytes [wire, simp]: "length (le_bytes n v) = n"
  by (induction n arbitrary: v) auto

lemma le_word_le_bytes: "le_word (le_bytes n v) = take_bit (8 * n) (v :: 'a::len word)"
proof (induction n arbitrary: v)
  case 0
  then show ?case by simp
next
  case (Suc n)
  have "ucast (ucast v :: u8) OR push_bit 8 (take_bit (8 * n) (drop_bit 8 v))
      = take_bit (8 * Suc n) v"
    by (rule bit_word_eqI)
      (auto simp: bit_simps not_less dest: bit_imp_le_length)
  with Suc show ?case by simp
qed

lemma le_bytes_le_word:
  "length bs = n \<Longrightarrow> 8 * n \<le> LENGTH('a) \<Longrightarrow> le_bytes n (le_word bs :: 'a::len word) = bs"
proof (induction bs arbitrary: n)
  case Nil
  then show ?case by simp
next
  case (Cons b bs)
  then obtain m where n: "n = Suc m" "length bs = m" by (cases n) auto
  let ?w = "le_word bs :: 'a word"
  have low: "ucast (ucast b OR push_bit 8 ?w) = b"
    using Cons.prems n by (intro bit_word_eqI) (auto simp: bit_simps)
  have "take_bit (8 * m) ?w = ?w"
    using le_word_le_bytes [of m ?w] Cons n by simp
  then have small: "\<And>k. 8 * m \<le> k \<Longrightarrow> \<not> bit ?w k"
    by (metis bit_take_bit_iff not_less)
  have high: "drop_bit 8 (ucast b OR push_bit 8 ?w) = ?w"
    using Cons.prems n small
    by (intro bit_word_eqI) (auto simp: bit_simps dest: bit_imp_le_length)
  show ?case using Cons n low high by simp
qed

lemma length_PutUint [wire, simp]:
  "length (PutUint16 a) = 2" "length (PutUint32 b) = 4" "length (PutUint64 c) = 8"
  by (simp_all add: PutUint16_def PutUint32_def PutUint64_def)

lemma Uint_PutUint [wire, simp]:
  "Uint16 (PutUint16 a) = a" "Uint32 (PutUint32 b) = b" "Uint64 (PutUint64 c) = c"
  by (simp_all add: PutUint16_def PutUint32_def PutUint64_def Uint16_def Uint32_def Uint64_def
      le_word_le_bytes take_bit_word_eq_self)

lemma PutUint_Uint [wire]:
  "length a = 2 \<Longrightarrow> PutUint16 (Uint16 a) = a"
  "length b = 4 \<Longrightarrow> PutUint32 (Uint32 b) = b"
  "length c = 8 \<Longrightarrow> PutUint64 (Uint64 c) = c"
  by (simp_all add: PutUint16_def PutUint32_def PutUint64_def Uint16_def Uint32_def Uint64_def
      le_bytes_le_word)

section \<open>Go maps as association lists\<close>

text \<open>Lookup after insertion and deletion, and that distinctness of the keys is kept.\<close>

lemma map_of_alist_update [gomap, simp]:
  "map_of (AList.update k v m) = (map_of m)(k \<mapsto> v)"
  by (simp add: AList.update_conv')

lemma update_triv_alist: "map_of m k = Some v \<Longrightarrow> AList.update k v m = m"
  by (induction m) (auto split: if_splits)

lemma map_of_alist_delete [gomap, simp]:
  "map_of (AList.delete k m) = (map_of m)(k := None)"
  by (simp add: AList.delete_conv')

lemma distinct_alist_update [gomap, simp]:
  "distinct (map fst m) \<Longrightarrow> distinct (map fst (AList.update k v m))"
  by (simp add: AList.distinct_update)

lemma distinct_alist_delete [gomap, simp]:
  "distinct (map fst m) \<Longrightarrow> distinct (map fst (AList.delete k m))"
  by (rule AList.distinct_delete)

lemma set_alist_update:
  "distinct (map fst m) \<Longrightarrow>
   set (AList.update k v m) = insert (k, v) {p \<in> set m. fst p \<noteq> k}"
  by (induction m) (auto simp: image_iff)

lemma set_alist_delete [gomap]: "set (AList.delete k m) = {p \<in> set m. fst p \<noteq> k}"
  by (auto simp: AList.delete_eq)

end
