(* ===== verification/Types.thy ===== *)
theory Types
  imports Prelude
begin

text \<open>
  \<open>internal/types/types.go\<close>: the queue order and its textual form.  A Go string is its byte sequence;
  \<open>strings.ToLower\<close> and \<open>strings.TrimSpace\<close> are modelled on ASCII, where they act bytewise.
\<close>

datatype Order = FIFO | LIFO

definition is_space :: "char \<Rightarrow> bool" where
  "is_space c \<longleftrightarrow> (of_char c :: nat) \<in> set [9, 10, 11, 12, 13, 32]"

definition to_lower_char :: "char \<Rightarrow> char" where
  "to_lower_char c = (let n = of_char c :: nat in if 65 \<le> n \<and> n \<le> 90 then char_of (n + 32) else c)"

definition ToLower :: "string \<Rightarrow> string" where
  "ToLower s = map to_lower_char s"

definition TrimSpace :: "string \<Rightarrow> string" where
  "TrimSpace s = rev (dropWhile is_space (rev (dropWhile is_space s)))"

text \<open>\<open>Inl s\<close> is the error \<open>unknown order\<close> with the rejected input.\<close>

definition ParseOrder :: "string \<Rightarrow> string + Order" where
  "ParseOrder s =
     (let t = ToLower (TrimSpace s) in
      if t = ''fifo'' \<or> t = '''' then Inr FIFO
      else if t = ''lifo'' then Inr LIFO
      else Inl s)"

fun Order_String :: "Order \<Rightarrow> string" where
  "Order_String LIFO = ''lifo''"
| "Order_String FIFO = ''fifo''"

lemma ParseOrder_String: "ParseOrder (Order_String o1) = Inr o1"
proof (cases o1)
  case FIFO
  then show ?thesis by hypsubst code_simp
next
  case LIFO
  then show ?thesis by hypsubst code_simp
qed

lemma ParseOrder_error: "ParseOrder s = Inl e \<Longrightarrow> e = s"
  by (auto simp: ParseOrder_def Let_def split: if_splits)

end
