(* ===== verification/Crc32.thy ===== *)
theory Crc32
  imports Prelude
begin

text \<open>
  \<open>hash/crc32\<close>'s \<open>ChecksumIEEE\<close>, the checksum of WAL records, page headers, journal records and index
  entries: the reflected CRC-32 with polynomial \<open>0xEDB88320\<close>, computed bit by bit.  The lemmas show
  that the checksum is injective on any window of four consecutive bytes, so that a corruption
  confined to such a window changes it.
\<close>

definition crc_poly :: u32 where "crc_poly = 0xEDB88320"

definition crc_bit :: "u32 \<Rightarrow> u32" where
  "crc_bit x = (if bit x 0 then drop_bit 1 x XOR crc_poly else drop_bit 1 x)"

definition crc_byte :: "u32 \<Rightarrow> u8 \<Rightarrow> u32" where
  "crc_byte c b = (crc_bit ^^ 8) (c XOR ucast b)"

definition crc_update :: "u32 \<Rightarrow> bytes \<Rightarrow> u32" where
  "crc_update c bs = foldl crc_byte c bs"

definition ChecksumIEEE :: "bytes \<Rightarrow> u32" where
  "ChecksumIEEE bs = NOT (crc_update (NOT 0) bs)"

text \<open>The standard check value of CRC-32/IEEE: the digits 1 to 9.\<close>

lemma crc_byte_unroll:
  "crc_byte c b =
     crc_bit (crc_bit (crc_bit (crc_bit (crc_bit (crc_bit (crc_bit (crc_bit (c XOR ucast b))))))))"
  by (simp add: crc_byte_def eval_nat_numeral)

lemmas crc_eval = ChecksumIEEE_def crc_update_def crc_byte_unroll crc_bit_def crc_poly_def

lemma ChecksumIEEE_check: "ChecksumIEEE [0x31,0x32,0x33,0x34,0x35,0x36,0x37,0x38,0x39] = 0xCBF43926"
  by (simp add: crc_eval)

section \<open>The register step is linear and invertible\<close>

lemma crc_poly_top: "bit crc_poly 31"
  by (simp add: crc_poly_def)

lemma crc_bit_top: "bit (crc_bit x) 31 \<longleftrightarrow> bit x 0"
proof -
  have "\<not> bit (drop_bit 1 x) 31" by (auto simp: bit_simps dest: bit_imp_le_length)
  then show ?thesis by (simp add: crc_bit_def bit_xor_iff crc_poly_top)
qed

lemma drop_bit_xor_u32: "drop_bit n (x XOR y) = drop_bit n x XOR drop_bit n (y :: u32)"
  by (rule bit_eqI) (simp add: bit_simps)

lemma crc_bit_linear: "crc_bit (x XOR y) = crc_bit x XOR crc_bit y"
  by (rule bit_eqI) (auto simp: crc_bit_def bit_simps)

lemma crc_bit_inj: "crc_bit x = crc_bit y \<Longrightarrow> x = y"
proof (rule bit_word_eqI)
  fix n assume eq: "crc_bit x = crc_bit y" and n: "n < LENGTH(32)"
  have low: "bit x 0 = bit y 0" using crc_bit_top [of x] crc_bit_top [of y] eq by simp
  show "bit x n = bit y n"
  proof (cases n)
    case 0
    with low show ?thesis by simp
  next
    case (Suc m)
    have "bit (crc_bit x) m = bit (crc_bit y) m" using eq by simp
    with low Suc n show ?thesis
      by (auto simp: crc_bit_def bit_simps split: if_splits)
  qed
qed

lemma crc_steps_linear: "(crc_bit ^^ n) (x XOR y) = (crc_bit ^^ n) x XOR (crc_bit ^^ n) y"
  by (induction n) (simp_all add: crc_bit_linear)

lemma crc_steps_inj: "(crc_bit ^^ n) x = (crc_bit ^^ n) y \<Longrightarrow> x = y"
  by (induction n) (auto dest: crc_bit_inj)

text \<open>Shifting in zeros: as long as the low bits are zero the register only shifts.\<close>

lemma crc_steps_push: "(crc_bit ^^ n) (push_bit n y) = y" if "n + m \<le> 32" "take_bit m y = y"
  using that
proof (induction n arbitrary: y)
  case 0
  then show ?case by simp
next
  case (Suc n)
  have hi: "k < m" if "bit y k" for k
    using Suc.prems(2) that by (metis bit_take_bit_iff)
  have "drop_bit 1 (push_bit (Suc n) y) = push_bit n y"
    using Suc.prems(1)
    by (intro bit_word_eqI) (auto simp: bit_simps simp del: push_bit_Suc dest: hi)
  moreover have "\<not> bit (push_bit (Suc n) y) 0" by (simp add: bit_simps del: push_bit_Suc)
  ultimately have "crc_bit (push_bit (Suc n) y) = push_bit n y"
    unfolding crc_bit_def by (simp del: push_bit_Suc)
  then show ?case
    using Suc unfolding funpow_Suc_right comp_def by (simp del: push_bit_Suc)
qed

lemma crc_update_append: "crc_update c (xs @ ys) = crc_update (crc_update c xs) ys"
  by (simp add: crc_update_def)

lemma xor_cancel_right: "x XOR z = y XOR z \<Longrightarrow> x = (y :: u32)"
proof -
  assume "x XOR z = y XOR z"
  then have "(x XOR z) XOR z = (y XOR z) XOR z" by simp
  then show ?thesis by (simp add: xor.assoc)
qed

lemma crc_byte_inj_state: "crc_byte c b = crc_byte c' b \<Longrightarrow> c = c'"
  unfolding crc_byte_def by (drule crc_steps_inj) (rule xor_cancel_right)

lemma crc_update_inj_state: "crc_update c bs = crc_update c' bs \<Longrightarrow> c = c'"
  unfolding crc_update_def
  by (induction bs arbitrary: c c') (auto dest: crc_byte_inj_state)

text \<open>Processing at most four bytes is one linear step on the register with the bytes xor-ed in.\<close>

lemma crc_update_window:
  "length bs \<le> 4 \<Longrightarrow> crc_update c bs = (crc_bit ^^ (8 * length bs)) (c XOR le_word bs)"
proof (induction bs arbitrary: c)
  case Nil
  then show ?case by (simp add: crc_update_def)
next
  case (Cons b bs)
  let ?n = "8 * length bs"
  have small: "take_bit ?n (le_word bs :: u32) = le_word bs"
    using le_word_le_bytes [of "length bs" "le_word bs :: u32"] le_bytes_le_word [of bs "length bs", where 'a = 32]
      Cons.prems by simp
  have push: "(crc_bit ^^ 8) (push_bit 8 (le_word bs)) = le_word bs"
    using crc_steps_push [OF _ small, of 8] Cons.prems by simp
  have or_xor: "(ucast b OR push_bit 8 (le_word bs) :: u32) = ucast b XOR push_bit 8 (le_word bs)"
    by (rule bit_word_eqI) (auto simp: bit_simps dest: bit_imp_le_length)
  have "crc_update c (b # bs) = (crc_bit ^^ ?n) (crc_byte c b XOR le_word bs)"
    using Cons by (simp add: crc_update_def)
  also have "crc_byte c b XOR le_word bs = (crc_bit ^^ 8) (c XOR le_word (b # bs))"
    by (simp add: crc_byte_def push or_xor crc_steps_linear flip: xor.assoc)
  finally show ?case
    using funpow_add [of ?n 8 crc_bit] by (simp add: algebra_simps)
qed

lemma le_word_inj_u32:
  "length a = length b \<Longrightarrow> length a \<le> 4 \<Longrightarrow> (le_word a :: u32) = le_word b \<Longrightarrow> a = b"
  using le_bytes_le_word [of a "length a", where 'a = 32] le_bytes_le_word [of b "length a", where 'a = 32]
  by (simp del: le_bytes.simps le_word.simps)

text \<open>Two buffers that differ only in a window of at most four bytes have different checksums.\<close>

lemma ChecksumIEEE_window:
  assumes "length a = length b" "length a \<le> 4"
    and "ChecksumIEEE (xs @ a @ ys) = ChecksumIEEE (xs @ b @ ys)"
  shows "a = b"
proof -
  let ?c = "crc_update (NOT 0) xs"
  have "crc_update ?c a = crc_update ?c b"
    using assms(3) by (auto simp: ChecksumIEEE_def crc_update_append dest: crc_update_inj_state)
  then have "(crc_bit ^^ (8 * length a)) (?c XOR le_word a) = (crc_bit ^^ (8 * length a)) (?c XOR le_word b)"
    using assms(1,2) by (simp add: crc_update_window)
  then have "?c XOR le_word a = ?c XOR le_word b" by (rule crc_steps_inj)
  then have "(le_word a :: u32) = le_word b"
    using xor_cancel_right [of "le_word a" ?c "le_word b"] by (simp add: xor.commute)
  then show ?thesis using assms(1,2) le_word_inj_u32 by blast
qed

lemma ChecksumIEEE_put_at:
  assumes "length bs \<le> 4" "k + length bs \<le> length b" "put_at k bs b \<noteq> b"
  shows "ChecksumIEEE (put_at k bs b) \<noteq> ChecksumIEEE b"
proof
  assume eq: "ChecksumIEEE (put_at k bs b) = ChecksumIEEE b"
  let ?old = "slice b k (k + length bs)"
  have b: "b = take k b @ ?old @ drop (k + length bs) b"
    by (metis slice_def add_diff_cancel_left' append_take_drop_id drop_drop add.commute)
  have "length bs = length ?old" using assms(2) by simp
  then have "bs = ?old"
    using ChecksumIEEE_window [of bs ?old "take k b" "drop (k + length bs) b"] eq b assms(1)
    by (metis put_at_def)
  with b assms(3) show False by (metis put_at_def)
qed

end
