(* ===== verification/Wal_Record.thy ===== *)
theory Wal_Record
  imports Crc32
begin

text \<open>
  \<open>internal/wal/record.go\<close>: the write-ahead-log records and their wire format.  A record body is the
  Go interface value; \<open>NoBody\<close> stands for nil and for any other dynamic type.  Buffers are written as
  the code writes them, field by field at fixed offsets.
\<close>

section \<open>Records\<close>

type_synonym Op = u8

abbreviation "OpEnqueue \<equiv> (1 :: Op)"
abbreviation "OpLease \<equiv> (2 :: Op)"
abbreviation "OpAck \<equiv> (3 :: Op)"
abbreviation "OpNack \<equiv> (4 :: Op)"
abbreviation "OpExpire \<equiv> (5 :: Op)"
abbreviation "OpDead \<equiv> (6 :: Op)"
abbreviation "OpMoveRef \<equiv> (7 :: Op)"
abbreviation "OpConfig \<equiv> (8 :: Op)"

definition recordHeaderSize :: nat where "recordHeaderSize = 16"
definition recordCRCSize :: nat where "recordCRCSize = 4"

record Enqueue =
  en_MsgID :: u64
  en_IndexRef :: u64
  en_PayloadRef :: u64
  en_PayloadLen :: u32
  en_Priority :: u8
  en_EnqueuedAtMs :: i64
  en_AvailableAtMs :: i64

record Lease =
  le_MsgID :: u64
  le_Nonce :: u64
  le_Attempt :: u16
  le_LeaseUntilMs :: i64

record Ack =
  ak_MsgID :: u64
  ak_Nonce :: u64

record Nack =
  na_MsgID :: u64
  na_Nonce :: u64
  na_RequeueAtMs :: i64

record Expire =
  ex_MsgID :: u64
  ex_Nonce :: u64

record Dead =
  de_MsgID :: u64
  de_Reason :: u8

record MoveRef =
  mo_MsgID :: u64
  mo_OldRef :: u64
  mo_NewRef :: u64

datatype Body =
    BEnqueue Enqueue | BLease Lease | BAck Ack | BNack Nack | BExpire Expire | BDead Dead
  | BMoveRef MoveRef | NoBody

record Record =
  rec_LSN :: u64
  rec_Op :: Op
  rec_Flags :: u8
  rec_Body :: Body

datatype wal_error =
    BadBodyType Op | UnknownOp Op | TooShort nat | LengthMismatch nat nat | CRCMismatch u32 u32
  | PayloadShort Op nat

section \<open>Encoding\<close>

definition encodePayload :: "Record \<Rightarrow> wal_error + bytes" where
  "encodePayload rc =
    (if rec_Op rc = OpEnqueue then
       (case rec_Body rc of
          BEnqueue e \<Rightarrow> Inr
            (put_at 37 (PutUint64 (en_AvailableAtMs e))
            (put_at 29 (PutUint64 (en_EnqueuedAtMs e))
            (put_at 28 [en_Priority e]
            (put_at 24 (PutUint32 (en_PayloadLen e))
            (put_at 16 (PutUint64 (en_PayloadRef e))
            (put_at 8 (PutUint64 (en_IndexRef e))
            (put_at 0 (PutUint64 (en_MsgID e)) (replicate 45 0))))))))
        | _ \<Rightarrow> Inl (BadBodyType OpEnqueue))
     else if rec_Op rc = OpLease then
       (case rec_Body rc of
          BLease l \<Rightarrow> Inr
            (put_at 18 (PutUint64 (le_LeaseUntilMs l))
            (put_at 16 (PutUint16 (le_Attempt l))
            (put_at 8 (PutUint64 (le_Nonce l))
            (put_at 0 (PutUint64 (le_MsgID l)) (replicate 26 0)))))
        | _ \<Rightarrow> Inl (BadBodyType OpLease))
     else if rec_Op rc = OpAck then
       (case rec_Body rc of
          BAck a \<Rightarrow> Inr
            (put_at 8 (PutUint64 (ak_Nonce a))
            (put_at 0 (PutUint64 (ak_MsgID a)) (replicate 16 0)))
        | _ \<Rightarrow> Inl (BadBodyType OpAck))
     else if rec_Op rc = OpNack then
       (case rec_Body rc of
          BNack n \<Rightarrow> Inr
            (put_at 16 (PutUint64 (na_RequeueAtMs n))
            (put_at 8 (PutUint64 (na_Nonce n))
            (put_at 0 (PutUint64 (na_MsgID n)) (replicate 24 0))))
        | _ \<Rightarrow> Inl (BadBodyType OpNack))
     else if rec_Op rc = OpExpire then
       (case rec_Body rc of
          BExpire e \<Rightarrow> Inr
            (put_at 8 (PutUint64 (ex_Nonce e))
            (put_at 0 (PutUint64 (ex_MsgID e)) (replicate 16 0)))
        | _ \<Rightarrow> Inl (BadBodyType OpExpire))
     else if rec_Op rc = OpDead then
       (case rec_Body rc of
          BDead d \<Rightarrow> Inr
            (put_at 8 [de_Reason d]
            (put_at 0 (PutUint64 (de_MsgID d)) (replicate 9 0)))
        | _ \<Rightarrow> Inl (BadBodyType OpDead))
     else if rec_Op rc = OpMoveRef then
       (case rec_Body rc of
          BMoveRef m \<Rightarrow> Inr
            (put_at 16 (PutUint64 (mo_NewRef m))
            (put_at 8 (PutUint64 (mo_OldRef m))
            (put_at 0 (PutUint64 (mo_MsgID m)) (replicate 24 0))))
        | _ \<Rightarrow> Inl (BadBodyType OpMoveRef))
     else Inl (UnknownOp (rec_Op rc)))"

definition Encode :: "u64 \<Rightarrow> Record \<Rightarrow> wal_error + bytes" where
  "Encode lsn rc =
    (case encodePayload rc of
       Inl e \<Rightarrow> Inl e
     | Inr payload \<Rightarrow>
         (let total = recordHeaderSize + length payload + recordCRCSize;
              buf0 = replicate total 0;
              buf1 = put_at 0 (PutUint32 (word_of_nat total)) buf0;
              buf2 = put_at 4 (PutUint64 lsn) buf1;
              buf3 = put_at 12 [rec_Op rc] buf2;
              buf4 = put_at 13 [rec_Flags rc] buf3;
              buf5 = put_at 16 payload buf4;
              crc = ChecksumIEEE (take (recordHeaderSize + length payload) buf5)
          in Inr (put_at (recordHeaderSize + length payload) (PutUint32 crc) buf5)))"

section \<open>Decoding\<close>

definition decodePayload :: "Op \<Rightarrow> bytes \<Rightarrow> wal_error + Body" where
  "decodePayload op b =
    (if op = OpEnqueue then
       (if length b < 45 then Inl (PayloadShort op (length b))
        else Inr (BEnqueue
          \<lparr>en_MsgID = Uint64 (slice b 0 8), en_IndexRef = Uint64 (slice b 8 16),
           en_PayloadRef = Uint64 (slice b 16 24), en_PayloadLen = Uint32 (slice b 24 28),
           en_Priority = b ! 28, en_EnqueuedAtMs = Uint64 (slice b 29 37),
           en_AvailableAtMs = Uint64 (slice b 37 45)\<rparr>))
     else if op = OpLease then
       (if length b < 26 then Inl (PayloadShort op (length b))
        else Inr (BLease
          \<lparr>le_MsgID = Uint64 (slice b 0 8), le_Nonce = Uint64 (slice b 8 16),
           le_Attempt = Uint16 (slice b 16 18), le_LeaseUntilMs = Uint64 (slice b 18 26)\<rparr>))
     else if op = OpAck then
       (if length b < 16 then Inl (PayloadShort op (length b))
        else Inr (BAck \<lparr>ak_MsgID = Uint64 (slice b 0 8), ak_Nonce = Uint64 (slice b 8 16)\<rparr>))
     else if op = OpNack then
       (if length b < 24 then Inl (PayloadShort op (length b))
        else Inr (BNack
          \<lparr>na_MsgID = Uint64 (slice b 0 8), na_Nonce = Uint64 (slice b 8 16),
           na_RequeueAtMs = Uint64 (slice b 16 24)\<rparr>))
     else if op = OpExpire then
       (if length b < 16 then Inl (PayloadShort op (length b))
        else Inr (BExpire \<lparr>ex_MsgID = Uint64 (slice b 0 8), ex_Nonce = Uint64 (slice b 8 16)\<rparr>))
     else if op = OpDead then
       (if length b < 9 then Inl (PayloadShort op (length b))
        else Inr (BDead \<lparr>de_MsgID = Uint64 (slice b 0 8), de_Reason = b ! 8\<rparr>))
     else if op = OpMoveRef then
       (if length b < 24 then Inl (PayloadShort op (length b))
        else Inr (BMoveRef
          \<lparr>mo_MsgID = Uint64 (slice b 0 8), mo_OldRef = Uint64 (slice b 8 16),
           mo_NewRef = Uint64 (slice b 16 24)\<rparr>))
     else Inl (UnknownOp op))"

definition Decode :: "bytes \<Rightarrow> wal_error + Record" where
  "Decode buf =
    (if length buf < recordHeaderSize + recordCRCSize then Inl (TooShort (length buf))
     else
       (let total = unat (Uint32 (slice buf 0 4)) in
        if total \<noteq> length buf then Inl (LengthMismatch total (length buf))
        else
          (let payloadEnd = total - recordCRCSize;
               computed = ChecksumIEEE (take payloadEnd buf);
               stored = Uint32 (drop payloadEnd buf) in
           if computed \<noteq> stored then Inl (CRCMismatch computed stored)
           else
             (case decodePayload (buf ! 12) (slice buf recordHeaderSize payloadEnd) of
                Inl e \<Rightarrow> Inl e
              | Inr body \<Rightarrow> Inr \<lparr>rec_LSN = Uint64 (slice buf 4 12), rec_Op = buf ! 12,
                                 rec_Flags = buf ! 13, rec_Body = body\<rparr>))))"

section \<open>Layout of an encoded record\<close>

lemma encodePayload_length: "encodePayload rc = Inr p \<Longrightarrow> length p \<le> 45"
  by (auto simp: encodePayload_def split: if_splits Body.splits)

lemma decode_encodePayload: "encodePayload rc = Inr p \<Longrightarrow> decodePayload (rec_Op rc) p = Inr (rec_Body rc)"
  by (auto simp: encodePayload_def decodePayload_def wire split: if_splits Body.splits)

lemma Encode_layout:
  assumes "Encode lsn rc = Inr buf"
  obtains p where "encodePayload rc = Inr p" "length buf = 20 + length p"
    "slice buf 0 4 = PutUint32 (word_of_nat (20 + length p))" "slice buf 4 12 = PutUint64 lsn"
    "buf ! 12 = rec_Op rc" "buf ! 13 = rec_Flags rc" "slice buf 16 (16 + length p) = p"
    "drop (16 + length p) buf = PutUint32 (ChecksumIEEE (take (16 + length p) buf))"
proof -
  from assms obtain p where p: "encodePayload rc = Inr p" by (auto simp: Encode_def split: sum.splits)
  define b4 where "b4 = put_at 13 [rec_Flags rc] (put_at 12 [rec_Op rc] (put_at 4 (PutUint64 lsn)
    (put_at 0 (PutUint32 (word_of_nat (20 + length p))) (replicate (20 + length p) 0))))"
  define b5 where "b5 = put_at 16 p b4"
  have l4: "length b4 = 20 + length p" by (simp add: b4_def)
  have l5: "length b5 = 20 + length p" by (simp add: b5_def l4)
  have buf: "buf = put_at (16 + length p) (PutUint32 (ChecksumIEEE (take (16 + length p) b5))) b5"
    using assms p
    by (simp add: Encode_def Let_def b4_def b5_def recordHeaderSize_def recordCRCSize_def)
  have "take (16 + length p) buf = take (16 + length p) b5" by (simp add: buf l5 wire)
  moreover have "drop (16 + length p) buf = PutUint32 (ChecksumIEEE (take (16 + length p) b5))"
    by (simp add: buf l5 put_at_end)
  moreover have "slice buf i j = slice b4 i j" if "j \<le> 16" for i j
    using that by (simp add: buf b5_def l4 l5 [unfolded b5_def] wire)
  moreover have "buf ! k = b4 ! k" if "k < 16" for k
    using that by (simp add: buf b5_def l4 l5 [unfolded b5_def] wire)
  moreover have "slice buf 16 (16 + length p) = p"
    by (simp add: buf l5 wire) (simp add: b5_def l4 wire)
  moreover have "length buf = 20 + length p" by (simp add: buf l5)
  moreover have "slice b4 0 4 = PutUint32 (word_of_nat (20 + length p))" "slice b4 4 12 = PutUint64 lsn"
    "b4 ! 12 = rec_Op rc" "b4 ! 13 = rec_Flags rc"
    by (simp_all add: b4_def wire)
  ultimately show ?thesis using that p by simp
qed

lemma Decode_Encode:
  assumes "Encode lsn rc = Inr buf"
  shows "Decode buf = Inr (rc\<lparr>rec_LSN := lsn\<rparr>)"
proof -
  obtain p where p: "encodePayload rc = Inr p" "length buf = 20 + length p"
    "slice buf 0 4 = PutUint32 (word_of_nat (20 + length p))" "slice buf 4 12 = PutUint64 lsn"
    "buf ! 12 = rec_Op rc" "buf ! 13 = rec_Flags rc" "slice buf 16 (16 + length p) = p"
    "drop (16 + length p) buf = PutUint32 (ChecksumIEEE (take (16 + length p) buf))"
    using Encode_layout [OF assms] by blast
  have "unat (word_of_nat (20 + length p) :: u32) = 20 + length p"
    using encodePayload_length [OF p(1)] by (intro unat_of_nat_u32) simp
  then show ?thesis
    using p decode_encodePayload [OF p(1)]
    by (simp add: Decode_def recordHeaderSize_def recordCRCSize_def)
qed

section \<open>Acceptance and corruption\<close>

text \<open>The opcode that belongs to a body.\<close>

fun body_op :: "Body \<Rightarrow> Op option" where
  "body_op (BEnqueue _) = Some OpEnqueue"
| "body_op (BLease _) = Some OpLease"
| "body_op (BAck _) = Some OpAck"
| "body_op (BNack _) = Some OpNack"
| "body_op (BExpire _) = Some OpExpire"
| "body_op (BDead _) = Some OpDead"
| "body_op (BMoveRef _) = Some OpMoveRef"
| "body_op NoBody = None"

lemma encodePayload_ok_iff:
  "(\<exists>p. encodePayload rc = Inr p) \<longleftrightarrow> body_op (rec_Body rc) = Some (rec_Op rc)"
  by (cases "rec_Body rc") (auto simp: encodePayload_def)

lemma Encode_ok_iff:
  "(\<exists>buf. Encode lsn rc = Inr buf) \<longleftrightarrow> body_op (rec_Body rc) = Some (rec_Op rc)"
  unfolding encodePayload_ok_iff [symmetric] by (auto simp: Encode_def Let_def split: sum.splits)

lemma Decode_OK:
  assumes "Decode buf = Inr rc"
  shows "20 \<le> length buf" "unat (Uint32 (slice buf 0 4)) = length buf"
    "ChecksumIEEE (take (length buf - 4) buf) = Uint32 (drop (length buf - 4) buf)"
  using assms
  by (auto simp: Decode_def Let_def recordHeaderSize_def recordCRCSize_def split: if_splits sum.splits)

lemma Uint32_inj: "length a = 4 \<Longrightarrow> length b = 4 \<Longrightarrow> Uint32 a = Uint32 b \<Longrightarrow> a = b"
  by (metis PutUint_Uint(2))

lemma Decode_detects:
  assumes ok: "Decode buf = Inr rc" and ok': "Decode (put_at k bs buf) = Inr rc'"
    and fits: "k + length bs \<le> length buf" and len: "length bs \<le> 4"
    and region: "k + length bs \<le> 4 \<or> 4 \<le> k \<and> k + length bs \<le> length buf - 4 \<or> length buf - 4 \<le> k"
  shows "put_at k bs buf = buf"
proof -
  let ?b = "put_at k bs buf" and ?e = "length buf - 4"
  note a = Decode_OK [OF ok] and b = Decode_OK [OF ok']
  have l: "length ?b = length buf" using fits by simp
  have parts: "take i ?b = take i buf \<Longrightarrow> drop i ?b = drop i buf \<Longrightarrow> ?b = buf" for i
    by (metis append_take_drop_id)
  have drop_above: "k + length bs \<le> i \<Longrightarrow> drop i ?b = drop i buf" for i
    using fits by (simp add: put_at_def)
  have take_below: "i \<le> k \<Longrightarrow> take i ?b = take i buf" for i
    using fits by (simp add: take_put_at_below)
  consider "k + length bs \<le> 4" | "4 \<le> k" "k + length bs \<le> ?e" | "?e \<le> k" using region by blast
  then show ?thesis
  proof cases
    case 1
    have "Uint32 (slice ?b 0 4) = Uint32 (slice buf 0 4)"
      using a(2) b(2) l by (simp add: word_unat_eq_iff)
    then have "slice ?b 0 4 = slice buf 0 4" using a(1) l by (intro Uint32_inj) simp_all
    then show ?thesis using parts [of 4] drop_above [OF 1] by (simp add: slice_def)
  next
    case 2
    have "take ?e ?b = put_at k bs (take ?e buf)"
      using 2 by (intro take_put_at_inside) simp_all
    moreover have "ChecksumIEEE (take ?e ?b) = ChecksumIEEE (take ?e buf)"
      using a(3) b(3) l drop_above [OF 2(2)] by simp
    ultimately have "take ?e ?b = take ?e buf"
      using ChecksumIEEE_put_at [of bs k "take ?e buf"] 2 len by auto
    then show ?thesis using parts drop_above [OF 2(2)] by blast
  next
    case 3
    have "Uint32 (drop ?e ?b) = Uint32 (drop ?e buf)" using a(3) b(3) l take_below [OF 3] by simp
    then have "drop ?e ?b = drop ?e buf" using a(1) l by (intro Uint32_inj) simp_all
    then show ?thesis using parts take_below [OF 3] by blast
  qed
qed

section \<open>Properties of the record codec\<close>

text \<open>C18. Round trip of the WAL record codec: \<open>Encode\<close> succeeds exactly when the body has the type of
  the opcode, and \<open>Decode\<close> of the bytes it produces returns the record with the assigned LSN, every
  field, priority and timestamp included.\<close>

theorem wal_record_roundtrip:
  "(case Encode lsn rc of
      Inr buf \<Rightarrow> body_op (rec_Body rc) = Some (rec_Op rc) \<and> Decode buf = Inr (rc\<lparr>rec_LSN := lsn\<rparr>)
    | Inl e \<Rightarrow> body_op (rec_Body rc) \<noteq> Some (rec_Op rc))"
proof (cases "Encode lsn rc")
  case (Inl e)
  then have "\<not> (\<exists>buf. Encode lsn rc = Inr buf)" by simp
  then show ?thesis using Inl Encode_ok_iff [of lsn rc] by simp
next
  case (Inr buf)
  then show ?thesis using Encode_ok_iff [of lsn rc] Decode_Encode by auto
qed

text \<open>C19. Torn and corrupted records are detected: if a buffer decodes, then overwriting up to four
  consecutive bytes of its length field, of its body or of its checksum with different bytes (so, in
  particular, changing any single byte) makes \<open>Decode\<close> fail.\<close>

theorem wal_record_corruption_detected:
  assumes "Decode buf = Inr rc" and "put_at k bs buf \<noteq> buf"
    and "k + length bs \<le> length buf" and "length bs \<le> 4"
    and "k + length bs \<le> 4 \<or> 4 \<le> k \<and> k + length bs \<le> length buf - 4 \<or> length buf - 4 \<le> k"
  shows "\<exists>e. Decode (put_at k bs buf) = Inl e"
proof (cases "Decode (put_at k bs buf)")
  case (Inr rc')
  with Decode_detects [OF assms(1) Inr assms(3,4,5)] assms(2) show ?thesis by simp
qed simp

definition sample_ack :: Record where
  "sample_ack = \<lparr>rec_LSN = 0, rec_Op = OpAck, rec_Flags = 0, rec_Body = BAck \<lparr>ak_MsgID = 7, ak_Nonce = 9\<rparr>\<rparr>"

theorem wal_record_corruption_detected_witness:
  "\<exists>buf e. Encode 1 sample_ack = Inr buf \<and> Decode (put_at 16 [8] buf) = Inl e"
proof -
  obtain buf where buf: "Encode 1 sample_ack = Inr buf"
    using Encode_ok_iff [of 1 sample_ack] by (auto simp: sample_ack_def)
  obtain p where p: "encodePayload sample_ack = Inr p" "length buf = 20 + length p"
    "slice buf 16 (16 + length p) = p" using Encode_layout [OF buf] by metis
  have "encodePayload sample_ack = Inr [7, 0, 0, 0, 0, 0, 0, 0, 9, 0, 0, 0, 0, 0, 0, 0]" by code_simp
  with p(1) have pv: "length p = 16" "p ! 0 = 7" by auto
  have "buf ! 16 = 7" using p(2,3) pv nth_slice [of 0 "16 + length p" 16 buf] by simp
  then have "put_at 16 [8] buf \<noteq> buf"
    using p(2) pv nth_put_at [of 16 "[8]" buf 16] by auto
  then show ?thesis
    using wal_record_corruption_detected [OF Decode_Encode [OF buf], of 16 "[8]"] p(2) pv buf by auto
qed

end
