(* ===== verification/Wal_Log.thy ===== *)
theory Wal_Log
  imports Wal_Record
begin

text \<open>
  \<open>internal/wal/wal.go\<close>: the segmented write-ahead log with group commit.  The directory is an
  association list from the first LSN in a segment's file name to the bytes of the file.  The state
  holds the fields of the Go struct and the directory; channels and mutexes do not appear, because
  the committer goroutine is the only writer: \<open>append_encode\<close> is the critical section of a producer,
  \<open>flush\<close> the body of the committer on a batch, and \<open>AppendBatch\<close> their composition for a batch of one
  producer.  The outcome of the operating-system calls is a parameter (\<open>wal_io\<close>).
\<close>

section \<open>State\<close>

definition segSizeThreshold :: int where "segSizeThreshold = 67108864"

record WAL =
  w_lsn :: u64
  w_durableLSN :: u64
  w_segOpen :: bool
  w_segSize :: int
  w_segFirst :: u64
  w_segs :: "u64 list"
  w_closed :: bool
  w_files :: "(u64 \<times> bytes) list"

record pendingWrite =
  pw_data :: bytes
  pw_lsn :: u64

text \<open>
  Outcomes of the calls a flush makes: the fsync and close of a full segment, the creation of a new
  one, the write (\<open>Some n\<close>: failed after \<open>n\<close> bytes reached the file) and the final fsync.
\<close>

record wal_io =
  io_rotSync :: bool
  io_rotClose :: bool
  io_create :: bool
  io_write :: "nat option"
  io_sync :: bool

definition io_ok :: wal_io where
  "io_ok = \<lparr>io_rotSync = True, io_rotClose = True, io_create = True, io_write = None, io_sync = True\<rparr>"

datatype append_error = ErrClosed | EncodeErr wal_error | IOErr

section \<open>Reading a segment\<close>

text \<open>One iteration of the read loops: the length field, the bounds check, the rest, the decoder.\<close>

datatype scan = ScanEOF | ScanBadLen | ScanShort | ScanBadRec wal_error | ScanRec Record bytes

definition scan_record :: "bytes \<Rightarrow> scan" where
  "scan_record data =
    (if length data < 4 then ScanEOF
     else
       (let total = Uint32 (take 4 data) in
        if total < 20 \<or> 16777216 < total then ScanBadLen
        else if length data < unat total then ScanShort
        else (case Decode (take (unat total) data) of
                Inl e \<Rightarrow> ScanBadRec e
              | Inr rc \<Rightarrow> ScanRec rc (drop (unat total) data))))"

lemma scan_record_shrinks: "scan_record data = ScanRec rc rest \<Longrightarrow> length rest < length data"
  by (auto simp: scan_record_def Let_def word_less_nat_alt split: if_splits sum.splits)

function scanSegmentMaxLSN :: "bytes \<Rightarrow> u64 \<Rightarrow> u64" where
  "scanSegmentMaxLSN data maxLSN =
    (case scan_record data of
       ScanRec rc rest \<Rightarrow> scanSegmentMaxLSN rest (if maxLSN < rec_LSN rc then rec_LSN rc else maxLSN)
     | _ \<Rightarrow> maxLSN)"
  by pat_completeness auto
termination
  by (relation "measure (\<lambda>(data, m). length data)") (auto dest: scan_record_shrinks)

text \<open>
  \<open>replaySegment\<close> calls the callback on the records of the list and then returns the error, if any; a
  bad tail of the active segment ends the replay cleanly.
\<close>

function replaySegment :: "bytes \<Rightarrow> u64 \<Rightarrow> bool \<Rightarrow> Record list \<times> scan option" where
  "replaySegment data from isActive =
    (case scan_record data of
       ScanEOF \<Rightarrow> ([], None)
     | ScanRec rc rest \<Rightarrow>
         (case replaySegment rest from isActive of
            (rs, err) \<Rightarrow> (if from \<le> rec_LSN rc then rc # rs else rs, err))
     | bad \<Rightarrow> (if isActive then ([], None) else ([], Some bad)))"
  by pat_completeness auto
termination
  by (relation "measure (\<lambda>(data, f, a). length data)") (auto dest: scan_record_shrinks)

declare scanSegmentMaxLSN.simps [simp del] replaySegment.simps [simp del]

section \<open>Opening\<close>

definition openNewSegment :: "bool \<Rightarrow> u64 \<Rightarrow> WAL \<Rightarrow> WAL option" where
  "openNewSegment create first w =
    (if \<not> create \<or> map_of (w_files w) first \<noteq> None then None
     else Some (w\<lparr>w_files := AList.update first [] (w_files w), w_segOpen := True,
                  w_segSize := 0, w_segFirst := first\<rparr>))"

text \<open>\<open>Open\<close> with \<open>loadSegments\<close>; directory reads are taken to succeed.\<close>

definition wal_Open :: "(u64 \<times> bytes) list \<Rightarrow> WAL" where
  "wal_Open files =
    (let w = \<lparr>w_lsn = 0, w_durableLSN = 0, w_segOpen = False, w_segSize = 0, w_segFirst = 0,
              w_segs = [], w_closed = False, w_files = files\<rparr>;
         firstLSNs = sort (map fst files) in
     if firstLSNs = [] then the (openNewSegment True 1 w)
     else
       (let activeFirst = last firstLSNs;
            data = the (map_of files activeFirst);
            maxLSN = scanSegmentMaxLSN data 0;
            nextLSN = (if maxLSN = 0 then activeFirst else maxLSN + 1)
        in w\<lparr>w_segs := butlast firstLSNs, w_segOpen := True, w_segSize := int (length data),
             w_segFirst := activeFirst, w_lsn := nextLSN - 1, w_durableLSN := maxLSN\<rparr>))"

section \<open>Appending\<close>

text \<open>The producer: assign LSNs and encode; an encoding error leaves the LSNs consumed.\<close>

fun encode_all :: "u64 \<Rightarrow> Record list \<Rightarrow> u64 \<times> (wal_error + bytes)" where
  "encode_all lsn [] = (lsn, Inr [])"
| "encode_all lsn (r # rs) =
    (case Encode (lsn + 1) r of
       Inl e \<Rightarrow> (lsn + 1, Inl e)
     | Inr b \<Rightarrow> (case encode_all (lsn + 1) rs of
                   (l, Inl e) \<Rightarrow> (l, Inl e)
                 | (l, Inr bs) \<Rightarrow> (l, Inr (b @ bs))))"

definition append_encode :: "WAL \<Rightarrow> Record list \<Rightarrow> (append_error + pendingWrite) \<times> WAL" where
  "append_encode w recs =
    (if w_closed w then (Inl ErrClosed, w)
     else
       (case encode_all (w_lsn w) recs of
          (l, Inl e) \<Rightarrow> (Inl (EncodeErr e), w\<lparr>w_lsn := l\<rparr>)
        | (l, Inr bs) \<Rightarrow> (Inr \<lparr>pw_data = bs, pw_lsn = l\<rparr>, w\<lparr>w_lsn := l\<rparr>)))"

definition maybeRotate :: "wal_io \<Rightarrow> u64 \<Rightarrow> WAL \<Rightarrow> bool \<times> WAL" where
  "maybeRotate io nextLSN w =
    (if w_segSize w < segSizeThreshold then (True, w)
     else if \<not> w_segOpen w \<or> \<not> io_rotSync io then (False, w)
     else if \<not> io_rotClose io then (False, w\<lparr>w_segOpen := False\<rparr>)
     else
       (let w1 = w\<lparr>w_segOpen := False, w_segs := w_segs w @ [w_segFirst w]\<rparr> in
        (case openNewSegment (io_create io) nextLSN w1 of
           None \<Rightarrow> (False, w1)
         | Some w2 \<Rightarrow> (True, w2))))"

text \<open>The committer on a batch: rotate, write everything in one call, fsync once, publish the LSN.\<close>

definition flush :: "wal_io \<Rightarrow> pendingWrite list \<Rightarrow> WAL \<Rightarrow> bool \<times> WAL" where
  "flush io batch w =
    (if batch = [] then (True, w)
     else
       (let buf = concat (map pw_data batch); maxLSN = pw_lsn (last batch) in
        (case maybeRotate io maxLSN w of
           (False, w1) \<Rightarrow> (False, w1)
         | (True, w1) \<Rightarrow>
             (let written = (if \<not> w_segOpen w1 then [] else
                               case io_write io of None \<Rightarrow> buf | Some n \<Rightarrow> take n buf);
                  ok = (w_segOpen w1 \<and> io_write io = None \<and> io_sync io);
                  old = (case map_of (w_files w1) (w_segFirst w1) of None \<Rightarrow> [] | Some d \<Rightarrow> d);
                  w2 = w1\<lparr>w_files := AList.update (w_segFirst w1) (old @ written) (w_files w1),
                          w_segSize := w_segSize w1 + int (length buf)\<rparr>
              in (ok, if ok then w2\<lparr>w_durableLSN := maxLSN\<rparr> else w2)))))"

definition AppendBatch :: "wal_io \<Rightarrow> WAL \<Rightarrow> Record list \<Rightarrow> (append_error + u64) \<times> WAL" where
  "AppendBatch io w recs =
    (if recs = [] then (Inr (w_durableLSN w), w)
     else
       (case append_encode w recs of
          (Inl e, w1) \<Rightarrow> (Inl e, w1)
        | (Inr pw, w1) \<Rightarrow>
            (case flush io [pw] w1 of
               (True, w2) \<Rightarrow> (Inr (pw_lsn pw), w2)
             | (False, w2) \<Rightarrow> (Inl IOErr, w2))))"

definition wal_Size :: "WAL \<Rightarrow> int" where
  "wal_Size w = int (length (w_segs w)) * segSizeThreshold + w_segSize w"

text \<open>\<open>Close\<close> stops the producers; the drained batch is whatever was pending.\<close>

definition wal_Close :: "wal_io \<Rightarrow> pendingWrite list \<Rightarrow> WAL \<Rightarrow> WAL" where
  "wal_Close io pending w =
    (if w_closed w then w
     else (snd (flush io pending (w\<lparr>w_closed := True\<rparr>)))\<lparr>w_segOpen := False\<rparr>)"

section \<open>Replay and truncation\<close>

text \<open>The last segment that starts at or before \<open>from\<close>, or the first one.\<close>

fun startIdx :: "u64 \<Rightarrow> nat \<Rightarrow> nat \<Rightarrow> u64 list \<Rightarrow> nat" where
  "startIdx from i best [] = best"
| "startIdx from i best (fl # fls) = startIdx from (Suc i) (if fl \<le> from then i else best) fls"

fun replay_segs :: "WAL \<Rightarrow> u64 \<Rightarrow> u64 list \<Rightarrow> Record list \<times> scan option" where
  "replay_segs w from [] = ([], None)"
| "replay_segs w from (fl # fls) =
    (case (case map_of (w_files w) fl of
             None \<Rightarrow> ([], None)
           | Some data \<Rightarrow> replaySegment data from (fl = w_segFirst w)) of
       (rs, Some e) \<Rightarrow> (rs, Some e)
     | (rs, None) \<Rightarrow> (case replay_segs w from fls of (rs', err) \<Rightarrow> (rs @ rs', err)))"

definition wal_Replay :: "WAL \<Rightarrow> u64 \<Rightarrow> Record list \<times> scan option" where
  "wal_Replay w from =
    (let segs = sort (w_segs w @ [w_segFirst w]) in replay_segs w from (drop (startIdx from 0 0 segs) segs))"

text \<open>\<open>rm fl\<close> tells whether removing the file of segment \<open>fl\<close> succeeds.\<close>

fun truncate_loop :: "(u64 \<Rightarrow> bool) \<Rightarrow> u64 \<Rightarrow> u64 \<Rightarrow> u64 list \<Rightarrow> (u64 \<times> bytes) list
    \<Rightarrow> u64 list option \<times> (u64 \<times> bytes) list" where
  "truncate_loop rm upTo segFirst [] files = (Some [], files)"
| "truncate_loop rm upTo segFirst (fl # fls) files =
    (let nextFL = (case fls of [] \<Rightarrow> segFirst | f # _ \<Rightarrow> f); maxInSeg = nextFL - 1 in
     if maxInSeg \<le> upTo then
       (if \<not> rm fl then (None, files)
        else truncate_loop rm upTo segFirst fls (AList.delete fl files))
     else
       (case truncate_loop rm upTo segFirst fls files of
          (None, fs) \<Rightarrow> (None, fs)
        | (Some keep, fs) \<Rightarrow> (Some (fl # keep), fs)))"

definition TruncatePrefix :: "(u64 \<Rightarrow> bool) \<Rightarrow> u64 \<Rightarrow> WAL \<Rightarrow> bool \<times> WAL" where
  "TruncatePrefix rm upTo w =
    (case truncate_loop rm upTo (w_segFirst w) (w_segs w) (w_files w) of
       (None, fs) \<Rightarrow> (False, w\<lparr>w_files := fs\<rparr>)
     | (Some keep, fs) \<Rightarrow> (True, w\<lparr>w_segs := keep, w_files := fs\<rparr>))"

section \<open>Encoded records read back\<close>

definition encodable :: "Record \<Rightarrow> bool" where
  "encodable rc \<longleftrightarrow> body_op (rec_Body rc) = Some (rec_Op rc)"

definition enc :: "Record \<Rightarrow> bytes" where
  "enc rc = (case Encode (rec_LSN rc) rc of Inl _ \<Rightarrow> [] | Inr b \<Rightarrow> b)"

abbreviation encs :: "Record list \<Rightarrow> bytes" where
  "encs rs \<equiv> concat (map enc rs)"

text \<open>The records with the LSNs that an append after \<open>l\<close> assigns.\<close>

fun number :: "u64 \<Rightarrow> Record list \<Rightarrow> Record list" where
  "number l [] = []"
| "number l (r # rs) = r\<lparr>rec_LSN := l + 1\<rparr> # number (l + 1) rs"

lemma length_number [simp]: "length (number l rs) = length rs"
  by (induction rs arbitrary: l) auto


lemma Encode_enc: "encodable rc \<Longrightarrow> Encode (rec_LSN rc) rc = Inr (enc rc)"
  using Encode_ok_iff [of "rec_LSN rc" rc] by (auto simp: encodable_def enc_def)

lemma enc_total:
  assumes "encodable rc"
  shows "20 \<le> length (enc rc)" "length (enc rc) \<le> 65"
    "Uint32 (take 4 (enc rc)) = word_of_nat (length (enc rc))"
    "unat (word_of_nat (length (enc rc)) :: u32) = length (enc rc)"
proof -
  note e = Encode_enc [OF assms]
  obtain p where p: "encodePayload rc = Inr p" "length (enc rc) = 20 + length p"
    "slice (enc rc) 0 4 = PutUint32 (word_of_nat (20 + length p))"
    using Encode_layout [OF e] by metis
  show len: "20 \<le> length (enc rc)" "length (enc rc) \<le> 65"
    using encodePayload_length [OF p(1)] p(2) by auto
  have "take 4 (enc rc) = slice (enc rc) 0 4" by (simp add: slice_def)
  then show "Uint32 (take 4 (enc rc)) = word_of_nat (length (enc rc))"
    using p(2,3) by (metis Uint_PutUint(2))
  show "unat (word_of_nat (length (enc rc)) :: u32) = length (enc rc)"
    using len by (intro unat_of_nat_u32) simp
qed

lemma scan_record_enc:
  assumes "encodable rc"
  shows "scan_record (enc rc @ rest) = ScanRec rc rest"
  using enc_total [OF assms] Decode_Encode [OF Encode_enc [OF assms]]
  by (simp add: scan_record_def Let_def word_less_nat_alt)

text \<open>A tail at which reading stops: the empty tail, a torn record, or bytes that are no record.\<close>

definition dead_tail :: "bytes \<Rightarrow> bool" where
  "dead_tail tail = (case scan_record tail of ScanRec _ _ \<Rightarrow> False | _ \<Rightarrow> True)"


lemma replaySegment_dead: "dead_tail tail \<Longrightarrow> replaySegment tail from True = ([], None)"
  by (subst replaySegment.simps) (auto simp: dead_tail_def split: scan.splits)

lemma scanMax_dead: "dead_tail tail \<Longrightarrow> scanSegmentMaxLSN tail m = m"
  by (subst scanSegmentMaxLSN.simps) (auto simp: dead_tail_def split: scan.splits)


lemma replaySegment_encs:
  "list_all encodable rs \<Longrightarrow>
   replaySegment (encs rs @ tail) from act =
     (filter (\<lambda>r. from \<le> rec_LSN r) rs @ fst (replaySegment tail from act),
      snd (replaySegment tail from act))"
proof (induction rs)
  case (Cons r rs)
  then show ?case
    by (subst replaySegment.simps) (simp add: scan_record_enc split: prod.split)
qed simp

lemma scan_record_Nil [simp]: "scan_record [] = ScanEOF"
  by (simp add: scan_record_def)

lemma replaySegment_Nil [simp]: "replaySegment [] from act = ([], None)"
  by (simp add: replaySegment.simps)

lemma scanMax_Nil [simp]: "scanSegmentMaxLSN [] m = m"
  by (simp add: scanSegmentMaxLSN.simps)

lemma scanMax_encs:
  "list_all encodable rs \<Longrightarrow> sorted_wrt (<) (map rec_LSN rs) \<Longrightarrow> \<forall>r \<in> set rs. m < rec_LSN r \<Longrightarrow>
   dead_tail tail \<Longrightarrow>
   scanSegmentMaxLSN (encs rs @ tail) m = (if rs = [] then m else rec_LSN (last rs))"
proof (induction rs arbitrary: m)
  case (Cons r rs)
  then show ?case
    by (subst scanSegmentMaxLSN.simps) (auto simp: scan_record_enc)
qed (simp add: scanMax_dead)

lemma Encode_LSN_irrelevant: "Encode l (r\<lparr>rec_LSN := x\<rparr>) = Encode l r"
proof -
  have "encodePayload (r\<lparr>rec_LSN := x\<rparr>) = encodePayload r"
    by (simp add: encodePayload_def cong: if_cong)
  then show ?thesis by (simp add: Encode_def Let_def split: sum.split)
qed

lemma enc_number: "Encode (l + 1) r = Inr b \<Longrightarrow> enc (r\<lparr>rec_LSN := l + 1\<rparr>) = b"
  by (simp add: enc_def Encode_LSN_irrelevant)

lemma encode_all_correct:
  "encode_all l rs = (l', Inr bs) \<Longrightarrow>
   bs = encs (number l rs) \<and> l' = l + word_of_nat (length rs) \<and> list_all encodable (number l rs)"
proof (induction rs arbitrary: l l' bs)
  case (Cons r rs)
  then obtain b bs' where b: "Encode (l + 1) r = Inr b" "encode_all (l + 1) rs = (l', Inr bs')" "bs = b @ bs'"
    by (auto split: sum.splits prod.splits)
  have "encodable r" using Encode_ok_iff [of "l + 1" r] b(1) by (auto simp: encodable_def)
  with Cons.IH [OF b(2)] b show ?case by (simp add: enc_number encodable_def)
qed simp

lemma number_LSNs:
  "unat l + length rs < 2 ^ 64 \<Longrightarrow> i < length rs \<Longrightarrow> unat (rec_LSN (number l rs ! i)) = unat l + Suc i"
proof (induction rs arbitrary: l i)
  case (Cons r rs)
  have "unat (l + 1) = unat l + 1" using Cons.prems(1) by (simp add: unat_add_lem [THEN iffD1])
  then show ?case using Cons by (cases i) auto
qed simp

section \<open>What a log holds\<close>

text \<open>
  \<open>wal_holds w log mark\<close>: the directory of \<open>w\<close> holds the records of \<open>log\<close>, in order and spread over its
  segments, except for a prefix of records at or below \<open>mark\<close>, the point up to which it was
  truncated.  A segment's records lie below the name of every later segment; a segment's name may
  exceed its own first LSNs, because rotation names it after the last LSN of the batch.
\<close>

definition seg_before :: "u64 \<times> Record list \<Rightarrow> u64 \<times> Record list \<Rightarrow> bool" where
  "seg_before a b \<longleftrightarrow> fst a < fst b \<and> (\<forall>r \<in> set (snd a). rec_LSN r < fst b)"

definition segs_hold :: "WAL \<Rightarrow> (u64 \<times> Record list) list \<Rightarrow> bool" where
  "segs_hold w cs \<longleftrightarrow>
     map fst cs = w_segs w @ [w_segFirst w] \<and>
     (\<forall>c \<in> set cs. map_of (w_files w) (fst c) = Some (encs (snd c))) \<and>
     sorted_wrt seg_before cs \<and>
     set (map fst (w_files w)) = set (w_segs w @ [w_segFirst w]) \<and> distinct (map fst (w_files w))"

definition log_ok :: "WAL \<Rightarrow> Record list \<Rightarrow> bool" where
  "log_ok w log \<longleftrightarrow>
     sorted_wrt (<) (map rec_LSN log) \<and> list_all encodable log \<and>
     (\<forall>r \<in> set log. 0 < rec_LSN r \<and> rec_LSN r \<le> w_durableLSN w) \<and> w_durableLSN w \<le> w_lsn w"

definition wal_holds :: "WAL \<Rightarrow> Record list \<Rightarrow> u64 \<Rightarrow> bool" where
  "wal_holds w log mark \<longleftrightarrow>
     (\<exists>dropped cs. log = dropped @ concat (map snd cs) \<and> segs_hold w cs \<and> log_ok w log \<and>
        (\<forall>r \<in> set dropped. rec_LSN r \<le> mark) \<and>
        (if snd (last cs) = [] then log = [] \<and> w_segs w = [] \<and> w_segFirst w = 1
         else w_segFirst w \<le> rec_LSN (last log)))"

lemma wal_holds_first:
  assumes "wal_holds w log mark"
  shows "unat (w_segFirst w) \<le> unat (w_lsn w) + 1"
proof -
  obtain dropped cs where h: "log = dropped @ concat (map snd cs)" "log_ok w log" "segs_hold w cs"
    "if snd (last cs) = [] then log = [] \<and> w_segs w = [] \<and> w_segFirst w = 1
     else w_segFirst w \<le> rec_LSN (last log)"
    using assms unfolding wal_holds_def by blast
  show ?thesis
  proof (cases "snd (last cs) = []")
    case False
    have "cs \<noteq> []" using h(3) by (auto simp: segs_hold_def)
    then have "log \<noteq> []" using False h(1) last_in_set [of cs] by force
    then have "rec_LSN (last log) \<le> w_lsn w" using h(2) by (auto simp: log_ok_def intro: order_trans)
    then show ?thesis using h(4) False by (auto simp: word_le_nat_alt)
  qed (use h in simp)
qed

subsection \<open>Replay\<close>

lemma startIdx_choice:
  "startIdx from i best ks = best \<or> (\<exists>j < length ks. startIdx from i best ks = i + j \<and> ks ! j \<le> from)"
proof (induction ks arbitrary: i best)
  case (Cons k ks)
  from Cons [of "Suc i" "if k \<le> from then i else best"] show ?case
    by (fastforce split: if_splits)
qed simp

lemma segs_hold_sorted: "segs_hold w cs \<Longrightarrow> sorted_wrt (<) (map fst cs)"
  unfolding segs_hold_def sorted_wrt_map
  by (auto simp: seg_before_def elim!: sorted_wrt_mono_rel [rotated])

lemma sort_strict: "sorted_wrt (<) (xs :: u64 list) \<Longrightarrow> sort xs = xs"
  by (simp add: sorted_sort_id strict_sorted_imp_sorted)

lemma replay_segs_hold:
  assumes "\<forall>c \<in> set cs. \<exists>data. map_of (w_files w) (fst c) = Some data \<and>
      replaySegment data from (fst c = w_segFirst w) = (filter (\<lambda>r. from \<le> rec_LSN r) (snd c), None)"
  shows "replay_segs w from (map fst cs) = (filter (\<lambda>r. from \<le> rec_LSN r) (concat (map snd cs)), None)"
  using assms
proof (induction cs)
  case (Cons c cs)
  then obtain data where "map_of (w_files w) (fst c) = Some data"
    "replaySegment data from (fst c = w_segFirst w) = (filter (\<lambda>r. from \<le> rec_LSN r) (snd c), None)" by auto
  with Cons show ?case by simp
qed simp

lemma replaySegment_whole:
  "list_all encodable rs \<Longrightarrow> replaySegment (encs rs) from act = (filter (\<lambda>r. from \<le> rec_LSN r) rs, None)"
  using replaySegment_encs [of rs "[]" "from" act] by simp

text \<open>Skipping the segments before the start index loses nothing, however each segment is read.\<close>

lemma wal_Replay_segs:
  assumes keys: "w_segs w @ [w_segFirst w] = map fst cs" and srt: "sorted_wrt seg_before cs"
    and rd: "\<forall>c \<in> set cs. \<exists>data. map_of (w_files w) (fst c) = Some data \<and>
      replaySegment data from (fst c = w_segFirst w) = (filter (\<lambda>r. from \<le> rec_LSN r) (snd c), None)"
  shows "wal_Replay w from = (filter (\<lambda>r. from \<le> rec_LSN r) (concat (map snd cs)), None)"
proof -
  let ?P = "\<lambda>r. from \<le> rec_LSN r"
  define ks where "ks = map fst cs"
  define k where "k = startIdx from 0 0 ks"
  have "sorted_wrt (<) ks"
    using srt unfolding ks_def sorted_wrt_map by (auto simp: seg_before_def elim!: sorted_wrt_mono_rel [rotated])
  then have ks: "sort (w_segs w @ [w_segFirst w]) = ks" using sort_strict keys by (simp add: ks_def)
  have "concat (map snd cs) = concat (map snd (take k cs)) @ concat (map snd (drop k cs))"
    by (metis append_take_drop_id concat_append map_append)
  moreover have "filter ?P (concat (map snd (take k cs))) = []"
  proof (cases "k = 0")
    case False
    then obtain j where j: "j < length ks" "k = j" "ks ! j \<le> from"
      using startIdx_choice [of "from" 0 0 ks] by (auto simp: k_def)
    have "rec_LSN r < from" if r: "c \<in> set (take k cs)" "r \<in> set (snd c)" for c r
    proof -
      from r(1) j obtain i where i: "i < k" "c = cs ! i" by (auto simp: in_set_conv_nth ks_def)
      have "k < length cs" using j(1,2) by (simp add: ks_def)
      then have "seg_before (cs ! i) (cs ! k)" using i srt by (simp add: sorted_wrt_iff_nth_less)
      with r(2) i j show ?thesis by (auto simp: seg_before_def ks_def)
    qed
    then show ?thesis by (auto simp: filter_empty_conv not_le)
  qed simp
  moreover have "replay_segs w from (drop k ks) = (filter ?P (concat (map snd (drop k cs))), None)"
    unfolding ks_def drop_map by (rule replay_segs_hold) (use rd in \<open>auto dest: in_set_dropD\<close>)
  ultimately show ?thesis by (simp add: wal_Replay_def ks Let_def k_def)
qed

lemma dropped_below:
  assumes "\<forall>r \<in> set dropped. 0 < rec_LSN r \<and> rec_LSN r \<le> mark" "mark < from \<or> mark = 0"
  shows "filter (\<lambda>r. from \<le> rec_LSN r) dropped = []"
  using assms by (force simp: filter_empty_conv not_le)

lemma wal_Replay_holds:
  assumes "wal_holds w log mark" "mark < from \<or> mark = 0"
  shows "wal_Replay w from = (filter (\<lambda>r. from \<le> rec_LSN r) log, None)"
proof -
  obtain dropped cs where log: "log = dropped @ concat (map snd cs)" and s: "segs_hold w cs"
    and ok: "log_ok w log" and d: "\<forall>r \<in> set dropped. rec_LSN r \<le> mark"
    using assms(1) unfolding wal_holds_def by blast
  have "list_all encodable (snd c)" if "c \<in> set cs" for c
    using that ok log by (auto simp: log_ok_def list_all_iff)
  then have "wal_Replay w from = (filter (\<lambda>r. from \<le> rec_LSN r) (concat (map snd cs)), None)"
    using s by (intro wal_Replay_segs) (auto simp: segs_hold_def replaySegment_whole)
  moreover have "filter (\<lambda>r. from \<le> rec_LSN r) dropped = []"
    using d ok log by (intro dropped_below [OF _ assms(2)]) (auto simp: log_ok_def)
  ultimately show ?thesis by (simp add: log)
qed

subsection \<open>Opening, appending, truncating\<close>

lemma wal_holds_fresh: "wal_holds (wal_Open []) [] 0"
  unfolding wal_holds_def
  by (intro exI [of _ "[]"] exI [of _ "[(1, [])]"])
    (simp add: wal_Open_def openNewSegment_def Let_def segs_hold_def log_ok_def)

lemma append_success:
  assumes "AppendBatch io w recs = (Inr l, w')" "recs \<noteq> []"
  obtains w1 where "maybeRotate io l (w\<lparr>w_lsn := l\<rparr>) = (True, w1)"
    "l = w_lsn w + word_of_nat (length recs)" "list_all encodable (number (w_lsn w) recs)"
    "w' = w1\<lparr>w_files := AList.update (w_segFirst w1)
       ((case map_of (w_files w1) (w_segFirst w1) of None \<Rightarrow> [] | Some d \<Rightarrow> d) @ encs (number (w_lsn w) recs))
       (w_files w1), w_segSize := w_segSize w1 + int (length (encs (number (w_lsn w) recs))),
       w_durableLSN := l\<rparr>"
proof -
  obtain bs where e: "encode_all (w_lsn w) recs = (l, Inr bs)"
    using assms by (auto simp: AppendBatch_def append_encode_def split: if_splits prod.splits sum.splits bool.splits)
  note c = encode_all_correct [OF e]
  obtain ok w1 where r: "maybeRotate io l (w\<lparr>w_lsn := l\<rparr>) = (ok, w1)" by fastforce
  have f: "flush io [\<lparr>pw_data = bs, pw_lsn = l\<rparr>] (w\<lparr>w_lsn := l\<rparr>) = (True, w')"
    using assms e by (auto simp: AppendBatch_def append_encode_def split: if_splits prod.splits bool.splits)
  have ok: "ok" using f r by (auto simp: flush_def Let_def split: bool.splits)
  show ?thesis
    using that [of w1] f r ok c
    by (auto simp: flush_def Let_def split: bool.splits if_splits option.splits)
qed

lemma maybeRotate_cases:
  assumes "maybeRotate io l w = (True, w1)"
  shows "w1 = w \<or> (map_of (w_files w) l = None \<and>
    w1 = w\<lparr>w_segs := w_segs w @ [w_segFirst w], w_files := AList.update l [] (w_files w),
           w_segOpen := True, w_segSize := 0, w_segFirst := l\<rparr>)"
  using assms
  by (auto simp: maybeRotate_def openNewSegment_def Let_def split: if_splits option.splits)

lemma number_set:
  assumes "unat l + length rs < 2 ^ 64" "r \<in> set (number l rs)"
  shows "l < rec_LSN r" "rec_LSN r \<le> l + word_of_nat (length rs)"
proof -
  obtain i where i: "i < length rs" "r = number l rs ! i" using assms(2) by (auto simp: in_set_conv_nth)
  have n: "unat (rec_LSN r) = unat l + Suc i" using number_LSNs [OF assms(1) i(1)] i(2) by simp
  have "unat (l + word_of_nat (length rs)) = unat l + length rs"
    using assms(1) by (simp add: unat_word_ariths unsigned_of_nat take_bit_nat_eq_self)
  with n i(1) show "l < rec_LSN r" "rec_LSN r \<le> l + word_of_nat (length rs)"
    by (simp_all add: word_less_nat_alt word_le_nat_alt)
qed

lemma number_sorted: "unat l + length rs < 2 ^ 64 \<Longrightarrow> sorted_wrt (<) (map rec_LSN (number l rs))"
  by (auto simp: sorted_wrt_iff_nth_less word_less_nat_alt number_LSNs)

lemma log_ok_append:
  assumes ok: "log_ok w log" and lim: "unat (w_lsn w) + length recs < 2 ^ 64"
    and enc: "list_all encodable (number (w_lsn w) recs)"
    and w': "w_durableLSN w' = w_lsn w + word_of_nat (length recs)" "w_lsn w' = w_durableLSN w'"
  shows "log_ok w' (log @ number (w_lsn w) recs)"
proof -
  let ?new = "number (w_lsn w) recs" and ?l = "w_lsn w + word_of_nat (length recs)"
  have old: "rec_LSN r \<le> w_lsn w" if "r \<in> set log" for r
    using ok that by (auto simp: log_ok_def intro: order_trans)
  have "w_lsn w \<le> ?l"
    using lim by (simp add: word_le_nat_alt unat_word_ariths unsigned_of_nat take_bit_nat_eq_self)
  moreover have "0 < rec_LSN r \<and> rec_LSN r \<le> ?l" if "r \<in> set ?new" for r
    using number_set [OF lim that] by (auto intro: le_less_trans)
  moreover have "a < b" if "a \<in> rec_LSN ` set log" "b \<in> rec_LSN ` set ?new" for a b
    using that old number_set(1) [OF lim] by (auto intro: le_less_trans)
  ultimately show ?thesis
    using ok enc w' number_sorted [OF lim] old unfolding log_ok_def
    by (auto simp: sorted_wrt_append intro: order_trans)
qed


lemma segs_hold_write:
  assumes "segs_hold w (cs @ [(w_segFirst w, old)])"
    "w_segs w' = w_segs w" "w_segFirst w' = w_segFirst w"
    "w_files w' = AList.update (w_segFirst w) (encs old @ encs new) (w_files w)"
  shows "segs_hold w' (cs @ [(w_segFirst w, old @ new)])"
proof -
  have "fst c \<noteq> w_segFirst w" if "c \<in> set cs" for c
    using assms(1) that by (fastforce simp: segs_hold_def sorted_wrt_append seg_before_def)
  then show ?thesis
    using assms unfolding segs_hold_def
    by (auto simp: update_conv' sorted_wrt_append seg_before_def distinct_update AList.dom_update)
qed

lemma segs_hold_new:
  assumes "segs_hold w cs" "map_of (w_files w) l = None" "\<forall>c \<in> set cs. seg_before c (l, new)"
    "w_segs w' = w_segs w @ [w_segFirst w]" "w_segFirst w' = l"
    "w_files w' = AList.update l (encs new) (AList.update l [] (w_files w))"
  shows "segs_hold w' (cs @ [(l, new)])"
proof -
  have "fst c \<noteq> l" if "c \<in> set cs" for c
    using assms(3) that by (auto simp: seg_before_def)
  then show ?thesis
    using assms unfolding segs_hold_def
    by (auto simp: update_conv' sorted_wrt_append distinct_update AList.dom_update)
qed

lemma unat_lsn_add:
  "unat (l :: u64) + n < 2 ^ 64 \<Longrightarrow> unat (l + word_of_nat n) = unat l + n"
  by (simp add: unat_word_ariths unsigned_of_nat take_bit_nat_eq_self)

lemma number_last:
  assumes "recs \<noteq> []" "unat l + length recs < 2 ^ 64"
  shows "number l recs \<noteq> []" "rec_LSN (last (number l recs)) = l + word_of_nat (length recs)"
proof -
  show ne: "number l recs \<noteq> []" using assms(1) by (cases recs) auto
  show "rec_LSN (last (number l recs)) = l + word_of_nat (length recs)"
    using number_LSNs [OF assms(2), of "length recs - 1"] assms ne
    by (simp add: last_conv_nth word_unat_eq_iff unat_lsn_add)
qed

lemma wal_holds_write:
  assumes h: "wal_holds w log mark" and recs: "recs \<noteq> []" "list_all encodable (number (w_lsn w) recs)"
    and lim: "unat (w_lsn w) + length recs < 2 ^ 64"
    and d: "map_of (w_files w) (w_segFirst w) = Some d"
    and w': "w_segs w' = w_segs w" "w_segFirst w' = w_segFirst w"
      "w_files w' = AList.update (w_segFirst w) (d @ encs (number (w_lsn w) recs)) (w_files w)"
      "w_durableLSN w' = w_lsn w + word_of_nat (length recs)" "w_lsn w' = w_durableLSN w'"
  shows "wal_holds w' (log @ number (w_lsn w) recs) mark"
proof -
  let ?new = "number (w_lsn w) recs"
  obtain dropped cs where log: "log = dropped @ concat (map snd cs)" and s: "segs_hold w cs"
    and ok: "log_ok w log" and dr: "\<forall>r \<in> set dropped. rec_LSN r \<le> mark"
    using h unfolding wal_holds_def by blast
  note n = number_last [OF recs(1) lim]
  obtain cs0 old where cs: "cs = cs0 @ [(w_segFirst w, old)]"
    using s by (cases cs rule: rev_cases) (auto simp: segs_hold_def)
  have "d = encs old" using s cs d by (simp add: segs_hold_def)
  then have "segs_hold w' (cs0 @ [(w_segFirst w, old @ ?new)])"
    using s w' unfolding cs by (rule_tac segs_hold_write) simp_all
  moreover have "w_segFirst w \<le> w_lsn w + word_of_nat (length recs)"
    using wal_holds_first [OF h] length_greater_0_conv [THEN iffD2, OF recs(1)]
    unfolding word_le_nat_alt unat_lsn_add [OF lim] by linarith
  moreover have "log_ok w' (log @ ?new)" using log_ok_append [OF ok lim recs(2)] w' by simp
  ultimately show ?thesis
    using dr n w'(2) log cs unfolding wal_holds_def
    by (intro exI [of _ dropped] exI [of _ "cs0 @ [(w_segFirst w, old @ ?new)]"]) simp
qed

lemma seg_before_new:
  assumes h: "wal_holds w log mark" "segs_hold w cs" "log = dropped @ concat (map snd cs)"
    and l: "w_lsn w < l" "map_of (w_files w) l = None" and b: "b \<in> set cs"
  shows "seg_before b (l, new)"
proof -
  have keys: "map fst cs = w_segs w @ [w_segFirst w]" using h(2) by (simp add: segs_hold_def)
  have "fst b \<le> w_segFirst w"
  proof -
    have "fst b \<in> set (w_segs w @ [w_segFirst w])" using b keys by (metis image_eqI set_map)
    moreover have "sorted_wrt (<) (w_segs w @ [w_segFirst w])" using segs_hold_sorted [OF h(2)] keys by simp
    ultimately show ?thesis by (auto simp: sorted_wrt_append intro: less_imp_le)
  qed
  then have "unat (fst b) \<le> unat l"
    using wal_holds_first [OF h(1)] l(1) by (simp add: word_le_nat_alt word_less_nat_alt)
  moreover have "map_of (w_files w) (fst b) \<noteq> None" using h(2) b by (auto simp: segs_hold_def)
  then have "fst b \<noteq> l" using l(2) by auto
  moreover have "rec_LSN r < l" if "r \<in> set (snd b)" for r
  proof -
    have "r \<in> set log" using that b h(3) by auto
    then have "rec_LSN r \<le> w_lsn w"
      using h(1) by (auto simp: wal_holds_def log_ok_def intro: order_trans)
    then show ?thesis using l(1) by simp
  qed
  ultimately show ?thesis
    by (auto simp: seg_before_def word_less_nat_alt order_less_le word_unat_eq_iff)
qed

lemma wal_holds_rotate:
  assumes h: "wal_holds w log mark" and recs: "recs \<noteq> []" "list_all encodable (number (w_lsn w) recs)"
    and lim: "unat (w_lsn w) + length recs < 2 ^ 64" and l: "l = w_lsn w + word_of_nat (length recs)"
    and new: "map_of (w_files w) l = None"
    and w': "w_segs w' = w_segs w @ [w_segFirst w]" "w_segFirst w' = l"
      "w_files w' = AList.update l (encs (number (w_lsn w) recs)) (AList.update l [] (w_files w))"
      "w_durableLSN w' = l" "w_lsn w' = l"
  shows "wal_holds w' (log @ number (w_lsn w) recs) mark"
proof -
  let ?new = "number (w_lsn w) recs"
  obtain dropped cs where log: "log = dropped @ concat (map snd cs)" and s: "segs_hold w cs"
    and ok: "log_ok w log" and dr: "\<forall>r \<in> set dropped. rec_LSN r \<le> mark"
    using h unfolding wal_holds_def by blast
  note n = number_last [OF recs(1) lim]
  have "w_lsn w < l"
    using recs(1) unfolding l word_less_nat_alt unat_lsn_add [OF lim] by simp
  then have "segs_hold w' (cs @ [(l, ?new)])"
    using seg_before_new [OF h s log _ new] w' new by (intro segs_hold_new [OF s]) simp_all
  moreover have "log_ok w' (log @ ?new)" using log_ok_append [OF ok lim recs(2)] w' l by simp
  ultimately show ?thesis
    using dr n w'(2) log l unfolding wal_holds_def
    by (intro exI [of _ dropped] exI [of _ "cs @ [(l, ?new)]"]) simp
qed

lemma wal_holds_active: "wal_holds w log mark \<Longrightarrow> \<exists>d. map_of (w_files w) (w_segFirst w) = Some d"
proof -
  assume "wal_holds w log mark"
  then obtain cs where "segs_hold w cs" unfolding wal_holds_def by blast
  then show ?thesis by (cases cs rule: rev_cases) (auto simp: segs_hold_def)
qed

lemma wal_holds_append:
  assumes h: "wal_holds w log mark" and a: "AppendBatch io w recs = (Inr l, w')" "recs \<noteq> []"
    and lim: "unat (w_lsn w) + length recs < 2 ^ 64"
  shows "wal_holds w' (log @ number (w_lsn w) recs) mark"
proof (rule append_success [OF a])
  fix w1
  let ?new = "number (w_lsn w) recs"
  assume rot: "maybeRotate io l (w\<lparr>w_lsn := l\<rparr>) = (True, w1)"
    and l: "l = w_lsn w + word_of_nat (length recs)" and en: "list_all encodable ?new"
    and w': "w' = w1\<lparr>w_files := AList.update (w_segFirst w1)
       ((case map_of (w_files w1) (w_segFirst w1) of None \<Rightarrow> [] | Some d \<Rightarrow> d) @ encs ?new) (w_files w1),
       w_segSize := w_segSize w1 + int (length (encs ?new)), w_durableLSN := l\<rparr>"
  obtain d where d: "map_of (w_files w) (w_segFirst w) = Some d" using wal_holds_active [OF h] by blast
  from maybeRotate_cases [OF rot] show ?thesis
  proof
    assume w1: "w1 = w\<lparr>w_lsn := l\<rparr>"
    show ?thesis by (rule wal_holds_write [OF h a(2) en lim d]) (simp_all add: w' w1 d l)
  next
    assume w1: "map_of (w_files (w\<lparr>w_lsn := l\<rparr>)) l = None \<and>
      w1 = (w\<lparr>w_lsn := l\<rparr>)\<lparr>w_segs := w_segs (w\<lparr>w_lsn := l\<rparr>) @ [w_segFirst (w\<lparr>w_lsn := l\<rparr>)],
        w_files := AList.update l [] (w_files (w\<lparr>w_lsn := l\<rparr>)), w_segOpen := True, w_segSize := 0,
        w_segFirst := l\<rparr>"
    then show ?thesis
      by (intro wal_holds_rotate [OF h a(2) en lim l]) (simp_all add: w' update_conv')
  qed
qed

text \<open>The segments that a truncation removes are a prefix, all of whose records are at or below \<open>upTo\<close>.\<close>

lemma word_pred_mono: "(0 :: u64) < a \<Longrightarrow> a < b \<Longrightarrow> a - 1 < b - 1"
  by (simp add: word_less_nat_alt unat_minus_one word_neq_0_conv)

lemma map_of_filter_key:
  "map_of (filter (\<lambda>kv. fst kv \<notin> S) xs) k = (if k \<in> S then None else map_of xs k)"
  by (induction xs) auto

lemma word_le_pred: "(a :: u64) < b \<Longrightarrow> a \<le> b - 1"
  by (cases "b = 0") (auto simp: word_less_nat_alt word_le_nat_alt unat_minus_one)

lemma strict_distinct: "sorted_wrt (<) (xs :: u64 list) \<Longrightarrow> distinct xs"
  by (auto simp: strict_sorted_iff)

lemma truncate_loop_keeps:
  "sorted_wrt (<) (fls @ [sf]) \<Longrightarrow> fls \<noteq> [] \<Longrightarrow> upTo < (fls @ [sf]) ! 1 - 1 \<Longrightarrow>
   truncate_loop rm upTo sf fls files = (Some fls, files)"
proof (induction fls)
  case (Cons f fls)
  show ?case
  proof (cases fls)
    case (Cons g gs)
    have "(gs @ [sf]) ! 0 - 1 > g - 1"
      using Cons.prems(1) Cons by (cases gs) (auto intro!: word_pred_mono intro: le_less_trans)
    then have "upTo < (gs @ [sf]) ! 0 - 1" using Cons.prems(3) Cons by simp
    then have "truncate_loop rm upTo sf fls files = (Some fls, files)"
      using Cons.IH Cons.prems Cons by (simp del: truncate_loop.simps)
    then show ?thesis using Cons.prems(3) unfolding truncate_loop.simps(2) [of rm upTo sf f]
      by (simp add: Cons Let_def not_le del: truncate_loop.simps)
  qed (use Cons in \<open>simp add: not_le\<close>)
qed simp

lemma truncate_loop_prefix:
  assumes "sorted_wrt (<) (fls @ [sf])"
  shows "\<exists>n \<le> length fls. truncate_loop (\<lambda>_. True) upTo sf fls files =
      (Some (drop n fls), filter (\<lambda>kv. fst kv \<notin> set (take n fls)) files) \<and>
      (\<forall>i < n. (fls @ [sf]) ! Suc i - 1 \<le> upTo)"
  using assms
proof (induction fls arbitrary: files)
  case (Cons f fls)
  let ?nx = "case fls of [] \<Rightarrow> sf | g # _ \<Rightarrow> g"
  have nx: "((f # fls) @ [sf]) ! 1 = ?nx" by (cases fls) auto
  show ?case
  proof (cases "?nx - 1 \<le> upTo")
    case True
    obtain n where n: "n \<le> length fls" "truncate_loop (\<lambda>_. True) upTo sf fls (AList.delete f files) =
        (Some (drop n fls), filter (\<lambda>kv. fst kv \<notin> set (take n fls)) (AList.delete f files))"
      "\<forall>i < n. (fls @ [sf]) ! Suc i - 1 \<le> upTo"
      using Cons.IH [of "AList.delete f files"] Cons.prems by auto
    have "filter (\<lambda>kv. fst kv \<notin> set (take n fls)) (AList.delete f files) =
        filter (\<lambda>kv. fst kv \<notin> set (take (Suc n) (f # fls))) files"
      by (auto simp: AList.delete_eq intro!: filter_cong)
    moreover have "((f # fls) @ [sf]) ! Suc i - 1 \<le> upTo" if "i < Suc n" for i
      using that n(3) nx True by (cases i) auto
    ultimately show ?thesis using n(1,2) True by (intro exI [of _ "Suc n"]) simp
  next
    case False
    then show ?thesis
      using truncate_loop_keeps [OF Cons.prems, of upTo "\<lambda>_. True" files] nx
      by (intro exI [of _ 0]) (simp add: not_le del: truncate_loop.simps)
  qed
qed simp

lemma wal_holds_truncate:
  assumes h: "wal_holds w log mark"
  shows "fst (TruncatePrefix (\<lambda>_. True) upTo w) \<and>
         wal_holds (snd (TruncatePrefix (\<lambda>_. True) upTo w)) log (max mark upTo)"
proof -
  obtain dropped cs where log: "log = dropped @ concat (map snd cs)" and s: "segs_hold w cs"
    and ok: "log_ok w log" and d: "\<forall>r \<in> set dropped. rec_LSN r \<le> mark"
    and act: "if snd (last cs) = [] then log = [] \<and> w_segs w = [] \<and> w_segFirst w = 1
       else w_segFirst w \<le> rec_LSN (last log)"
    using h unfolding wal_holds_def by blast
  have keys: "map fst cs = w_segs w @ [w_segFirst w]" using s by (simp add: segs_hold_def)
  have srt: "sorted_wrt (<) (w_segs w @ [w_segFirst w])" using segs_hold_sorted [OF s] keys by simp
  obtain n where n: "n \<le> length (w_segs w)"
    "truncate_loop (\<lambda>_. True) upTo (w_segFirst w) (w_segs w) (w_files w) =
      (Some (drop n (w_segs w)), filter (\<lambda>kv. fst kv \<notin> set (take n (w_segs w))) (w_files w))"
    "\<forall>i < n. (w_segs w @ [w_segFirst w]) ! Suc i - 1 \<le> upTo"
    using truncate_loop_prefix [OF srt] by blast
  let ?fs = "filter (\<lambda>kv. fst kv \<notin> set (take n (w_segs w))) (w_files w)"
  let ?w = "w\<lparr>w_segs := drop n (w_segs w), w_files := ?fs\<rparr>"
  have t: "TruncatePrefix (\<lambda>_. True) upTo w = (True, ?w)" using n(2) by (simp add: TruncatePrefix_def)
  have len: "length cs = Suc (length (w_segs w))" using keys by (metis length_append_singleton length_map)
  have dk: "map fst (drop n cs) = drop n (w_segs w) @ [w_segFirst w]" "map fst (take n cs) = take n (w_segs w)"
    using n(1) keys by (simp_all add: drop_map [symmetric] take_map [symmetric])
  have dist: "distinct (w_segs w @ [w_segFirst w])" using srt by (rule strict_distinct)
  have "segs_hold ?w (drop n cs)"
    unfolding segs_hold_def
  proof (intro conjI ballI)
    fix c assume c: "c \<in> set (drop n cs)"
    have "fst c \<in> set (drop n (w_segs w) @ [w_segFirst w])"
      using c dk(1) by (metis image_eqI set_map)
    then have "fst c \<notin> set (take n (w_segs w))"
      using dist set_take_disj_set_drop_if_distinct [of "w_segs w" n n] by (auto dest: in_set_takeD)
    then show "map_of (w_files ?w) (fst c) = Some (encs (snd c))"
      using s c by (auto simp: segs_hold_def map_of_filter_key dest!: in_set_dropD)
  next
    have "set (take n (w_segs w)) \<inter> set (drop n (w_segs w)) = {}" "w_segFirst w \<notin> set (w_segs w)"
      using dist set_take_disj_set_drop_if_distinct [of "w_segs w" n n] by auto
    moreover have "set (w_segs w) = set (take n (w_segs w)) \<union> set (drop n (w_segs w))"
      by (metis append_take_drop_id set_append)
    moreover have "fst ` set (w_files w) = insert (w_segFirst w) (set (w_segs w))"
      using s by (auto simp: segs_hold_def)
    moreover have "fst ` {kv \<in> set (w_files w). fst kv \<notin> S} = fst ` set (w_files w) - S" for S by auto
    ultimately show "set (map fst (w_files ?w)) = set (w_segs ?w @ [w_segFirst ?w])" by auto
  qed (use s dk in \<open>simp_all add: segs_hold_def sorted_wrt_drop distinct_map_filter\<close>)
  moreover have "rec_LSN r \<le> upTo" if r: "c \<in> set (take n cs)" "r \<in> set (snd c)" for c r
  proof -
    obtain i where i: "i < n" "c = cs ! i" using r(1) by (auto simp: in_set_conv_nth)
    have "seg_before c (cs ! Suc i)"
      using s i n(1) len by (simp add: segs_hold_def sorted_wrt_iff_nth_less)
    moreover have "fst (cs ! Suc i) = (w_segs w @ [w_segFirst w]) ! Suc i"
      using keys i n(1) len by (metis Suc_le_eq le_trans less_Suc_eq_le nth_map Suc_leI)
    ultimately have "rec_LSN r < (w_segs w @ [w_segFirst w]) ! Suc i"
      using r(2) by (simp add: seg_before_def)
    then have "rec_LSN r \<le> (w_segs w @ [w_segFirst w]) ! Suc i - 1" by (rule word_le_pred)
    with n(3) i(1) show ?thesis by (meson order_trans)
  qed
  then have "\<forall>r \<in> set (dropped @ concat (map snd (take n cs))). rec_LSN r \<le> max mark upTo"
    using d by (auto simp: le_max_iff_disj)
  moreover have "last (drop n cs) = last cs" using n(1) len by (simp add: last_drop)
  moreover have "log = (dropped @ concat (map snd (take n cs))) @ concat (map snd (drop n cs))"
    unfolding log by (metis append.assoc append_take_drop_id concat_append map_append)
  moreover have "log_ok ?w log" using ok by (simp add: log_ok_def)
  ultimately have "wal_holds ?w log (max mark upTo)"
    using act unfolding wal_holds_def
    by (intro exI [of _ "dropped @ concat (map snd (take n cs))"] exI [of _ "drop n cs"])
      (cases "snd (last cs) = []"; simp)
  then show ?thesis by (simp add: t)
qed

text \<open>Opening a directory whose active segment carries a dead tail finds the segments and the LSN.\<close>

lemma wal_Open_tail:
  assumes h: "wal_holds w log mark" and d: "map_of (w_files w) (w_segFirst w) = Some d"
    and tail: "dead_tail tail"
  defines "w' \<equiv> wal_Open (AList.update (w_segFirst w) (d @ tail) (w_files w))"
  shows "w_segs w' = w_segs w" "w_segFirst w' = w_segFirst w"
    "w_files w' = AList.update (w_segFirst w) (d @ tail) (w_files w)"
    "w_lsn w' = w_durableLSN w'" "w_lsn w' = (if log = [] then 0 else rec_LSN (last log))"
    "w_segOpen w'" "w_segSize w' = int (length d + length tail)"
proof -
  obtain dropped cs where log: "log = dropped @ concat (map snd cs)" and s: "segs_hold w cs"
    and ok: "log_ok w log"
    and act: "if snd (last cs) = [] then log = [] \<and> w_segs w = [] \<and> w_segFirst w = 1
       else w_segFirst w \<le> rec_LSN (last log)"
    using h unfolding wal_holds_def by blast
  have keys: "map fst cs = w_segs w @ [w_segFirst w]" using s by (simp add: segs_hold_def)
  have srt: "sorted_wrt (<) (w_segs w @ [w_segFirst w])" using segs_hold_sorted [OF s] keys by simp
  have srt': "sort (map fst (AList.update (w_segFirst w) (d @ tail) (w_files w))) = w_segs w @ [w_segFirst w]"
    using s srt strict_sorted_imp_sorted [OF srt] strict_distinct [OF srt]
    by (intro sorted_distinct_set_unique) (auto simp: segs_hold_def distinct_update AList.dom_update)
  obtain cs0 act_recs where cs: "cs = cs0 @ [(w_segFirst w, act_recs)]"
    using keys by (cases cs rule: rev_cases) auto
  have data: "d = encs act_recs" using s cs d by (simp add: segs_hold_def)
  let ?m = "if act_recs = [] then 0 else rec_LSN (last act_recs)"
  have "list_all encodable act_recs" "sorted_wrt (<) (map rec_LSN act_recs)" "\<forall>r \<in> set act_recs. 0 < rec_LSN r"
    using ok log cs by (auto simp: log_ok_def sorted_wrt_append)
  then have m: "scanSegmentMaxLSN (d @ tail) 0 = ?m" unfolding data using tail by (rule scanMax_encs)
  show "w_segs w' = w_segs w" "w_segFirst w' = w_segFirst w" "w_segOpen w'"
    "w_segSize w' = int (length d + length tail)"
    "w_files w' = AList.update (w_segFirst w) (d @ tail) (w_files w)"
    by (simp_all add: w'_def wal_Open_def Let_def srt' update_conv')
  have "act_recs \<noteq> [] \<Longrightarrow> last act_recs \<in> set log" using log cs by auto
  then have "act_recs \<noteq> [] \<Longrightarrow> rec_LSN (last act_recs) \<noteq> 0" using ok by (force simp: log_ok_def)
  moreover have "?m = (if log = [] then 0 else rec_LSN (last log))" "act_recs = [] \<Longrightarrow> w_segFirst w = 1"
    using act cs log by (auto split: if_splits)
  moreover have "w_durableLSN w' = ?m" "w_lsn w' = (if ?m = 0 then w_segFirst w - 1 else ?m)"
    by (simp_all add: w'_def wal_Open_def Let_def srt' m)
  ultimately show "w_lsn w' = w_durableLSN w'" "w_lsn w' = (if log = [] then 0 else rec_LSN (last log))"
    by (cases "act_recs = []"; simp)+
qed

lemma log_ok_last: "log_ok w log \<Longrightarrow> r \<in> set log \<Longrightarrow> rec_LSN r \<le> rec_LSN (last log)"
proof (cases log rule: rev_cases)
  case (snoc ys y)
  then show "log_ok w log \<Longrightarrow> r \<in> set log \<Longrightarrow> ?thesis"
    by (auto simp: log_ok_def sorted_wrt_append intro: less_imp_le)
qed simp

lemma wal_holds_reopen:
  assumes h: "wal_holds w log mark"
  shows "wal_holds (wal_Open (w_files w)) log mark"
proof -
  obtain d where d: "map_of (w_files w) (w_segFirst w) = Some d" using wal_holds_active [OF h] by blast
  have "dead_tail []" by (simp add: dead_tail_def)
  note o = wal_Open_tail [OF h d this, simplified update_triv_alist [OF d] append_Nil2]
  obtain dropped cs where log: "log = dropped @ concat (map snd cs)" and s: "segs_hold w cs"
    and ok: "log_ok w log" and dr: "\<forall>r \<in> set dropped. rec_LSN r \<le> mark"
    and act: "if snd (last cs) = [] then log = [] \<and> w_segs w = [] \<and> w_segFirst w = 1
       else w_segFirst w \<le> rec_LSN (last log)"
    using h unfolding wal_holds_def by blast
  have "log_ok (wal_Open (w_files w)) log"
    using ok o(4,5) log_ok_last [OF ok] by (cases "log = []") (auto simp: log_ok_def)
  moreover have "segs_hold (wal_Open (w_files w)) cs" using s o by (simp add: segs_hold_def)
  ultimately show ?thesis
    using log dr act o(1,2) unfolding wal_holds_def
    by (intro exI [of _ dropped] exI [of _ cs]) (simp split: if_splits)
qed

lemma replay_segs_cong:
  assumes "w_segFirst w' = w_segFirst w"
    "\<forall>fl. fl \<noteq> w_segFirst w \<longrightarrow> map_of (w_files w') fl = map_of (w_files w) fl"
    "map_of (w_files w) (w_segFirst w) = Some d" "map_of (w_files w') (w_segFirst w) = Some d'"
    "replaySegment d' from True = replaySegment d from True"
  shows "replay_segs w' from ks = replay_segs w from ks"
proof (induction ks)
  case (Cons k ks)
  then show ?case using assms by (cases "k = w_segFirst w") (simp_all cong: option.case_cong)
qed simp

lemma wal_Replay_tail:
  assumes h: "wal_holds w log mark" and d: "map_of (w_files w) (w_segFirst w) = Some d"
    and tail: "dead_tail tail"
  shows "wal_Replay (wal_Open (AList.update (w_segFirst w) (d @ tail) (w_files w))) from = wal_Replay w from"
proof -
  note o = wal_Open_tail [OF h d tail]
  obtain dropped cs where log: "log = dropped @ concat (map snd cs)" and s: "segs_hold w cs"
    and ok: "log_ok w log"
    using h unfolding wal_holds_def by blast
  obtain cs0 act_recs where cs: "cs = cs0 @ [(w_segFirst w, act_recs)]"
    using s by (cases cs rule: rev_cases) (auto simp: segs_hold_def)
  have "d = encs act_recs" using s cs d by (simp add: segs_hold_def)
  moreover have "list_all encodable act_recs" using ok log cs by (simp add: log_ok_def)
  ultimately have "replaySegment (d @ tail) from True = replaySegment d from True"
    using replaySegment_encs [of act_recs tail "from" True] replaySegment_encs [of act_recs "[]" "from" True]
    by (simp add: replaySegment_dead [OF tail])
  then have "replay_segs (wal_Open (AList.update (w_segFirst w) (d @ tail) (w_files w))) from ks = replay_segs w from ks" for ks
    using o(2,3) d by (intro replay_segs_cong [where d = d and d' = "d @ tail"]) simp_all
  then show ?thesis using o(1,2) by (simp add: wal_Replay_def)
qed

section \<open>Runs of a log\<close>

text \<open>
  The life of a log directory: it starts empty; batches are appended; some appends fail in the
  encoder and consume LSNs; a checkpoint truncates; the process stops, with or without a clean
  \<open>Close\<close>, and the directory is opened again.
\<close>

inductive wal_run :: "WAL \<Rightarrow> Record list \<Rightarrow> u64 \<Rightarrow> bool" where
  fresh: "wal_run (wal_Open []) [] 0"
| append: "wal_run w log mark \<Longrightarrow> recs \<noteq> [] \<Longrightarrow> unat (w_lsn w) + length recs < 2 ^ 64 \<Longrightarrow>
    AppendBatch io w recs = (Inr l, w') \<Longrightarrow> wal_run w' (log @ number (w_lsn w) recs) mark"
| encode_error: "wal_run w log mark \<Longrightarrow> unat (w_lsn w) + length recs < 2 ^ 64 \<Longrightarrow>
    AppendBatch io w recs = (Inl (EncodeErr e), w') \<Longrightarrow> wal_run w' log mark"
| truncate: "wal_run w log mark \<Longrightarrow> TruncatePrefix (\<lambda>_. True) upTo w = (True, w') \<Longrightarrow>
    wal_run w' log (max mark upTo)"
| close: "wal_run w log mark \<Longrightarrow> wal_run (wal_Close io [] w) log mark"
| reopen: "wal_run w log mark \<Longrightarrow> wal_run (wal_Open (w_files w)) log mark"

lemma encode_all_lsn:
  "unat l + length rs < 2 ^ 64 \<Longrightarrow> encode_all l rs = (l', x) \<Longrightarrow> l \<le> l'"
proof (induction rs arbitrary: l l' x)
  case (Cons r rs)
  have s: "unat (l + 1) = unat l + 1" using unat_lsn_add [of l 1] Cons.prems(1) by simp
  then have "l \<le> l + 1" by (simp add: word_le_nat_alt)
  moreover have "l' = l + 1 \<or> (\<exists>y. encode_all (l + 1) rs = (l', y))"
    using Cons.prems(2) by (auto split: sum.splits prod.splits)
  moreover have "l + 1 \<le> l'" if "encode_all (l + 1) rs = (l', y)" for y
    using Cons.IH [OF _ that] Cons.prems(1) s by simp
  ultimately show ?case by (auto intro: order_trans)
qed simp

lemma append_encode_error:
  assumes "AppendBatch io w recs = (Inl (EncodeErr e), w')" "unat (w_lsn w) + length recs < 2 ^ 64"
  shows "\<exists>l. w_lsn w \<le> l \<and> w' = w\<lparr>w_lsn := l\<rparr>"
proof -
  obtain l where "encode_all (w_lsn w) recs = (l, Inl e)" "w' = w\<lparr>w_lsn := l\<rparr>"
    using assms(1)
    by (auto simp: AppendBatch_def append_encode_def split: if_splits prod.splits sum.splits bool.splits)
  then show ?thesis using encode_all_lsn [OF assms(2)] by blast
qed

lemma wal_holds_cong:
  assumes "wal_holds w log mark" "w_segs w' = w_segs w" "w_segFirst w' = w_segFirst w"
    "w_files w' = w_files w" "w_durableLSN w' = w_durableLSN w" "w_lsn w \<le> w_lsn w'"
  shows "wal_holds w' log mark"
proof -
  have "segs_hold w' = segs_hold w" using assms by (simp add: segs_hold_def fun_eq_iff)
  moreover have "log_ok w log \<Longrightarrow> log_ok w' log" using assms by (auto simp: log_ok_def intro: order_trans)
  ultimately show ?thesis using assms unfolding wal_holds_def by metis
qed

lemma wal_run_holds: "wal_run w log mark \<Longrightarrow> wal_holds w log mark"
proof (induction rule: wal_run.induct)
  case (encode_error w log mark recs io e w')
  then obtain l where "w_lsn w \<le> l" "w' = w\<lparr>w_lsn := l\<rparr>" using append_encode_error by blast
  then show ?case using encode_error by (auto intro: wal_holds_cong)
next
  case (truncate w log mark upTo w')
  then show ?case using wal_holds_truncate [of w log mark upTo] by simp
next
  case (close w log mark io)
  show ?case by (rule wal_holds_cong [OF close.IH]) (simp_all add: wal_Close_def flush_def)
qed (auto intro: wal_holds_fresh wal_holds_append wal_holds_reopen)

text \<open>C16. Durability of the write-ahead log: whatever sequence of appends (with rotations of the active
  segment), failed encodings, truncations, closes and reopenings leads to a log, \<open>Replay(from)\<close> returns
  without error exactly the records of the successful appends whose LSN is at least \<open>from\<close>, in order
  and with the LSNs assigned to them, provided the log was not truncated at or above \<open>from\<close>. In
  particular \<open>TruncatePrefix(upTo)\<close> never removes a record above \<open>upTo\<close>.\<close>

theorem wal_replay_returns_appended:
  "wal_run w log mark \<Longrightarrow> mark < from \<or> mark = 0 \<Longrightarrow>
   wal_Replay w from = (filter (\<lambda>r. from \<le> rec_LSN r) log, None)"
  by (rule wal_Replay_holds [OF wal_run_holds])

definition ack_rec :: "u64 \<Rightarrow> Record" where
  "ack_rec m = \<lparr>rec_LSN = 0, rec_Op = OpAck, rec_Flags = 0, rec_Body = BAck \<lparr>ak_MsgID = m, ak_Nonce = 7\<rparr>\<rparr>"

lemma ack_rec_Encode: "\<exists>b. Encode l (ack_rec m) = Inr b"
  using Encode_ok_iff [of l "ack_rec m"] by (auto simp: ack_rec_def)

lemma wal_run_acks:
  "\<exists>w. wal_run w (number 0 [ack_rec 5, ack_rec 6]) 0 \<and> w_lsn w = 2 \<and> \<not> w_closed w \<and> w_segOpen w"
proof -
  obtain b1 b2 where b: "Encode 1 (ack_rec 5) = Inr b1" "Encode 2 (ack_rec 6) = Inr b2"
    using ack_rec_Encode by metis
  obtain w where w: "AppendBatch io_ok (wal_Open []) [ack_rec 5, ack_rec 6] = (Inr 2, w)"
    "w_lsn w = 2" "\<not> w_closed w" "w_segOpen w"
    by (simp add: AppendBatch_def append_encode_def wal_Open_def openNewSegment_def b io_ok_def
        flush_def maybeRotate_def segSizeThreshold_def Let_def)
  have "w_lsn (wal_Open []) = 0" by (simp add: wal_Open_def openNewSegment_def)
  then show ?thesis using wal_run.append [OF wal_run.fresh _ _ w(1)] w by auto
qed

theorem wal_replay_returns_appended_witness:
  "\<exists>w. wal_run w (number 0 [ack_rec 5, ack_rec 6]) 0 \<and>
       wal_Replay w 2 = ([(ack_rec 6)\<lparr>rec_LSN := 2\<rparr>], None)"
proof -
  obtain w where w: "wal_run w (number 0 [ack_rec 5, ack_rec 6]) 0" using wal_run_acks by blast
  show ?thesis
    using w wal_replay_returns_appended [OF w, of 2]
    by (intro exI [of _ w]) (simp add: ack_rec_def word_le_nat_alt)
qed

subsection \<open>A log that can rotate\<close>

text \<open>
  The log is open, and when a rotation is due, the name of the new segment, which is the last LSN of the
  next batch, is above that of every segment file.
\<close>

definition wal_usable :: "nat \<Rightarrow> WAL \<Rightarrow> bool" where
  "wal_usable n w \<longleftrightarrow> \<not> w_closed w \<and> w_segOpen w \<and> unat (w_lsn w) + n < 2 ^ 64 \<and>
     (segSizeThreshold \<le> w_segSize w \<longrightarrow> (\<forall>fl \<in> fst ` set (w_files w). fl \<le> w_lsn w))"

lemma truncate_loop_other:
  "k \<notin> set fls \<Longrightarrow> map_of (snd (truncate_loop rm upTo sf fls files)) k = map_of files k"
proof (induction fls arbitrary: files)
  case (Cons f fls)
  then have k: "map_of (snd (truncate_loop rm upTo sf fls xs)) k = map_of xs k" for xs by simp
  obtain r fs where t: "truncate_loop rm upTo sf fls files = (r, fs)" by force
  have "map_of fs k = map_of files k" using k [of files] t by simp
  then show ?case using k [of "AList.delete f files"] Cons.prems t by (simp add: Let_def delete_conv' split: option.split)
qed simp

lemma wal_run_size: "wal_run w log mark \<Longrightarrow> \<exists>d. map_of (w_files w) (w_segFirst w) = Some d \<and> w_segSize w = int (length d)"
proof (induction rule: wal_run.induct)
  case (append w log mark recs io l w')
  then obtain d where d: "map_of (w_files w) (w_segFirst w) = Some d" "w_segSize w = int (length d)" by blast
  show ?case
  proof (rule append_success [OF append.hyps(4,2)])
    fix w1
    assume rot: "maybeRotate io l (w\<lparr>w_lsn := l\<rparr>) = (True, w1)"
      and w': "w' = w1\<lparr>w_files := AList.update (w_segFirst w1)
       ((case map_of (w_files w1) (w_segFirst w1) of None \<Rightarrow> [] | Some d \<Rightarrow> d) @ encs (number (w_lsn w) recs))
       (w_files w1), w_segSize := w_segSize w1 + int (length (encs (number (w_lsn w) recs))), w_durableLSN := l\<rparr>"
    show ?thesis using maybeRotate_cases [OF rot] d by (auto simp: w')
  qed
next
  case (encode_error w log mark recs io e w')
  then show ?case using append_encode_error by fastforce
next
  case (truncate w log mark upTo w')
  obtain cs where s: "segs_hold w cs" using wal_run_holds [OF truncate.hyps(1)] unfolding wal_holds_def by blast
  have "sorted_wrt (<) (w_segs w @ [w_segFirst w])" using segs_hold_sorted [OF s] s by (simp add: segs_hold_def)
  then have n: "w_segFirst w \<notin> set (w_segs w)" by (auto simp: sorted_wrt_append)
  obtain r fs where t: "truncate_loop (\<lambda>_. True) upTo (w_segFirst w) (w_segs w) (w_files w) = (r, fs)" by force
  have "w_files w' = fs" "w_segFirst w' = w_segFirst w" "w_segSize w' = w_segSize w"
    using truncate.hyps(2) t by (auto simp: TruncatePrefix_def split: option.splits)
  then show ?case using truncate_loop_other [OF n, of "\<lambda>_. True" upTo "w_segFirst w" "w_files w"] t truncate.IH by simp
next
  case (close w log mark io)
  then show ?case by (simp add: wal_Close_def flush_def)
next
  case (reopen w log mark)
  then obtain d where d: "map_of (w_files w) (w_segFirst w) = Some d" by blast
  have "dead_tail []" by (simp add: dead_tail_def)
  note o = wal_Open_tail [OF wal_run_holds [OF reopen.hyps] d this, simplified update_triv_alist [OF d] append_Nil2]
  show ?case using o(2,3,7) d by simp
qed (simp add: wal_Open_def openNewSegment_def)

text \<open>Every open log that a run reaches is usable, also with a rotation due.\<close>

lemma wal_run_usable:
  assumes r: "wal_run w log mark" and w: "\<not> w_closed w" "w_segOpen w" "unat (w_lsn w) + n < 2 ^ 64"
  shows "wal_usable n w"
proof -
  have "fl \<le> w_lsn w" if sz: "segSizeThreshold \<le> w_segSize w" and fl: "fl \<in> fst ` set (w_files w)" for fl
  proof -
    obtain d where d: "map_of (w_files w) (w_segFirst w) = Some d" "w_segSize w = int (length d)" using wal_run_size [OF r] by blast
    obtain dropped cs where log: "log = dropped @ concat (map snd cs)" and s: "segs_hold w cs" and ok: "log_ok w log"
      and act: "if snd (last cs) = [] then log = [] \<and> w_segs w = [] \<and> w_segFirst w = 1 else w_segFirst w \<le> rec_LSN (last log)"
      using wal_run_holds [OF r] unfolding wal_holds_def by blast
    obtain cs0 rs where cs: "cs = cs0 @ [(w_segFirst w, rs)]" using s by (cases cs rule: rev_cases) (auto simp: segs_hold_def)
    have "d = encs rs" using s cs d(1) by (simp add: segs_hold_def)
    then have "rs \<noteq> []" using sz d(2) by (auto simp: segSizeThreshold_def)
    then have "w_segFirst w \<le> rec_LSN (last log)" "last log \<in> set log" using act cs log by simp_all
    then have first: "w_segFirst w \<le> w_lsn w" using ok by (auto simp: log_ok_def intro: order_trans)
    have "sorted_wrt (<) (w_segs w @ [w_segFirst w])" "fl \<in> set (w_segs w @ [w_segFirst w])"
      using segs_hold_sorted [OF s] s fl by (auto simp: segs_hold_def)
    then have "fl \<le> w_segFirst w" by (auto simp: sorted_wrt_append intro: less_imp_le)
    then show ?thesis using first by (rule order_trans)
  qed
  then show ?thesis using w by (simp add: wal_usable_def)
qed

lemma AppendBatch_usable:
  assumes w: "wal_usable (length recs) w" and e: "encode_all (w_lsn w) recs = (l, Inr bs)"
  shows "\<exists>l w'. AppendBatch io_ok w recs = (Inr l, w')"
proof (cases "recs = []")
  case False
  have l: "l = w_lsn w + word_of_nat (length recs)" using encode_all_correct [OF e] by blast
  have lim: "unat (w_lsn w) + length recs < 2 ^ 64" using w by (simp add: wal_usable_def)
  have "w_lsn w < l" using False unfolding l word_less_nat_alt unat_lsn_add [OF lim] by simp
  then have "map_of (w_files w) l = None" if "segSizeThreshold \<le> w_segSize w"
    using w that unfolding wal_usable_def map_of_eq_None_iff by (meson leD)
  then obtain w1 where rot: "maybeRotate io_ok l (w\<lparr>w_lsn := l\<rparr>) = (True, w1)" "w_segOpen w1"
    using w by (cases "segSizeThreshold \<le> w_segSize w")
      (simp_all add: maybeRotate_def openNewSegment_def wal_usable_def io_ok_def Let_def)
  have "\<not> w_closed w" using w by (simp add: wal_usable_def)
  then show ?thesis
    using False e rot by (simp add: AppendBatch_def append_encode_def flush_def io_ok_def Let_def)
qed (simp add: AppendBatch_def)

subsection \<open>Torn writes\<close>









lemma encode_all_acks: "\<exists>bs. encode_all 0 [ack_rec 5, ack_rec 6] = (2, Inr bs)"
  using ack_rec_Encode [of 1 5] ack_rec_Encode [of 2 6] by auto

lemma fresh_fields:
  "w_lsn (wal_Open []) = 0" "\<not> w_closed (wal_Open [])" "w_segOpen (wal_Open [])"
  "w_segSize (wal_Open []) = 0" "w_files (wal_Open []) = [(1, [])]" "w_segFirst (wal_Open []) = 1"
  by (simp_all add: wal_Open_def openNewSegment_def)


text \<open>C21. Torn tails are not cut off: when the active segment ends in bytes that are not a record (here a
  zero or short length field, as a file system leaves after a power failure), \<open>Open\<close> appends after
  them. An \<open>AppendBatch\<close> in the reopened log reports success, but after the next restart \<open>Replay\<close>
  stops at the torn bytes and returns none of the acknowledged records.\<close>

theorem append_after_torn_tail_is_lost:
  assumes "wal_run w log mark" "mark < from \<or> mark = 0" "map_of (w_files w) (w_segFirst w) = Some d"
    "4 \<le> length junk" "Uint32 (take 4 junk) < 20"
    "w0 = wal_Open (AList.update (w_segFirst w) (d @ junk) (w_files w))"
    "w_segSize w0 < segSizeThreshold" "recs \<noteq> []" "AppendBatch io w0 recs = (Inr l, w')"
  shows "wal_Replay (wal_Open (w_files w')) from = (filter (\<lambda>r. from \<le> rec_LSN r) log, None)"
proof (rule append_success [OF assms(9,8)])
  fix w1
  assume rot: "maybeRotate io l (w0\<lparr>w_lsn := l\<rparr>) = (True, w1)"
    and w': "w' = w1\<lparr>w_files := AList.update (w_segFirst w1)
       ((case map_of (w_files w1) (w_segFirst w1) of None \<Rightarrow> [] | Some d \<Rightarrow> d) @ encs (number (w_lsn w0) recs))
       (w_files w1), w_segSize := w_segSize w1 + int (length (encs (number (w_lsn w0) recs))),
       w_durableLSN := l\<rparr>"
  note h = wal_run_holds [OF assms(1)]
  have dead: "dead_tail (junk @ ys)" for ys
    using assms(4,5) by (simp add: dead_tail_def scan_record_def Let_def)
  note o = wal_Open_tail [OF h assms(3) dead [of "[]", simplified], folded assms(6)]
  have "w1 = w0\<lparr>w_lsn := l\<rparr>" using rot assms(7) by (simp add: maybeRotate_def)
  then have "w_files w' = AList.update (w_segFirst w) (d @ junk @ encs (number (w_lsn w0) recs)) (w_files w)"
    using o(2,3) by (simp add: w' update_conv')
  then show ?thesis using wal_Replay_tail [OF h assms(3) dead] wal_Replay_holds [OF h assms(2)] by simp
qed

theorem append_after_torn_tail_is_lost_witness:
  "\<exists>w0 w'. w0 = wal_Open [(1, [0, 0, 0, 0])] \<and> AppendBatch io_ok w0 [ack_rec 5, ack_rec 6] = (Inr 2, w') \<and>
     wal_Replay (wal_Open (w_files w')) 1 = ([], None)"
proof -
  define w0 where "w0 = wal_Open [(1, [0, 0, 0, 0])]"
  obtain bs where bs: "encode_all 0 [ack_rec 5, ack_rec 6] = (2, Inr bs)" using encode_all_acks by blast
  have f: "w_lsn w0 = 0" "\<not> w_closed w0" "w_segOpen w0" "w_segSize w0 = 4"
    by (simp_all add: w0_def wal_Open_def scanSegmentMaxLSN.simps scan_record_def Uint32_def le_word_def)
  obtain w' where w': "AppendBatch io_ok w0 [ack_rec 5, ack_rec 6] = (Inr 2, w')"
    by (simp add: AppendBatch_def append_encode_def bs f io_ok_def flush_def maybeRotate_def
        segSizeThreshold_def Let_def del: encode_all.simps)
  have "wal_Replay (wal_Open (w_files w')) 1 = ([], None)"
    using append_after_torn_tail_is_lost [OF wal_run.fresh, of 1 "[]" "[0, 0, 0, 0]" w0 "[ack_rec 5, ack_rec 6]" io_ok 2 w']
    by (simp add: fresh_fields w' f w0_def [symmetric] Uint32_def le_word_def segSizeThreshold_def)
  with w' show ?thesis unfolding w0_def by blast
qed

subsection \<open>Group commit\<close>

text \<open>
  Several producers queue their batches before the committer runs; an encoding error queues nothing,
  and an empty batch returns before it reaches the queue.
\<close>

fun append_encode_all :: "WAL \<Rightarrow> Record list list \<Rightarrow> pendingWrite list \<times> WAL" where
  "append_encode_all w [] = ([], w)"
| "append_encode_all w (rs # rss) =
    (if rs = [] then append_encode_all w rss
     else
       (case append_encode w rs of
          (Inl e, w1) \<Rightarrow> append_encode_all w1 rss
        | (Inr pw, w1) \<Rightarrow> (case append_encode_all w1 rss of (pws, w2) \<Rightarrow> (pw # pws, w2))))"

lemma encode_all_append:
  "encode_all l (rs @ rs') =
    (case encode_all l rs of
       (l1, Inl e) \<Rightarrow> (l1, Inl e)
     | (l1, Inr bs) \<Rightarrow> (case encode_all l1 rs' of (l2, Inl e) \<Rightarrow> (l2, Inl e) | (l2, Inr bs') \<Rightarrow> (l2, Inr (bs @ bs'))))"
  by (induction rs arbitrary: l) (auto split: sum.splits prod.splits)

lemma encode_all_encodable:
  "list_all encodable rs \<Longrightarrow> \<exists>l' bs. encode_all l rs = (l', Inr bs)"
proof (induction rs arbitrary: l)
  case (Cons r rs)
  then obtain l' bs where "encode_all (l + 1) rs = (l', Inr bs)" by fastforce
  moreover obtain b where "Encode (l + 1) r = Inr b"
    using Cons.prems Encode_ok_iff [of "l + 1" r] by (auto simp: encodable_def)
  ultimately show ?case by simp
qed simp

lemma append_encode_all_concat:
  assumes "\<not> w_closed w" "list_all (list_all encodable) rss"
  shows "\<exists>pws l bs. encode_all (w_lsn w) (concat rss) = (l, Inr bs) \<and>
    append_encode_all w rss = (pws, w\<lparr>w_lsn := l\<rparr>) \<and> (pws = [] \<longleftrightarrow> concat rss = []) \<and>
    concat (map pw_data pws) = bs \<and> (pws \<noteq> [] \<longrightarrow> pw_lsn (last pws) = l)"
  using assms
proof (induction rss arbitrary: w)
  case (Cons rs rss)
  obtain l1 bs1 where e: "encode_all (w_lsn w) rs = (l1, Inr bs1)"
    using Cons.prems encode_all_encodable by fastforce
  obtain pws l bs where r: "encode_all l1 (concat rss) = (l, Inr bs)"
    "append_encode_all (w\<lparr>w_lsn := l1\<rparr>) rss = (pws, w\<lparr>w_lsn := l\<rparr>)" "pws = [] \<longleftrightarrow> concat rss = []"
    "concat (map pw_data pws) = bs" "pws \<noteq> [] \<longrightarrow> pw_lsn (last pws) = l"
    using Cons.IH [of "w\<lparr>w_lsn := l1\<rparr>"] Cons.prems by auto
  show ?case
  proof (cases "rs = []")
    case True
    then show ?thesis using Cons.IH [of w] Cons.prems by simp
  next
    case False
    have "l = l1" if "pws = []"
    proof -
      have "concat rss = []" using that r(3) by blast
      then show ?thesis using r(1) unfolding \<open>concat rss = []\<close> by simp
    qed
    then show ?thesis using False e r Cons.prems by (auto simp: append_encode_def encode_all_append)
  qed
qed simp

text \<open>C20. Group commit is transparent: when several producers have queued their encodable batches, the
  single write and fsync of the committer leaves the log in exactly the state, and reports exactly
  the success or failure, that one \<open>AppendBatch\<close> of the concatenated batches has, whatever the outcome
  of the I/O and of a rotation in between.\<close>

theorem group_commit_equivalence:
  assumes "\<not> w_closed w" "list_all (list_all encodable) rss" "concat rss \<noteq> []"
  shows "(case append_encode_all w rss of (pws, w1) \<Rightarrow> flush io pws w1) =
         (case AppendBatch io w (concat rss) of (r, w2) \<Rightarrow> (\<not> isl r, w2))"
proof -
  from append_encode_all_concat [OF assms(1,2)] assms(3) obtain pws l bs where
    p: "encode_all (w_lsn w) (concat rss) = (l, Inr bs)" "append_encode_all w rss = (pws, w\<lparr>w_lsn := l\<rparr>)"
    "pws \<noteq> []" "concat (map pw_data pws) = bs" "pw_lsn (last pws) = l" by blast
  have "flush io pws (w\<lparr>w_lsn := l\<rparr>) = flush io [\<lparr>pw_data = bs, pw_lsn = l\<rparr>] (w\<lparr>w_lsn := l\<rparr>)"
    using p(3-5) by (simp add: flush_def)
  then show ?thesis
    using p(1,2) assms(1,3)
    by (auto simp: AppendBatch_def append_encode_def split: prod.splits bool.splits)
qed

theorem group_commit_equivalence_witness:
  "(case append_encode_all (wal_Open []) [[ack_rec 5], [ack_rec 6]] of (pws, w1) \<Rightarrow> flush io_ok pws w1) =
   (case AppendBatch io_ok (wal_Open []) [ack_rec 5, ack_rec 6] of (r, w2) \<Rightarrow> (\<not> isl r, w2))"
  using group_commit_equivalence [of "wal_Open []" "[[ack_rec 5], [ack_rec 6]]" io_ok]
  by (simp add: fresh_fields encodable_def ack_rec_def)

end
