(* ===== verification/Page_Header.thy ===== *)
theory Page_Header
  imports Crc32
begin

text \<open>
  \<open>internal/pagestore/pagestore.go\<close> and \<open>header.go\<close>: the packed slot references, the size classes, the
  layout of a slab page and the 32-byte page header with its codec.
\<close>

section \<open>Slot references\<close>

type_synonym SlotRef = u64

definition PageSize :: u32 where "PageSize = 0x100000"
definition HeaderSize :: u32 where "HeaderSize = 32"
definition JumboThreshold :: u32 where "JumboThreshold = PageSize div 2"
definition Magic :: u32 where "Magic = 0xF4A35E1B"
definition ScIdxJumbo :: u8 where "ScIdxJumbo = 0xFF"

definition Pack :: "u32 \<Rightarrow> u32 \<Rightarrow> SlotRef" where
  "Pack pageID offset = push_bit 20 (ucast pageID) OR ucast offset"

definition PageID :: "SlotRef \<Rightarrow> u32" where
  "PageID r = ucast (drop_bit 20 r)"

definition Offset :: "SlotRef \<Rightarrow> u32" where
  "Offset r = ucast (r AND (ucast PageSize - 1))"

definition IsZero :: "SlotRef \<Rightarrow> bool" where
  "IsZero r \<longleftrightarrow> r = 0"

section \<open>Size classes\<close>

definition SizeClasses :: "u32 list" where
  "SizeClasses = [64, 128, 256, 512, 1024, 2048, 4096, 8192, 16384, 32768, 65536, 131072, 262144, 524288]"

fun class_loop :: "u32 \<Rightarrow> int \<Rightarrow> u32 list \<Rightarrow> int" where
  "class_loop n i [] = - 1"
| "class_loop n i (sc # scs) = (if n \<le> sc then i else class_loop n (i + 1) scs)"

definition SizeClassFor :: "u32 \<Rightarrow> int" where
  "SizeClassFor n = class_loop n 0 SizeClasses"

section \<open>The header\<close>

type_synonym PageFlags = u8

definition FlagJumbo :: PageFlags where "FlagJumbo = 1"
definition FlagCompressed :: PageFlags where "FlagCompressed = 2"
definition FlagSealed :: PageFlags where "FlagSealed = 4"
definition FlagRetired :: PageFlags where "FlagRetired = 8"

definition Has :: "PageFlags \<Rightarrow> PageFlags \<Rightarrow> bool" where
  "Has f m \<longleftrightarrow> f AND m = m"

fun join_names :: "PageFlags \<Rightarrow> (PageFlags \<times> string) list \<Rightarrow> string \<Rightarrow> string" where
  "join_names f [] out = out"
| "join_names f ((b, name) # ns) out =
    join_names f ns (if Has f b then (if out \<noteq> '''' then out @ ''|'' else out) @ name else out)"

definition PageFlags_String :: "PageFlags \<Rightarrow> string" where
  "PageFlags_String f =
    (if f = 0 then ''none''
     else join_names f [(FlagJumbo, ''jumbo''), (FlagCompressed, ''compressed''),
                        (FlagSealed, ''sealed''), (FlagRetired, ''retired'')] '''')"

record Header =
  h_Magic :: u32
  h_PageID :: u32
  h_Gen :: u32
  h_ScIdx :: u8
  h_Flags :: PageFlags
  h_SpanPages :: u16
  h_Capacity :: u32
  h_FreeCount :: u32
  h_SlotsStart :: u32

datatype header_error = HdrSmall nat | HdrMagic u32 | HdrCRC u32 u32 | HdrScIdx u8 | HdrSpan

definition IsJumbo :: "Header \<Rightarrow> bool" where
  "IsJumbo h = Has (h_Flags h) FlagJumbo"

text \<open>\<open>None\<close> is the index panic of a slab header whose class index is out of range.\<close>

definition SlotSize :: "Header \<Rightarrow> u32 option" where
  "SlotSize h =
    (if IsJumbo h then Some 0
     else if unat (h_ScIdx h) < length SizeClasses then Some (SizeClasses ! unat (h_ScIdx h))
     else None)"

definition BitmapLen :: "Header \<Rightarrow> int" where
  "BitmapLen h = (if IsJumbo h \<or> h_Capacity h = 0 then 0 else uint ((h_Capacity h + 63) div 64))"

definition TotalSize :: "Header \<Rightarrow> int" where
  "TotalSize h = uint (h_SpanPages h) * uint PageSize"

definition Validate :: "Header \<Rightarrow> bytes \<Rightarrow> header_error option" where
  "Validate h raw =
    (if length raw < 32 then Some (HdrSmall (length raw))
     else if h_Magic h \<noteq> Magic then Some (HdrMagic (h_Magic h))
     else if ChecksumIEEE (take 28 raw) \<noteq> Uint32 (slice raw 28 32)
       then Some (HdrCRC (ChecksumIEEE (take 28 raw)) (Uint32 (slice raw 28 32)))
     else if \<not> IsJumbo h \<and> length SizeClasses \<le> unat (h_ScIdx h) then Some (HdrScIdx (h_ScIdx h))
     else if h_SpanPages h = 0 then Some HdrSpan
     else None)"

definition header_fields :: "Header \<Rightarrow> bytes \<Rightarrow> bytes" where
  "header_fields h dst =
    put_at 24 (PutUint32 (h_SlotsStart h))
    (put_at 20 (PutUint32 (h_FreeCount h))
    (put_at 16 (PutUint32 (h_Capacity h))
    (put_at 14 (PutUint16 (h_SpanPages h))
    (put_at 13 [h_Flags h]
    (put_at 12 [h_ScIdx h]
    (put_at 8 (PutUint32 (h_Gen h))
    (put_at 4 (PutUint32 (h_PageID h))
    (put_at 0 (PutUint32 Magic) dst))))))))"

text \<open>Recomputes the checksum, the last statement of every writer.\<close>

definition seal_header :: "bytes \<Rightarrow> bytes" where
  "seal_header dst = put_at 28 (PutUint32 (ChecksumIEEE (take 28 dst))) dst"

definition WriteHeader :: "bytes \<Rightarrow> Header \<Rightarrow> bytes" where
  "WriteHeader dst h = seal_header (header_fields h dst)"

definition read_fields :: "bytes \<Rightarrow> Header" where
  "read_fields src =
    \<lparr>h_Magic = Uint32 (slice src 0 4), h_PageID = Uint32 (slice src 4 8), h_Gen = Uint32 (slice src 8 12),
     h_ScIdx = src ! 12, h_Flags = src ! 13, h_SpanPages = Uint16 (slice src 14 16),
     h_Capacity = Uint32 (slice src 16 20), h_FreeCount = Uint32 (slice src 20 24),
     h_SlotsStart = Uint32 (slice src 24 28)\<rparr>"

definition ReadHeader :: "bytes \<Rightarrow> Header \<times> header_error option" where
  "ReadHeader src = (let h = read_fields src in (h, Validate h src))"

definition SetGen :: "bytes \<Rightarrow> u32 \<Rightarrow> bytes" where
  "SetGen data gen = seal_header (put_at 8 (PutUint32 gen) data)"

definition BumpGen :: "bytes \<Rightarrow> u32 \<times> bytes" where
  "BumpGen data =
    (let gen = Uint32 (slice data 8 12) + 1 in (gen, seal_header (put_at 8 (PutUint32 gen) data)))"

section \<open>Layout of a page\<close>

definition roundUp :: "u32 \<Rightarrow> u32 \<Rightarrow> u32" where
  "roundUp v align = (v + align - 1) AND NOT (align - 1)"

definition slabLayout :: "u32 \<Rightarrow> u32 \<times> u32" where
  "slabLayout slotSize =
    (let upperCap = (PageSize - HeaderSize) div slotSize;
         bitmapBytes = ((upperCap + 63) div 64) * 8;
         slotsStart = roundUp (HeaderSize + bitmapBytes) slotSize;
         capacity = (PageSize - slotsStart) div slotSize
     in (capacity, slotsStart))"

definition SpanPagesFor :: "u32 \<Rightarrow> u16" where
  "SpanPagesFor payloadSize =
    (let total = HeaderSize + payloadSize in ucast ((total + PageSize - 1) div PageSize))"

definition NewSlabHeader :: "u32 \<Rightarrow> u8 \<Rightarrow> Header" where
  "NewSlabHeader pageID scIdx =
    (let slotSize = SizeClasses ! unat scIdx; (capacity, slotsStart) = slabLayout slotSize in
     \<lparr>h_Magic = Magic, h_PageID = pageID, h_Gen = 0, h_ScIdx = scIdx, h_Flags = 0, h_SpanPages = 1,
      h_Capacity = capacity, h_FreeCount = capacity, h_SlotsStart = slotsStart\<rparr>)"

definition NewJumboHeader :: "u32 \<Rightarrow> u16 \<Rightarrow> Header" where
  "NewJumboHeader pageID spanPages =
    \<lparr>h_Magic = Magic, h_PageID = pageID, h_Gen = 0, h_ScIdx = ScIdxJumbo, h_Flags = FlagJumbo,
     h_SpanPages = spanPages, h_Capacity = 0, h_FreeCount = 0, h_SlotsStart = HeaderSize\<rparr>"

section \<open>Facts about references and classes\<close>

lemma bit_u20_mask: "bit (ucast PageSize - 1 :: u64) n \<longleftrightarrow> n < 20"
proof -
  have "(ucast PageSize - 1 :: u64) = mask 20" by code_simp
  then show ?thesis by (auto simp: bit_mask_iff)
qed

lemma offset_bit:
  assumes "off < PageSize" "bit (off :: u32) n"
  shows "n < 20"
proof (rule ccontr)
  assume n: "\<not> n < 20"
  have "unat off < 2 ^ 20" using assms(1) by (simp add: PageSize_def word_less_nat_alt)
  then have "take_bit 20 off = off" by (simp add: word_unat_eq_iff unsigned_take_bit_eq take_bit_nat_eq_self)
  then show False using assms(2) n by (metis bit_take_bit_iff)
qed

lemma PageID_Pack: "offset < PageSize \<Longrightarrow> PageID (Pack p offset) = p"
  unfolding PageID_def Pack_def
  by (rule bit_word_eqI) (auto simp: bit_simps dest: offset_bit bit_imp_le_length)

lemma Offset_Pack: "offset < PageSize \<Longrightarrow> Offset (Pack p offset) = offset"
  unfolding Offset_def Pack_def
  by (rule bit_word_eqI) (auto simp: bit_simps bit_u20_mask dest: offset_bit bit_imp_le_length)

lemmas ref_simps = PageID_Pack Offset_Pack

lemma Offset_bound: "Offset r < PageSize"
proof -
  have "take_bit 20 (Offset r) = Offset r"
    unfolding Offset_def by (rule bit_word_eqI) (auto simp: bit_simps bit_u20_mask)
  then have "unat (Offset r) < 2 ^ 20"
    by (metis take_bit_nat_less_exp unsigned_take_bit_eq)
  then show ?thesis by (simp add: PageSize_def word_less_nat_alt)
qed

lemma SizeClasses_sorted: "sorted_wrt (<) SizeClasses"
  by code_simp

lemma class_loop_least:
  "sorted_wrt (<) scs \<Longrightarrow>
   (if \<exists>sc \<in> set scs. n \<le> sc
    then \<exists>k < length scs. class_loop n i scs = i + int k \<and> n \<le> scs ! k \<and> (\<forall>j < k. scs ! j < n)
    else class_loop n i scs = - 1)"
proof (induction scs arbitrary: i)
  case (Cons sc scs)
  show ?case
  proof (cases "n \<le> sc")
    case True
    then show ?thesis by (auto intro!: exI [of _ 0])
  next
    case False
    show ?thesis
    proof (cases "\<exists>s \<in> set scs. n \<le> s")
      case True
      then obtain k where "k < length scs" "class_loop n (i + 1) scs = i + 1 + int k" "n \<le> scs ! k"
        "\<forall>j < k. scs ! j < n" using Cons.IH [of "i + 1"] Cons.prems by auto
      then show ?thesis using False True
        by (auto simp: nth_Cons split: nat.split intro!: exI [of _ "Suc k"])
    next
      case False
      then show ?thesis using \<open>\<not> n \<le> sc\<close> Cons.IH [of "i + 1"] Cons.prems by auto
    qed
  qed
qed simp

text \<open>The geometry of the page, checked for every class.\<close>

definition layout_ok :: "u32 \<Rightarrow> bool" where
  "layout_ok sc =
    (case slabLayout sc of (cap, st) \<Rightarrow>
       0 < cap \<and> uint HeaderSize + 8 * uint ((cap + 63) div 64) \<le> uint st \<and>
       uint st + uint cap * uint sc \<le> uint PageSize \<and> uint PageSize < uint st + (uint cap + 1) * uint sc \<and>
       uint st mod uint sc = 0)"

lemma layout_all: "list_all layout_ok SizeClasses"
  by code_simp

lemma layout_class:
  assumes "i < 14" "slabLayout (SizeClasses ! i) = (cap, st)"
  shows "0 < cap" "32 + 8 * unat ((cap + 63) div 64) \<le> unat st"
    "unat st + unat cap * unat (SizeClasses ! i) \<le> 2 ^ 20" "64 \<le> unat (SizeClasses ! i)"
proof -
  have "length SizeClasses = 14" by (simp add: SizeClasses_def)
  then have "layout_ok (SizeClasses ! i)" using layout_all assms(1) by (auto simp: list_all_length)
  then show "0 < cap" "32 + 8 * unat ((cap + 63) div 64) \<le> unat st"
    "unat st + unat cap * unat (SizeClasses ! i) \<le> 2 ^ 20"
    unfolding layout_ok_def assms(2) uint_nat [of st] uint_nat [of cap] uint_nat [of "(cap + 63) div 64"]
      uint_nat [of "SizeClasses ! i"] split_conv
    by (simp_all add: HeaderSize_def PageSize_def del: of_nat_unat flip: of_nat_mult of_nat_add)
  have "list_all (\<lambda>sc. 64 \<le> sc) SizeClasses" by code_simp
  then have "64 \<le> SizeClasses ! i" using \<open>length SizeClasses = 14\<close> assms(1) by (simp add: list_all_length)
  then show "64 \<le> unat (SizeClasses ! i)" by (simp add: word_le_nat_alt)
qed

section \<open>The header codec\<close>

lemma length_seal [wire, simp]: "32 \<le> length b \<Longrightarrow> length (seal_header b) = length b"
  by (simp add: seal_header_def)

lemma length_fields [wire, simp]: "32 \<le> length b \<Longrightarrow> length (header_fields h b) = length b"
  by (simp add: header_fields_def)

lemma read_seal: "32 \<le> length b \<Longrightarrow> read_fields (seal_header b) = read_fields b"
  by (simp add: read_fields_def seal_header_def wire)

lemma read_header_fields: "32 \<le> length b \<Longrightarrow> read_fields (header_fields h b) = h\<lparr>h_Magic := Magic\<rparr>"
  by (simp add: read_fields_def header_fields_def wire)

lemma sealed_crc: "32 \<le> length b \<Longrightarrow>
  ChecksumIEEE (take 28 (seal_header b)) = Uint32 (slice (seal_header b) 28 32)"
  by (simp add: seal_header_def wire)

lemma Validate_sealed:
  "32 \<le> length b \<Longrightarrow>
   Validate h (seal_header b) =
    (if h_Magic h \<noteq> Magic then Some (HdrMagic (h_Magic h))
     else if \<not> IsJumbo h \<and> 14 \<le> unat (h_ScIdx h) then Some (HdrScIdx (h_ScIdx h))
     else if h_SpanPages h = 0 then Some HdrSpan else None)"
  by (simp add: Validate_def sealed_crc SizeClasses_def)

lemma read_put_gen: "32 \<le> length b \<Longrightarrow> read_fields (put_at 8 (PutUint32 g) b) = (read_fields b)\<lparr>h_Gen := g\<rparr>"
  by (simp add: read_fields_def wire)

lemma drop_put_at_above: "k + length bs \<le> i \<Longrightarrow> k + length bs \<le> length b \<Longrightarrow> drop i (put_at k bs b) = drop i b"
  by (simp add: put_at_def)

lemma ReadHeader_WriteHeader:
  assumes "32 \<le> length dst"
  shows "ReadHeader (WriteHeader dst h) =
      (h\<lparr>h_Magic := Magic\<rparr>,
       if \<not> IsJumbo h \<and> 14 \<le> unat (h_ScIdx h) then Some (HdrScIdx (h_ScIdx h))
       else if h_SpanPages h = 0 then Some HdrSpan else None) \<and>
    drop 32 (WriteHeader dst h) = drop 32 dst"
proof
  have "read_fields (WriteHeader dst h) = h\<lparr>h_Magic := Magic\<rparr>"
    using assms by (simp add: WriteHeader_def read_seal read_header_fields)
  then show "ReadHeader (WriteHeader dst h) = (h\<lparr>h_Magic := Magic\<rparr>,
      if \<not> IsJumbo h \<and> 14 \<le> unat (h_ScIdx h) then Some (HdrScIdx (h_ScIdx h))
      else if h_SpanPages h = 0 then Some HdrSpan else None)"
    using assms unfolding ReadHeader_def WriteHeader_def Let_def
    by (simp add: Validate_sealed IsJumbo_def)
  show "drop 32 (WriteHeader dst h) = drop 32 dst"
    using assms by (simp add: WriteHeader_def seal_header_def header_fields_def drop_put_at_above)
qed

section \<open>Classes and spans\<close>

lemma SizeClassFor_least:
  "if n \<le> 524288
   then \<exists>k < length SizeClasses. SizeClassFor n = int k \<and> n \<le> SizeClasses ! k \<and> (\<forall>j < k. SizeClasses ! j < n)
   else SizeClassFor n = - 1"
proof -
  have m: "(\<exists>sc \<in> set SizeClasses. n \<le> sc) \<longleftrightarrow> n \<le> 524288"
  proof
    assume "\<exists>sc \<in> set SizeClasses. n \<le> sc"
    moreover have "\<forall>sc \<in> set SizeClasses. sc \<le> 524288" by code_simp
    ultimately show "n \<le> 524288" by (meson order_trans)
  qed (auto simp: SizeClasses_def)
  show ?thesis
    using class_loop_least [OF SizeClasses_sorted, of n 0] by (simp only: m SizeClassFor_def add_0)
qed

lemma span_pages_fit:
  assumes "uint n \<le> 2 ^ 32 - 2 ^ 21"
  shows "32 + uint n \<le> uint (SpanPagesFor n) * 2 ^ 20 \<and> (uint (SpanPagesFor n) - 1) * 2 ^ 20 < 32 + uint n"
proof -
  have a: "uint (HeaderSize + n) = 32 + uint n"
    using assms by (simp add: HeaderSize_def uint_word_ariths)
  have b: "uint (HeaderSize + n + PageSize - 1) = 32 + uint n + 2 ^ 20 - 1"
    using assms unfolding PageSize_def
    by (simp add: uint_word_ariths mod_simps HeaderSize_def)
  have "uint ((HeaderSize + n + PageSize - 1) div PageSize) = (32 + uint n + 2 ^ 20 - 1) div 2 ^ 20"
    unfolding uint_div b by (simp add: PageSize_def)
  moreover have "take_bit 16 ((32 + uint n + 2 ^ 20 - 1) div 2 ^ 20) = (32 + uint n + 2 ^ 20 - 1) div 2 ^ 20"
    using assms unsigned_greater_eq [of n]
    by (intro take_bit_int_eq_self) (simp_all add: pos_imp_zdiv_nonneg_iff)
  ultimately have "uint (SpanPagesFor n) = (32 + uint n + 2 ^ 20 - 1) div 2 ^ 20"
    by (simp add: SpanPagesFor_def Let_def unsigned_ucast_eq take_bit_int_eq_self)
  moreover have "32 + uint n \<le> q * 2 ^ 20 \<and> (q - 1) * 2 ^ 20 < 32 + uint n"
    if "q = (32 + uint n + 2 ^ 20 - 1) div 2 ^ 20" for q
  proof -
    define r where "r = (32 + uint n + 2 ^ 20 - 1) mod 2 ^ 20"
    have "q * 2 ^ 20 + r = 32 + uint n + 2 ^ 20 - 1" unfolding that r_def by (rule div_mult_mod_eq)
    moreover have "0 \<le> r" "r < 2 ^ 20" unfolding r_def by (rule pos_mod_sign, simp, rule pos_mod_bound, simp)
    ultimately show ?thesis by (simp add: left_diff_distrib)
  qed
  ultimately show ?thesis by blast
qed

section \<open>Properties\<close>

text \<open>A packed slot reference determines its page and offset: \<open>PageID\<close> and \<open>Offset\<close> invert \<open>Pack\<close> for
  every page id and every offset inside a page, so distinct slots have distinct references, and no
  reference to a slot (whose offset is never 0) is the zero value.\<close>

theorem slotref_roundtrip:
  assumes "off < PageSize"
  shows "PageID (Pack p off) = p \<and> Offset (Pack p off) = off \<and> (0 < off \<longrightarrow> \<not> IsZero (Pack p off))"
proof -
  have "Offset 0 = 0" by code_simp
  then show ?thesis using ref_simps [OF assms, of p] by (auto simp: IsZero_def)
qed

theorem slotref_roundtrip_witness:
  "PageID (Pack 7 4096) = 7 \<and> Offset (Pack 7 4096) = 4096 \<and> \<not> IsZero (Pack 7 4096)"
  using slotref_roundtrip [of 4096 7] by (simp add: PageSize_def)

text \<open>C38. Geometry of slab pages: for every size class, the allocation bitmap lies between the header and
  the first slot, the slots are aligned to their size and end inside the page, there is at least one
  slot, and no further slot would fit.\<close>

theorem slab_layout_sound:
  "\<forall>sc \<in> set SizeClasses. \<forall>cap st. slabLayout sc = (cap, st) \<longrightarrow>
     0 < cap \<and> uint HeaderSize + 8 * uint ((cap + 63) div 64) \<le> uint st \<and> uint st mod uint sc = 0 \<and>
     uint st + uint cap * uint sc \<le> uint PageSize \<and> uint PageSize < uint st + (uint cap + 1) * uint sc"
  using layout_all by (auto simp: list_all_iff layout_ok_def)

theorem slab_layout_sound_witness:
  "slabLayout 64 = (16351, 2112) \<and> uint (2112 :: u32) + uint (16351 :: u32) * 64 \<le> uint PageSize"
proof -
  have "(64 :: u32) \<in> set SizeClasses" "slabLayout 64 = (16351, 2112)" by code_simp+
  then show ?thesis using slab_layout_sound by fastforce
qed

text \<open>\<open>SizeClassFor\<close> picks the smallest class that holds the request, and returns -1 exactly when the
  request exceeds the largest class.\<close>

theorem size_class_least:
  "if n \<le> 524288
   then \<exists>k < length SizeClasses. SizeClassFor n = int k \<and> n \<le> SizeClasses ! k \<and> (\<forall>j < k. SizeClasses ! j < n)
   else SizeClassFor n = - 1"
  by (rule SizeClassFor_least)

theorem size_class_least_witness: "SizeClassFor 100 = 1 \<and> 100 \<le> SizeClasses ! 1 \<and> SizeClasses ! 0 < 100"
proof -
  have "(100 :: u32) \<le> 524288" "SizeClassFor 100 = 1" by code_simp+
  then obtain k where "k < length SizeClasses" "SizeClassFor 100 = int k" "100 \<le> SizeClasses ! k"
    "\<forall>j < k. SizeClasses ! j < 100" using size_class_least [of 100] by auto
  moreover from this have "k = 1" using \<open>SizeClassFor 100 = 1\<close> by simp
  ultimately show ?thesis by auto
qed

text \<open>The page header round trip: reading back a header that \<open>WriteHeader\<close> put into a buffer returns
  every field and the right magic number, validation fails only for an invalid class index of a slab
  or a zero span, and the bytes behind the header are untouched.\<close>

theorem page_header_roundtrip:
  assumes "32 \<le> length dst"
  shows "ReadHeader (WriteHeader dst h) =
      (h\<lparr>h_Magic := Magic\<rparr>,
       if \<not> IsJumbo h \<and> 14 \<le> unat (h_ScIdx h) then Some (HdrScIdx (h_ScIdx h))
       else if h_SpanPages h = 0 then Some HdrSpan else None) \<and>
    drop 32 (WriteHeader dst h) = drop 32 dst"
  by (rule ReadHeader_WriteHeader [OF assms])

theorem page_header_roundtrip_witness:
  "ReadHeader (WriteHeader (replicate 40 0) (NewSlabHeader 3 2)) = (NewSlabHeader 3 2, None)"
proof -
  have h: "(NewSlabHeader 3 2)\<lparr>h_Magic := Magic\<rparr> = NewSlabHeader 3 2" "h_SpanPages (NewSlabHeader 3 2) = 1"
    "h_ScIdx (NewSlabHeader 3 2) = 2"
    by (simp_all add: NewSlabHeader_def Let_def split: prod.split)
  show ?thesis using page_header_roundtrip [of "replicate 40 0" "NewSlabHeader 3 2"] h by simp
qed

text \<open>Changing the generation of a page (\<open>BumpGen\<close> when a page retires, \<open>SetGen\<close> when the journal is
  replayed) keeps a valid header valid, changes no other field, and \<open>BumpGen\<close> adds one modulo \<open>2 ^ 32\<close>.\<close>

theorem generation_update:
  assumes "ReadHeader data = (h, None)"
  shows "ReadHeader (SetGen data g) = (h\<lparr>h_Gen := g\<rparr>, None) \<and>
    ReadHeader (snd (BumpGen data)) = (h\<lparr>h_Gen := h_Gen h + 1\<rparr>, None) \<and> fst (BumpGen data) = h_Gen h + 1"
proof -
  have h: "h = read_fields data" and v: "Validate h data = None"
    using assms by (auto simp: ReadHeader_def Let_def)
  have len: "32 \<le> length data" using v by (auto simp: Validate_def split: if_splits)
  have "ReadHeader (SetGen data g) = (h\<lparr>h_Gen := g\<rparr>, None)" for g
    using v len h
    by (auto simp: ReadHeader_def SetGen_def Let_def read_seal read_put_gen Validate_sealed)
      (auto simp: Validate_def IsJumbo_def SizeClasses_def split: if_splits)
  moreover have "BumpGen data = (h_Gen h + 1, SetGen data (h_Gen h + 1))"
    by (simp add: BumpGen_def SetGen_def Let_def h read_fields_def)
  ultimately show ?thesis by simp
qed

theorem generation_update_witness:
  "ReadHeader (SetGen (WriteHeader (replicate 40 0) (NewJumboHeader 3 2)) 5) =
     ((NewJumboHeader 3 2)\<lparr>h_Gen := 5\<rparr>, None)"
proof -
  let ?b = "WriteHeader (replicate 40 0) (NewJumboHeader 3 2)"
  have "read_fields ?b = NewJumboHeader 3 2"
    by (simp add: WriteHeader_def read_seal read_header_fields NewJumboHeader_def)
  moreover have "Validate (NewJumboHeader 3 2) ?b = None"
    by (simp add: WriteHeader_def Validate_sealed NewJumboHeader_def IsJumbo_def Has_def)
  ultimately show ?thesis
    using generation_update [of ?b "NewJumboHeader 3 2" 5] by (simp add: ReadHeader_def)
qed

text \<open>A jumbo span is large enough and minimal: for payloads up to \<open>2 ^ 32 - 2 ^ 21\<close> bytes,
  \<open>SpanPagesFor\<close> pages hold the header and the payload, and one page fewer would not.\<close>

theorem span_pages_bound:
  "uint n \<le> 2 ^ 32 - 2 ^ 21 \<Longrightarrow>
   32 + uint n \<le> uint (SpanPagesFor n) * 2 ^ 20 \<and> (uint (SpanPagesFor n) - 1) * 2 ^ 20 < 32 + uint n"
  by (rule span_pages_fit)

theorem span_pages_bound_witness:
  "uint (600000 :: u32) \<le> 2 ^ 32 - 2 ^ 21 \<and> 32 + uint (600000 :: u32) \<le> uint (SpanPagesFor 600000) * 2 ^ 20"
  using span_pages_bound [of 600000] by simp

end
