(* ===== verification/Page.thy ===== *)
theory Page
  imports Page_Header
begin

text \<open>
  \<open>internal/pagestore/page.go\<close>: the allocation bitmap of a slab page.  The bytes of a page file are
  split into the parts that the layout keeps apart (theorem \<open>slab_layout_sound\<close>): the header, the
  64-bit bitmap words, and the payload bytes by their offset in the page.  The file is mapped shared,
  so the mapping and the file are the same bytes; \<open>pg_dataLen\<close> is the length of the mapping.  The compare-and-swap loops run with the store's
  mutex held and therefore succeed at the first attempt.
\<close>

section \<open>State\<close>

record image =
  im_header :: bytes
  im_words :: "nat \<Rightarrow> u64"
  im_mem :: "nat \<Rightarrow> u8"

record page =
  pg_dataLen :: int
  pg_pageID :: u32
  pg_jumbo :: bool
  pg_sizeClass :: u32
  pg_spanPages :: u32
  pg_capacity :: u32
  pg_slotsStart :: u32
  pg_freeCount :: "32 word"
  pg_hint :: u32

section \<open>Operations\<close>

definition pg_gen :: "image \<Rightarrow> u32" where
  "pg_gen im =
    ucast (im_header im ! 8) OR push_bit 8 (ucast (im_header im ! 9)) OR
    push_bit 16 (ucast (im_header im ! 10)) OR push_bit 24 (ucast (im_header im ! 11))"

definition hasFreeSlot :: "page \<Rightarrow> bool" where
  "hasFreeSlot p \<longleftrightarrow> 0 < sint (pg_freeCount p)"

definition numWords :: "page \<Rightarrow> nat" where
  "numWords p = unat ((pg_capacity p + 63) div 64)"

definition initBitmap :: "page \<Rightarrow> image \<Rightarrow> page \<times> image" where
  "initBitmap p im =
    (p\<lparr>pg_freeCount := pg_capacity p\<rparr>,
     im\<lparr>im_words := \<lambda>i. if i < numWords p then 0 else im_words im i\<rparr>)"

definition OnesCount64 :: "u64 \<Rightarrow> nat" where
  "OnesCount64 w = length (filter (bit w) [0..<64])"

definition TrailingZeros64 :: "u64 \<Rightarrow> nat" where
  "TrailingZeros64 w = length (takeWhile (\<lambda>b. \<not> bit w b) [0..<64])"

text \<open>The free bits of word \<open>wi\<close>; the last word has bits beyond the capacity.\<close>

definition free_bits :: "page \<Rightarrow> (nat \<Rightarrow> u64) \<Rightarrow> nat \<Rightarrow> u64" where
  "free_bits p ws wi =
    (let free = NOT (ws wi); rem = unat (pg_capacity p mod 64) in
     if wi = numWords p - 1 \<and> rem \<noteq> 0 then free AND (push_bit rem 1 - 1) else free)"

definition rebuildFreeCount :: "page \<Rightarrow> image \<Rightarrow> page" where
  "rebuildFreeCount p im =
    p\<lparr>pg_freeCount := word_of_nat (sum_list (map (\<lambda>i.
        let w = im_words im i; rem = unat (pg_capacity p mod 64);
            w' = (if i = numWords p - 1 \<and> rem \<noteq> 0 then w OR NOT (push_bit rem 1 - 1) else w)
        in OnesCount64 (NOT w')) [0..<numWords p]))\<rparr>"

fun alloc_loop :: "page \<Rightarrow> (nat \<Rightarrow> u64) \<Rightarrow> nat \<Rightarrow> nat list \<Rightarrow> (nat \<times> nat) option" where
  "alloc_loop p ws start [] = None"
| "alloc_loop p ws start (i # is) =
    (let wi = (start + i) mod numWords p; free = free_bits p ws wi in
     if free = 0 then alloc_loop p ws start is else Some (wi, TrailingZeros64 free))"

definition allocSlot :: "page \<Rightarrow> image \<Rightarrow> u32 option \<times> page \<times> image" where
  "allocSlot p im =
    (let nw = numWords p in
     if nw = 0 then (None, p, im)
     else
       (case alloc_loop p (im_words im) (unat (pg_hint p) mod nw) [0..<nw] of
          None \<Rightarrow> (None, p, im)
        | Some (wi, b) \<Rightarrow>
            (Some (word_of_nat (wi * 64 + b)),
             p\<lparr>pg_freeCount := pg_freeCount p - 1, pg_hint := word_of_nat wi\<rparr>,
             im\<lparr>im_words := (im_words im)(wi := im_words im wi OR push_bit b 1)\<rparr>)))"

definition freeSlot :: "u32 \<Rightarrow> page \<Rightarrow> image \<Rightarrow> bool \<times> page \<times> image" where
  "freeSlot slotIdx p im =
    (let wi = unat (slotIdx div 64); m = push_bit (unat (slotIdx mod 64)) 1;
         p' = p\<lparr>pg_freeCount := pg_freeCount p + 1\<rparr> in
     (pg_freeCount p' = pg_capacity p', p',
      im\<lparr>im_words := (im_words im)(wi := im_words im wi AND NOT m)\<rparr>))"

definition slotOffset :: "page \<Rightarrow> u32 \<Rightarrow> u32" where
  "slotOffset p slotIdx = pg_slotsStart p + slotIdx * pg_sizeClass p"

section \<open>The bitmap as a set of slots\<close>

definition used :: "page \<Rightarrow> image \<Rightarrow> nat set" where
  "used p im = {i. i < unat (pg_capacity p) \<and> bit (im_words im (i div 64)) (i mod 64)}"

definition slab_page :: "page \<Rightarrow> bool" where
  "slab_page p \<longleftrightarrow> \<not> pg_jumbo p \<and> 0 < unat (pg_capacity p) \<and> unat (pg_capacity p) \<le> 2 ^ 20"

definition page_inv :: "page \<Rightarrow> image \<Rightarrow> bool" where
  "page_inv p im \<longleftrightarrow> slab_page p \<and>
     unat (pg_freeCount p) + card (used p im) = unat (pg_capacity p)"

lemma finite_used [simp, intro]: "finite (used p im)"
  by (simp add: used_def)

lemma card_used_le: "card (used p im) \<le> unat (pg_capacity p)"
  using card_mono [of "{..<unat (pg_capacity p)}" "used p im"] by (auto simp: used_def)

lemma numWords_eq: "slab_page p \<Longrightarrow> numWords p = (unat (pg_capacity p) + 63) div 64"
proof -
  assume "slab_page p"
  then have "unat (pg_capacity p + 63) = unat (pg_capacity p) + 63"
    by (simp add: slab_page_def unat_word_ariths)
  then show ?thesis by (simp add: numWords_def unat_div)
qed

lemma ceil_div_64: "(c :: nat) mod 64 \<noteq> 0 \<Longrightarrow> (c + 63) div 64 = c div 64 + 1"
proof -
  assume "c mod 64 \<noteq> 0"
  then have "(c mod 64 + 63) div 64 = 1" by (intro div_nat_eqI) simp_all
  moreover have "c + 63 = (c mod 64 + 63) + c div 64 * 64" using div_mult_mod_eq [of c 64] by linarith
  ultimately show ?thesis by (metis add.commute div_mult_self1 zero_neq_numeral)
qed

lemma bit_free_bits:
  assumes "slab_page p" "wi < numWords p"
  shows "bit (free_bits p ws wi) b \<longleftrightarrow> b < 64 \<and> wi * 64 + b < unat (pg_capacity p) \<and> \<not> bit (ws wi) b"
proof -
  let ?cap = "unat (pg_capacity p)"
  have rem: "unat (pg_capacity p mod 64) = ?cap mod 64" by (simp add: unat_mod)
  have nw: "numWords p = (?cap + 63) div 64" using assms(1) by (rule numWords_eq)
  have mask: "(push_bit (?cap mod 64) 1 - 1 :: u64) = mask (?cap mod 64)"
    by (simp add: mask_eq_exp_minus_1 push_bit_eq_mult)
  have len: "bit (ws wi) b \<Longrightarrow> b < 64" using bit_imp_le_length [of "ws wi" b] by simp
  show ?thesis
  proof (cases "wi = numWords p - 1 \<and> ?cap mod 64 \<noteq> 0")
    case True
    then have "free_bits p ws wi = NOT (ws wi) AND mask (?cap mod 64)"
      by (simp only: free_bits_def Let_def rem mask) simp
    then have "bit (free_bits p ws wi) b \<longleftrightarrow> b < 64 \<and> b < ?cap mod 64 \<and> \<not> bit (ws wi) b"
      by (simp add: bit_and_iff bit_not_iff bit_mask_iff) blast
    moreover have "wi = ?cap div 64"
      using True nw ceil_div_64 [of ?cap] by simp
    then have "b < 64 \<Longrightarrow> wi * 64 + b < ?cap \<longleftrightarrow> b < ?cap mod 64"
      using div_mult_mod_eq [of ?cap 64] by linarith
    ultimately show ?thesis by blast
  next
    case False
    have "wi * 64 + 63 < ?cap"
    proof (cases "?cap mod 64 = 0")
      case True
      then obtain k where "?cap = 64 * k" by auto
      then show ?thesis using assms(2) nw by simp
    next
      case nz: False
      then have "Suc wi < (?cap + 63) div 64" using False assms(2) nw by auto
      then have "Suc (Suc wi) \<le> (?cap + 63) div 64" by simp
      then have "Suc (Suc wi) * 64 \<le> ?cap + 63" by (simp add: less_eq_div_iff_mult_less_eq)
      then show ?thesis by simp
    qed
    moreover have "free_bits p ws wi = NOT (ws wi)"
      using False by (simp only: free_bits_def Let_def rem) simp
    ultimately show ?thesis by (auto simp: bit_not_iff)
  qed
qed


lemma free_bits_zero_iff:
  assumes "slab_page p" "wi < numWords p"
  shows "free_bits p ws wi = 0 \<longleftrightarrow> (\<forall>b < 64. wi * 64 + b < unat (pg_capacity p) \<longrightarrow> bit (ws wi) b)"
  using bit_free_bits [OF assms] by (auto simp: bit_eq_iff)

lemma takeWhile_first:
  assumes "P n" "n < m"
  shows "length (takeWhile (\<lambda>b. \<not> P b) [0..<m]) < m \<and> P (length (takeWhile (\<lambda>b. \<not> P b) [0..<m]))"
proof -
  let ?k = "length (takeWhile (\<lambda>b. \<not> P b) [0..<m])"
  have "\<not> (\<forall>b \<in> set [0..<m]. \<not> P b)" using assms by auto
  then have "takeWhile (\<lambda>b. \<not> P b) [0..<m] \<noteq> [0..<m]" by (metis takeWhile_eq_all_conv)
  then have "?k \<noteq> length [0..<m]" using takeWhile_eq_take [of "\<lambda>b. \<not> P b" "[0..<m]"] by force
  then have "?k < length [0..<m]" using length_takeWhile_le [of "\<lambda>b. \<not> P b" "[0..<m]"] by linarith
  moreover have "\<not> (\<not> P ([0..<m] ! ?k))" using calculation by (rule nth_length_takeWhile)
  ultimately show ?thesis by simp
qed

lemma TrailingZeros64_bit: "w \<noteq> 0 \<Longrightarrow> TrailingZeros64 w < 64 \<and> bit w (TrailingZeros64 w)"
proof -
  assume "w \<noteq> 0"
  then obtain n where "bit w n" by (auto simp: bit_eq_iff)
  moreover from this have "n < 64" using bit_imp_le_length [of w n] by simp
  ultimately show ?thesis unfolding TrailingZeros64_def by (rule takeWhile_first)
qed

lemma alloc_loop_None:
  "alloc_loop p ws start is = None \<longleftrightarrow> (\<forall>i \<in> set is. free_bits p ws ((start + i) mod numWords p) = 0)"
  by (induction "is") (auto simp: Let_def)

lemma alloc_loop_Some:
  "alloc_loop p ws start is = Some (wi, b) \<Longrightarrow> numWords p \<noteq> 0 \<Longrightarrow>
   wi < numWords p \<and> free_bits p ws wi \<noteq> 0 \<and> b = TrailingZeros64 (free_bits p ws wi)"
  by (induction "is") (auto simp: Let_def split: if_splits)

text \<open>The scan wraps around once, so it visits every word.\<close>

lemma mod_scan_surj: "w < n \<Longrightarrow> \<exists>i < n. (start + i) mod n = (w :: nat)"
proof -
  assume w: "w < n"
  let ?i = "(w + (n - start mod n)) mod n"
  have "start mod n \<le> n" using w by (simp add: less_imp_le)
  have "(start + ?i) mod n = (start mod n + (w + (n - start mod n))) mod n"
    by (simp add: mod_simps)
  also have "start mod n + (w + (n - start mod n)) = w + n" using \<open>start mod n \<le> n\<close> by simp
  finally show ?thesis using w by (intro exI [of _ ?i]) simp
qed

lemma slot_index: "wi < numWords p \<Longrightarrow> slab_page p \<Longrightarrow> b < 64 \<Longrightarrow> wi * 64 + b < 2 ^ 32"
proof -
  assume "wi < numWords p" "slab_page p" "b < 64"
  then have "wi < 2 ^ 20" by (auto simp: numWords_eq slab_page_def)
  then show ?thesis using \<open>b < 64\<close> by simp
qed

lemma used_word: "used p im = {i. i < unat (pg_capacity p) \<and> bit (im_words im (i div 64)) (i mod 64)}"
  by (simp add: used_def)

lemma bit_set_u64: "b < 64 \<Longrightarrow> bit (w OR push_bit b 1 :: u64) n \<longleftrightarrow> bit w n \<or> n = b"
  by (auto simp: bit_simps)

lemma bit_clear_u64: "b < 64 \<Longrightarrow> bit (w AND NOT (push_bit b 1) :: u64) n \<longleftrightarrow> bit w n \<and> n \<noteq> b"
  by (auto simp: bit_simps dest: bit_imp_le_length)

lemma slot_split: "b < 64 \<Longrightarrow> i = wi * 64 + b \<longleftrightarrow> i div 64 = wi \<and> i mod 64 = (b :: nat)"
  by (metis add.commute div_mult_mod_eq div_mult_self3 mod_mult_self1 div_less mod_less add_0 zero_neq_numeral)

lemma im_words_upd: "im_words (im\<lparr>im_words := f\<rparr>) = f"
  by simp

lemma used_set_bit:
  assumes "b < 64" "wi * 64 + b < unat (pg_capacity p)"
  shows "used p (im\<lparr>im_words := (im_words im)(wi := im_words im wi OR push_bit b 1)\<rparr>)
       = insert (wi * 64 + b) (used p im)"
proof (rule set_eqI)
  fix i
  let ?ws = "(im_words im)(wi := im_words im wi OR push_bit b 1)"
  have "bit (?ws (i div 64)) (i mod 64) \<longleftrightarrow> bit (im_words im (i div 64)) (i mod 64) \<or> i = wi * 64 + b"
    unfolding slot_split [OF assms(1)] by (simp only: fun_upd_apply bit_set_u64 [OF assms(1)] split: if_split) blast
  then show "i \<in> used p (im\<lparr>im_words := ?ws\<rparr>) \<longleftrightarrow> i \<in> insert (wi * 64 + b) (used p im)"
    unfolding used_def im_words_upd using assms(2) by (simp only: mem_Collect_eq insert_iff) blast
qed

lemma used_clear_bit:
  assumes "b < 64"
  shows "used p (im\<lparr>im_words := (im_words im)(wi := im_words im wi AND NOT (push_bit b 1))\<rparr>)
       = used p im - {wi * 64 + b}"
proof (rule set_eqI)
  fix i
  let ?ws = "(im_words im)(wi := im_words im wi AND NOT (push_bit b 1))"
  have "bit (?ws (i div 64)) (i mod 64) \<longleftrightarrow> bit (im_words im (i div 64)) (i mod 64) \<and> i \<noteq> wi * 64 + b"
    unfolding slot_split [OF assms(1)] by (simp only: fun_upd_apply bit_clear_u64 [OF assms(1)] split: if_split) blast
  then show "i \<in> used p (im\<lparr>im_words := ?ws\<rparr>) \<longleftrightarrow> i \<in> used p im - {wi * 64 + b}"
    unfolding used_def im_words_upd by (simp only: mem_Collect_eq Diff_iff singleton_iff) blast
qed


section \<open>Operations on the set of used slots\<close>

lemma unat_u32_pred: "0 < unat (c :: u32) \<Longrightarrow> unat (c - 1) = unat c - 1"
  by (metis unat_minus_one unat_gt_0)

lemma page_cap_upd: "pg_capacity (p\<lparr>pg_freeCount := fc, pg_hint := h\<rparr>) = pg_capacity p"
  by simp

lemma page_inv_upd:
  "slab_page p \<Longrightarrow> pg_jumbo p' = pg_jumbo p \<Longrightarrow> pg_capacity p' = pg_capacity p \<Longrightarrow> slab_page p'"
  "pg_capacity p' = pg_capacity p \<Longrightarrow> used p' im = used p im"
  by (simp_all add: slab_page_def used_def)

lemma alloc_found:
  assumes "slab_page p" "wi < numWords p" "free_bits p ws wi \<noteq> 0" "b = TrailingZeros64 (free_bits p ws wi)"
  shows "b < 64" "wi * 64 + b < unat (pg_capacity p)" "\<not> bit (ws wi) b"
    "unat (word_of_nat (wi * 64 + b) :: u32) = wi * 64 + b"
proof -
  have "b < 64 \<and> bit (free_bits p ws wi) b" using TrailingZeros64_bit [OF assms(3)] assms(4) by simp
  then show b: "b < 64" "wi * 64 + b < unat (pg_capacity p)" "\<not> bit (ws wi) b"
    using bit_free_bits [OF assms(1,2), of ws b] by auto
  show "unat (word_of_nat (wi * 64 + b) :: u32) = wi * 64 + b"
    using slot_index [OF assms(2,1) b(1)] by (rule unat_of_nat_u32)
qed

lemma used_full_iff:
  assumes "slab_page p"
  shows "(\<forall>wi < numWords p. free_bits p (im_words im) wi = 0) \<longleftrightarrow> used p im = {..<unat (pg_capacity p)}"
proof
  let ?cap = "unat (pg_capacity p)"
  assume z: "\<forall>wi < numWords p. free_bits p (im_words im) wi = 0"
  have "i \<in> used p im" if i: "i < ?cap" for i
  proof -
    have s: "i = i div 64 * 64 + i mod 64" "i mod 64 < 64" by simp_all
    have "i div 64 < numWords p"
    proof -
      have "(i + 64) div 64 \<le> (?cap + 63) div 64" using i by (intro div_le_mono) simp
      then show ?thesis using numWords_eq [OF assms] by simp
    qed
    then have "\<not> bit (free_bits p (im_words im) (i div 64)) (i mod 64)" using z by simp
    then show ?thesis
      using bit_free_bits [OF assms \<open>i div 64 < numWords p\<close>, of "im_words im" "i mod 64"] s i by (simp add: used_def)
  qed
  then show "used p im = {..<?cap}" by (auto simp: used_def)
next
  assume u: "used p im = {..<unat (pg_capacity p)}"
  show "\<forall>wi < numWords p. free_bits p (im_words im) wi = 0"
  proof (intro allI impI)
    fix wi assume wi: "wi < numWords p"
    have "bit (im_words im wi) b" if "b < 64" "wi * 64 + b < unat (pg_capacity p)" for b
    proof -
      have "wi * 64 + b \<in> used p im" using that u by simp
      then show ?thesis using that(1) by (simp add: used_def)
    qed
    then show "free_bits p (im_words im) wi = 0" using free_bits_zero_iff [OF assms wi] by blast
  qed
qed

lemma allocSlot_spec:
  assumes inv: "page_inv p im"
  shows "case allocSlot p im of
      (None, p', im') \<Rightarrow> used p im = {..<unat (pg_capacity p)} \<and> p' = p \<and> im' = im
    | (Some i, p', im') \<Rightarrow> unat i < unat (pg_capacity p) \<and> unat i \<notin> used p im \<and>
        used p' im' = insert (unat i) (used p im) \<and> page_inv p' im' \<and>
        (\<exists>fc hint. p' = p\<lparr>pg_freeCount := fc, pg_hint := hint\<rparr>) \<and> (\<exists>ws. im' = im\<lparr>im_words := ws\<rparr>)"
proof -
  have sp: "slab_page p" using inv by (simp add: page_inv_def)
  have nw: "numWords p \<noteq> 0"
  proof -
    have "64 div 64 \<le> (unat (pg_capacity p) + 63) div 64"
      using sp by (intro div_le_mono) (simp add: slab_page_def)
    then show ?thesis using numWords_eq [OF sp] by simp
  qed
  let ?st = "unat (pg_hint p) mod numWords p"
  show ?thesis
  proof (cases "alloc_loop p (im_words im) ?st [0..<numWords p]")
    case None
    have "free_bits p (im_words im) wi = 0" if wi: "wi < numWords p" for wi
    proof -
      obtain i where "i < numWords p" "(?st + i) mod numWords p = wi" using mod_scan_surj [OF wi] by blast
      then show ?thesis using None by (auto simp: alloc_loop_None)
    qed
    then have "used p im = {..<unat (pg_capacity p)}" using used_full_iff [OF sp] by blast
    then show ?thesis using None nw by (simp add: allocSlot_def Let_def)
  next
    case (Some r)
    obtain wi b where r: "r = (wi, b)" by force
    have l: "wi < numWords p" "free_bits p (im_words im) wi \<noteq> 0" "b = TrailingZeros64 (free_bits p (im_words im) wi)"
      using alloc_loop_Some [of p "im_words im" ?st _ wi b] Some r nw by auto
    note a = alloc_found [OF sp l]
    let ?p' = "p\<lparr>pg_freeCount := pg_freeCount p - 1, pg_hint := word_of_nat wi\<rparr>"
    let ?im' = "im\<lparr>im_words := (im_words im)(wi := im_words im wi OR push_bit b 1)\<rparr>"
    have nu: "wi * 64 + b \<notin> used p im" using a(1,3) by (simp add: used_def)
    have u: "used ?p' ?im' = insert (wi * 64 + b) (used p im)"
      unfolding page_inv_upd(2) [of ?p' p, OF page_cap_upd] by (rule used_set_bit [OF a(1,2)])
    have c: "card (insert (wi * 64 + b) (used p im)) = card (used p im) + 1" using nu by simp
    have "insert (wi * 64 + b) (used p im) \<subseteq> {..<unat (pg_capacity p)}" using a(2) by (auto simp: used_def)
    then have "card (used p im) + 1 \<le> unat (pg_capacity p)"
      using card_mono [of "{..<unat (pg_capacity p)}"] unfolding c [symmetric] by simp
    then have pi: "page_inv ?p' ?im'"
    proof -
      have "0 < unat (pg_freeCount p)"
        using inv \<open>card (used p im) + 1 \<le> _\<close> by (simp add: page_inv_def)
      moreover from this have "unat (pg_freeCount p - 1) = unat (pg_freeCount p) - 1" by (rule unat_u32_pred)
      ultimately show ?thesis
        using inv page_inv_upd(1) [OF sp, of ?p'] unfolding page_inv_def u c by simp
    qed
    have "allocSlot p im = (Some (word_of_nat (wi * 64 + b)), ?p', ?im')"
      using Some r nw by (simp add: allocSlot_def Let_def)
    then show ?thesis using pi u nu a(2) by (simp only: prod.case option.case a(4)) blast
  qed
qed

lemma freeSlot_spec:
  assumes inv: "page_inv p im" and i: "unat i \<in> used p im"
  shows "case freeSlot i p im of (full, p', im') \<Rightarrow>
     used p' im' = used p im - {unat i} \<and> page_inv p' im' \<and> (full \<longleftrightarrow> used p' im' = {}) \<and>
     (\<exists>fc. p' = p\<lparr>pg_freeCount := fc\<rparr>) \<and> (\<exists>ws. im' = im\<lparr>im_words := ws\<rparr>)"
proof -
  have sp: "slab_page p" using inv by (simp add: page_inv_def)
  let ?p' = "p\<lparr>pg_freeCount := pg_freeCount p + 1\<rparr>"
  let ?im' = "im\<lparr>im_words := (im_words im)(unat (i div 64) := im_words im (unat (i div 64)) AND NOT (push_bit (unat (i mod 64)) 1))\<rparr>"
  have split: "unat (i mod 64) < 64" "unat (i div 64) * 64 + unat (i mod 64) = unat i"
    by (simp_all add: unat_mod unat_div)
  have u: "used ?p' ?im' = used p im - {unat i}"
    using used_clear_bit [OF split(1), of p im "unat (i div 64)"] split(2) page_inv_upd(2) [of ?p' p] by simp
  have "card (used p im - {unat i}) = card (used p im) - 1" "0 < card (used p im)"
    using i by (auto simp: card_gt_0_iff)
  moreover have "unat (pg_freeCount p + 1) = unat (pg_freeCount p) + 1"
    using inv calculation(2) by (auto simp: page_inv_def slab_page_def unat_word_ariths)
  ultimately have pi: "page_inv ?p' ?im'" using inv u page_inv_upd(1) [OF sp, of ?p'] by (simp add: page_inv_def)
  then have "(pg_freeCount ?p' = pg_capacity ?p') \<longleftrightarrow> card (used ?p' ?im') = 0"
    by (auto simp: page_inv_def word_unat_eq_iff)
  moreover have "freeSlot i p im = (pg_freeCount ?p' = pg_capacity ?p', ?p', ?im')"
    by (simp add: freeSlot_def Let_def)
  ultimately show ?thesis using u pi by simp blast
qed


section \<open>Rebuilding the counter\<close>

lemma OnesCount64_card: "OnesCount64 w = card {b. bit w b}"
proof -
  have "OnesCount64 w = card (set (filter (bit w) [0..<64]))"
    unfolding OnesCount64_def by (intro distinct_card [symmetric]) simp
  also have "set (filter (bit w) [0..<64]) = {b. bit w b}"
    using bit_imp_le_length [of w] by fastforce
  finally show ?thesis .
qed

lemma not_or_distrib_u64: "NOT (w OR NOT m) = NOT w AND (m :: u64)"
  by (simp add: and.commute)

lemma free_card:
  assumes "slab_page p"
  shows "sum_list (map (\<lambda>i. OnesCount64 (free_bits p ws i)) [0..<numWords p]) =
         card {j. j < unat (pg_capacity p) \<and> \<not> bit (ws (j div 64)) (j mod 64)}"
proof -
  let ?B = "\<lambda>i. {b. bit (free_bits p ws i) b}"
  let ?J = "\<lambda>i. (\<lambda>b. i * 64 + b) ` ?B i"
  have b64: "b < 64" if "bit (free_bits p ws i) b" for i b
    using bit_imp_le_length [OF that] by simp
  have cardJ: "card (?J i) = OnesCount64 (free_bits p ws i)" for i
    unfolding OnesCount64_card by (rule card_image) (simp add: inj_on_def)
  have fin: "finite (?J i)" for i
    by (rule finite_imageI, rule finite_subset [of _ "{..<64}"]) (auto dest: b64)
  have disj: "?J i \<inter> ?J j = {}" if "i \<noteq> j" for i j
  proof -
    have False if "b < 64" "c < 64" "i * 64 + b = j * 64 + c" for b c
      using that \<open>i \<noteq> j\<close> by (metis slot_split)
    then show ?thesis using b64 by blast
  qed
  have "{j. j < unat (pg_capacity p) \<and> \<not> bit (ws (j div 64)) (j mod 64)} = (\<Union>i \<in> {..<numWords p}. ?J i)" (is "?L = ?R")
  proof (rule set_eqI, rule iffI)
    fix j assume j: "j \<in> ?L"
    have "(j + 64) div 64 \<le> (unat (pg_capacity p) + 63) div 64" using j by (intro div_le_mono) auto
    then have w: "j div 64 < numWords p" using numWords_eq [OF assms] by simp
    moreover have "bit (free_bits p ws (j div 64)) (j mod 64)" using j bit_free_bits [OF assms w] by simp
    ultimately show "j \<in> ?R" by (intro UN_I [of "j div 64"] image_eqI [of _ _ "j mod 64"]) simp_all
  next
    fix j assume "j \<in> ?R"
    then obtain i b where "i < numWords p" "bit (free_bits p ws i) b" "j = i * 64 + b" by blast
    then show "j \<in> ?L" using bit_free_bits [OF assms, of i ws b] slot_split [of b j i] by simp
  qed
  also have "card \<dots> = (\<Sum>i < numWords p. card (?J i))"
    using fin disj by (intro card_UN_disjoint) auto
  finally show ?thesis by (simp add: cardJ interv_sum_list_conv_sum_set_nat atLeast0LessThan)
qed

lemma rebuildFreeCount_inv:
  assumes "slab_page p"
  shows "page_inv (rebuildFreeCount p im) im \<and> (\<exists>fc. rebuildFreeCount p im = p\<lparr>pg_freeCount := fc\<rparr>)"
proof -
  let ?cap = "unat (pg_capacity p)"
  let ?n = "card {j. j < ?cap \<and> \<not> bit (im_words im (j div 64)) (j mod 64)}"
  have r: "rebuildFreeCount p im = p\<lparr>pg_freeCount := word_of_nat ?n\<rparr>"
    unfolding rebuildFreeCount_def free_card [OF assms, of "im_words im", symmetric] free_bits_def Let_def
    by (simp only: if_distrib [of "NOT"] not_or_distrib_u64 cong: if_cong)
  have "?n + card (used p im) = card ({j. j < ?cap \<and> \<not> bit (im_words im (j div 64)) (j mod 64)} \<union> used p im)"
    by (rule card_Un_disjoint [symmetric]) (auto simp: used_def)
  also have "{j. j < ?cap \<and> \<not> bit (im_words im (j div 64)) (j mod 64)} \<union> used p im = {..<?cap}"
    unfolding used_def by blast
  finally have n: "?n + card (used p im) = ?cap" by simp
  moreover have "unat (word_of_nat ?n :: u32) = ?n"
    using n assms by (intro unat_of_nat_u32) (simp add: slab_page_def)
  ultimately show ?thesis
    using page_inv_upd [of p "rebuildFreeCount p im"] assms unfolding r page_inv_def by auto
qed


section \<open>Rules for clients\<close>

lemma allocSlot_Some:
  assumes "page_inv p im" "allocSlot p im = (Some i, s')"
  shows "page_inv (fst s') (snd s') \<and> unat (pg_capacity (fst s')) = unat (pg_capacity p) \<and>
    unat i < unat (pg_capacity p) \<and> unat i \<notin> used p im \<and> used (fst s') (snd s') = insert (unat i) (used p im)"
proof -
  obtain p' im' where s': "s' = (p', im')" by force
  note a = allocSlot_spec [OF assms(1), unfolded assms(2) s' prod.case option.case]
  then have "pg_capacity p' = pg_capacity p" by auto
  with a show ?thesis unfolding s' fst_conv snd_conv by simp
qed

lemma allocSlot_frame:
  assumes "page_inv p im" "allocSlot p im = (Some i, p', im')"
  obtains fc hint ws where "p' = p\<lparr>pg_freeCount := fc, pg_hint := hint\<rparr>" "im' = im\<lparr>im_words := ws\<rparr>"
  using allocSlot_spec [OF assms(1), unfolded assms(2) prod.case option.case] by blast

lemma allocSlot_None:
  "page_inv p im \<Longrightarrow> allocSlot p im = (None, s') \<Longrightarrow> used p im = {..<unat (pg_capacity p)} \<and> s' = (p, im)"
  using allocSlot_spec [of p im] by (cases s') simp

lemma freeSlot_ok:
  assumes "page_inv p im" "unat i \<in> used p im" "freeSlot i p im = (e, s')"
  shows "page_inv (fst s') (snd s') \<and> unat (pg_capacity (fst s')) = unat (pg_capacity p) \<and>
    used (fst s') (snd s') = used p im - {unat i} \<and> (e \<longleftrightarrow> used (fst s') (snd s') = {})"
proof -
  obtain p' im' where s': "s' = (p', im')" by force
  note a = freeSlot_spec [OF assms(1,2), unfolded assms(3) s' prod.case]
  then obtain fc where "p' = p\<lparr>pg_freeCount := fc\<rparr>" by blast
  then have "pg_capacity p' = pg_capacity p" by simp
  then have "unat (pg_capacity p') = unat (pg_capacity p)" by (rule arg_cong)
  with a show ?thesis unfolding s' fst_conv snd_conv by blast
qed

lemma freeSlot_frame:
  assumes "freeSlot i p im = (e, p', im')"
  obtains fc ws where "p' = p\<lparr>pg_freeCount := fc\<rparr>" "im' = im\<lparr>im_words := ws\<rparr>"
proof -
  have "p' = p\<lparr>pg_freeCount := pg_freeCount p + 1\<rparr>" "\<exists>ws. im' = im\<lparr>im_words := ws\<rparr>"
    using assms by (auto simp: freeSlot_def Let_def)
  with that show ?thesis by blast
qed

section \<open>The allocator interface\<close>

text \<open>
  What the store relies on: an allocator hands out indices that are not live, fails only when all are
  live, and tells on a release whether it was the last one.
\<close>

fun repeat_alloc :: "('s \<Rightarrow> 'i option \<times> 's) \<Rightarrow> nat \<Rightarrow> 's \<Rightarrow> 'i list \<times> 's" where
  "repeat_alloc alloc 0 s = ([], s)"
| "repeat_alloc alloc (Suc n) s =
    (case alloc s of
       (None, s') \<Rightarrow> ([], s')
     | (Some i, s') \<Rightarrow> (case repeat_alloc alloc n s' of (is, s'') \<Rightarrow> (i # is, s'')))"

locale slot_alloc =
  fixes alloc :: "'s \<Rightarrow> 'i option \<times> 's" and release :: "'i \<Rightarrow> 's \<Rightarrow> bool \<times> 's"
    and live :: "'s \<Rightarrow> nat set" and idx :: "'i \<Rightarrow> nat" and cap :: "'s \<Rightarrow> nat" and inv :: "'s \<Rightarrow> bool"
  assumes live_bound: "inv s \<Longrightarrow> live s \<subseteq> {..<cap s}"
    and alloc_Some: "inv s \<Longrightarrow> alloc s = (Some i, s') \<Longrightarrow>
      inv s' \<and> cap s' = cap s \<and> idx i < cap s \<and> idx i \<notin> live s \<and> live s' = insert (idx i) (live s)"
    and alloc_None: "inv s \<Longrightarrow> alloc s = (None, s') \<Longrightarrow> live s = {..<cap s} \<and> s' = s"
    and release_ok: "inv s \<Longrightarrow> idx i \<in> live s \<Longrightarrow> release i s = (e, s') \<Longrightarrow>
      inv s' \<and> cap s' = cap s \<and> live s' = live s - {idx i} \<and> (e \<longleftrightarrow> live s' = {})"
begin

lemma repeat_alloc_distinct:
  "inv s \<Longrightarrow> n + card (live s) \<le> cap s \<Longrightarrow> repeat_alloc alloc n s = (is, s') \<Longrightarrow>
   length is = n \<and> distinct (map idx is) \<and> idx ` set is \<inter> live s = {} \<and> live s' = live s \<union> idx ` set is \<and>
   inv s' \<and> cap s' = cap s"
proof (induction n arbitrary: s "is")
  case (Suc n)
  obtain r s1 where a: "alloc s = (r, s1)" by force
  have fin: "finite (live s)" using live_bound [OF Suc.prems(1)] finite_subset by blast
  show ?case
  proof (cases r)
    case None
    then show ?thesis using alloc_None [OF Suc.prems(1)] a Suc.prems(2) by fastforce
  next
    case (Some i)
    note s1 = alloc_Some [OF Suc.prems(1) a [unfolded Some]]
    obtain js where js: "repeat_alloc alloc n s1 = (js, s')" "is = i # js"
      using Suc.prems(3) a Some by (auto split: prod.splits)
    have "n + card (live s1) \<le> cap s1" using s1 Suc.prems(2) fin by simp
    from Suc.IH [OF _ this js(1)] s1 js(2) show ?thesis by auto
  qed
qed simp

text \<open>An empty allocator gives out exactly its capacity.\<close>

lemma fill:
  assumes "inv s" "live s = {}" "repeat_alloc alloc (cap s) s = (is, s')"
  shows "distinct (map idx is) \<and> idx ` set is = {..<cap s} \<and> fst (alloc s') = None"
proof -
  have r: "length is = cap s" "distinct (map idx is)" "live s' = idx ` set is" "inv s'" "cap s' = cap s"
    using repeat_alloc_distinct [OF assms(1) _ assms(3)] assms(2) by auto
  have "idx ` set is \<subseteq> {..<cap s}" using live_bound [OF r(4)] r(3,5) by simp
  moreover have "card (idx ` set is) = cap s" using r(1,2) by (metis distinct_card length_map set_map)
  ultimately have full: "idx ` set is = {..<cap s}" by (intro card_subset_eq) simp_all
  have "fst (alloc s') = None"
  proof (cases "alloc s'")
    case (Pair x y)
    show ?thesis
    proof (cases x)
      case (Some i)
      then show ?thesis using alloc_Some [OF r(4), of i y] Pair full r(3,5) by auto
    qed (use Pair in simp)
  qed
  with r full show ?thesis by simp
qed

end

definition page_alloc :: "page \<times> image \<Rightarrow> u32 option \<times> page \<times> image" where
  "page_alloc s = allocSlot (fst s) (snd s)"

definition page_free :: "u32 \<Rightarrow> page \<times> image \<Rightarrow> bool \<times> page \<times> image" where
  "page_free i s = freeSlot i (fst s) (snd s)"

interpretation slab: slot_alloc page_alloc page_free "\<lambda>s. used (fst s) (snd s)" unat
  "\<lambda>s. unat (pg_capacity (fst s))" "\<lambda>s. page_inv (fst s) (snd s)"
proof
  show "page_inv (fst s) (snd s) \<Longrightarrow> used (fst s) (snd s) \<subseteq> {..<unat (pg_capacity (fst s))}" for s
    by (auto simp: used_def)
  show "page_inv (fst s) (snd s) \<Longrightarrow> page_alloc s = (None, s') \<Longrightarrow>
      used (fst s) (snd s) = {..<unat (pg_capacity (fst s))} \<and> s' = s" for s s'
    using allocSlot_None [of "fst s" "snd s" s'] by (simp add: page_alloc_def)
qed (unfold page_alloc_def page_free_def, erule (1) allocSlot_Some, erule (2) freeSlot_ok)

section \<open>Properties\<close>

text \<open>A slab page hands out each of its slots exactly once: from an empty page, \<open>capacity\<close> calls of
  \<open>allocSlot\<close> all succeed, with pairwise different slot indices that cover all slots, wherever the scan
  hint points, and the next call reports that the page is full.\<close>

theorem slab_fills_exactly:
  assumes "page_inv p im" "used p im = {}"
    "repeat_alloc page_alloc (unat (pg_capacity p)) (p, im) = (is, p', im')"
  shows "distinct (map unat is) \<and> unat ` set is = {..<unat (pg_capacity p)} \<and> fst (allocSlot p' im') = None"
  using slab.fill [of "(p, im)" "is" "(p', im')"] assms by (simp add: page_alloc_def)

definition sample_page :: page where
  "sample_page = \<lparr>pg_dataLen = 1048576, pg_pageID = 1, pg_jumbo = False, pg_sizeClass = 262144, pg_spanPages = 1, pg_capacity = 3,
     pg_slotsStart = 262144, pg_freeCount = 3, pg_hint = 0\<rparr>"

definition sample_image :: image where
  "sample_image = \<lparr>im_header = replicate 32 0, im_words = (\<lambda>_. 0), im_mem = (\<lambda>_. 0)\<rparr>"

lemma sample_page_inv: "page_inv sample_page sample_image" "used sample_page sample_image = {}"
  by (simp_all add: page_inv_def slab_page_def used_def sample_page_def sample_image_def)

theorem slab_fills_exactly_witness:
  "\<exists>is p' im'. repeat_alloc page_alloc 3 (sample_page, sample_image) = (is, p', im') \<and>
     unat ` set is = {..<3} \<and> fst (allocSlot p' im') = None"
proof -
  obtain "is" p' im' where r: "repeat_alloc page_alloc 3 (sample_page, sample_image) = (is, p', im')"
    by (metis prod_cases3)
  have "unat (pg_capacity sample_page) = 3" by (simp add: sample_page_def)
  then show ?thesis using slab_fills_exactly [OF sample_page_inv, of "is" p' im'] r by simp
qed

text \<open>Releasing a used slot clears exactly that slot, keeps the free counter equal to the number of
  free slots, and reports the page as empty exactly when no used slot is left, so a page is never
  reclaimed while it holds a live payload.\<close>

theorem freeSlot_exact:
  assumes "page_inv p im" "unat i \<in> used p im" "freeSlot i p im = (e, p', im')"
  shows "used p' im' = used p im - {unat i} \<and> page_inv p' im' \<and> (e \<longleftrightarrow> used p' im' = {})"
  using freeSlot_spec [OF assms(1,2)] assms(3) by simp

theorem freeSlot_exact_witness:
  "\<exists>i p im e p' im'. allocSlot sample_page sample_image = (Some i, p, im) \<and>
     freeSlot i p im = (e, p', im') \<and> e \<and> used p' im' = {}"
proof -
  obtain r p im where a: "allocSlot sample_page sample_image = (r, p, im)" by (metis prod_cases3)
  have "{..<unat (pg_capacity sample_page)} \<noteq> {}" by (simp add: sample_page_def lessThan_empty_iff)
  then have "r \<noteq> None" using allocSlot_None [OF sample_page_inv(1)] a sample_page_inv(2) by metis
  then obtain i where i: "allocSlot sample_page sample_image = (Some i, p, im)" using a by blast
  have u: "page_inv p im" "used p im = {unat i}"
    using allocSlot_Some [OF sample_page_inv(1) i] sample_page_inv(2) by simp_all
  obtain e p' im' where f: "freeSlot i p im = (e, p', im')" by (metis prod_cases3)
  have "used p' im' = {}" "e" using freeSlot_exact [OF u(1) _ f] u(2) by auto
  with i f show ?thesis by blast
qed

text \<open>Recovery of the free counter: whatever bitmap recovery has stamped into a slab page,
  \<open>rebuildFreeCount\<close> sets the counter to the exact number of slots whose bit is clear, not counting
  the bits of the last word beyond the capacity.\<close>

theorem rebuildFreeCount_exact:
  assumes "slab_page p"
  shows "unat (pg_freeCount (rebuildFreeCount p im)) + card (used p im) = unat (pg_capacity p)"
proof -
  have "page_inv (rebuildFreeCount p im) im" "\<exists>fc. rebuildFreeCount p im = p\<lparr>pg_freeCount := fc\<rparr>"
    using rebuildFreeCount_inv [OF assms] by blast+
  then show ?thesis using page_inv_upd(2) [of "rebuildFreeCount p im" p im] by (auto simp: page_inv_def)
qed

theorem rebuildFreeCount_exact_witness:
  "pg_freeCount (rebuildFreeCount sample_page (sample_image\<lparr>im_words := \<lambda>_. 13\<rparr>)) = 1"
proof -
  have "used sample_page (sample_image\<lparr>im_words := \<lambda>_. 13\<rparr>) = set (filter (bit (13 :: u64)) [0..<3])"
    by (auto simp: used_def sample_page_def sample_image_def)
  also have "\<dots> = {0, 2}" by code_simp
  finally have "card (used sample_page (sample_image\<lparr>im_words := \<lambda>_. 13\<rparr>)) = 2" by simp
  then show ?thesis
    using rebuildFreeCount_exact [of sample_page "sample_image\<lparr>im_words := \<lambda>_. 13\<rparr>"]
    by (simp add: slab_page_def sample_page_def word_unat_eq_iff)
qed

end
