(* ===== verification/Journal.thy ===== *)
theory Journal
  imports Crc32
begin

text \<open>
  \<open>internal/pagestore/journal.go\<close>: the journal \<open>store.log\<close> of page creations and retirements.  The file is
  its byte list; the writers give the bytes they append, \<open>jrnl_replay\<close> reads the file from the start.
\<close>

section \<open>Records\<close>

abbreviation "jrnlPageCreate \<equiv> (1 :: u8)"
abbreviation "jrnlPageRetire \<equiv> (2 :: u8)"
abbreviation "jrnlQueueDropBegin \<equiv> (3 :: u8)"
abbreviation "jrnlQueueDropEnd \<equiv> (4 :: u8)"

record jrnlRecord =
  j_op :: u8
  j_pageID :: u32
  j_scIdx :: u16
  j_spanPages :: u32
  j_gen :: u32
  j_oldGen :: u32
  j_newGen :: u32
  j_queueID :: u32

definition jrnl_zero :: jrnlRecord where
  "jrnl_zero = \<lparr>j_op = 0, j_pageID = 0, j_scIdx = 0, j_spanPages = 0, j_gen = 0, j_oldGen = 0, j_newGen = 0,
     j_queueID = 0\<rparr>"

datatype jrnl_error = JrnlCRC u8

section \<open>Writing\<close>

definition appendPageCreate :: "u32 \<Rightarrow> u16 \<Rightarrow> u32 \<Rightarrow> u32 \<Rightarrow> bytes" where
  "appendPageCreate pageID scIdx spanPages gen =
    (let buf =
        put_at 11 (PutUint32 gen)
        (put_at 7 (PutUint32 spanPages)
        (put_at 5 (PutUint16 scIdx)
        (put_at 1 (PutUint32 pageID)
        (put_at 0 [jrnlPageCreate] (replicate 19 0)))))
     in put_at 15 (PutUint32 (ChecksumIEEE (take 15 buf))) buf)"

definition appendPageRetire :: "u32 \<Rightarrow> u32 \<Rightarrow> u32 \<Rightarrow> bytes" where
  "appendPageRetire pageID oldGen newGen =
    (let buf =
        put_at 9 (PutUint32 newGen)
        (put_at 5 (PutUint32 oldGen)
        (put_at 1 (PutUint32 pageID)
        (put_at 0 [jrnlPageRetire] (replicate 17 0))))
     in put_at 13 (PutUint32 (ChecksumIEEE (take 13 buf))) buf)"

definition appendQueueDrop :: "u8 \<Rightarrow> u32 \<Rightarrow> bytes" where
  "appendQueueDrop op queueID =
    (let buf = put_at 1 (PutUint32 queueID) (put_at 0 [op] (replicate 9 0))
     in put_at 5 (PutUint32 (ChecksumIEEE (take 5 buf))) buf)"

section \<open>Replay\<close>

datatype jrnl_step = JStop | JBad u8 | JRec jrnlRecord bytes

text \<open>One iteration of the read loop: an opcode, then the rest of its record.\<close>

fun jrnl_next :: "bytes \<Rightarrow> jrnl_step" where
  "jrnl_next [] = JStop"
| "jrnl_next (op # rest) =
    (if op = jrnlPageCreate then
       (if length rest < 18 then JStop
        else
          (let tail = take 18 rest in
           if ChecksumIEEE (op # take 14 tail) \<noteq> Uint32 (slice tail 14 18) then JBad op
           else JRec (jrnl_zero\<lparr>j_op := op, j_pageID := Uint32 (slice tail 0 4), j_scIdx := Uint16 (slice tail 4 6),
                        j_spanPages := Uint32 (slice tail 6 10), j_gen := Uint32 (slice tail 10 14)\<rparr>)
                  (drop 18 rest)))
     else if op = jrnlPageRetire then
       (if length rest < 16 then JStop
        else
          (let tail = take 16 rest in
           if ChecksumIEEE (op # take 12 tail) \<noteq> Uint32 (slice tail 12 16) then JBad op
           else JRec (jrnl_zero\<lparr>j_op := op, j_pageID := Uint32 (slice tail 0 4), j_oldGen := Uint32 (slice tail 4 8),
                        j_newGen := Uint32 (slice tail 8 12)\<rparr>)
                  (drop 16 rest)))
     else if op = jrnlQueueDropBegin \<or> op = jrnlQueueDropEnd then
       (if length rest < 8 then JStop
        else
          (let tail = take 8 rest in
           if ChecksumIEEE (op # take 4 tail) \<noteq> Uint32 (slice tail 4 8) then JBad op
           else JRec (jrnl_zero\<lparr>j_op := op, j_queueID := Uint32 (slice tail 0 4)\<rparr>) (drop 8 rest)))
     else JStop)"

lemma jrnl_next_shrinks: "jrnl_next data = JRec r rest \<Longrightarrow> length rest < length data"
  by (cases data) (auto simp: Let_def split: if_splits)

text \<open>The flag tells whether records have been read; only then a bad checksum is a hard failure.\<close>

function jrnl_loop :: "bool \<Rightarrow> bytes \<Rightarrow> jrnl_error + jrnlRecord list" where
  "jrnl_loop some data =
    (case jrnl_next data of
       JStop \<Rightarrow> Inr []
     | JBad op \<Rightarrow> (if some then Inl (JrnlCRC op) else Inr [])
     | JRec r rest \<Rightarrow> (case jrnl_loop True rest of Inl e \<Rightarrow> Inl e | Inr rs \<Rightarrow> Inr (r # rs)))"
  by pat_completeness auto
termination
  by (relation "measure (\<lambda>(s, data). length data)") (auto dest: jrnl_next_shrinks)

declare jrnl_loop.simps [simp del] jrnl_next.simps [simp del]

definition jrnl_replay :: "bytes \<Rightarrow> jrnl_error + jrnlRecord list" where
  "jrnl_replay data = jrnl_loop False data"

section \<open>Reading back what was written\<close>

text \<open>The entries the writers produce, with their bytes.\<close>

datatype entry = PageCreate u32 u16 u32 u32 | PageRetire u32 u32 u32 | QueueDrop bool u32

fun entry_bytes :: "entry \<Rightarrow> bytes" where
  "entry_bytes (PageCreate p s n g) = appendPageCreate p s n g"
| "entry_bytes (PageRetire p a b) = appendPageRetire p a b"
| "entry_bytes (QueueDrop b q) = appendQueueDrop (if b then jrnlQueueDropBegin else jrnlQueueDropEnd) q"

fun entry_rec :: "entry \<Rightarrow> jrnlRecord" where
  "entry_rec (PageCreate p s n g) =
    jrnl_zero\<lparr>j_op := jrnlPageCreate, j_pageID := p, j_scIdx := s, j_spanPages := n, j_gen := g\<rparr>"
| "entry_rec (PageRetire p a b) = jrnl_zero\<lparr>j_op := jrnlPageRetire, j_pageID := p, j_oldGen := a, j_newGen := b\<rparr>"
| "entry_rec (QueueDrop b q) =
    jrnl_zero\<lparr>j_op := (if b then jrnlQueueDropBegin else jrnlQueueDropEnd), j_queueID := q\<rparr>"

text \<open>A buffer of \<open>n + 4\<close> bytes sealed by the checksum of its first \<open>n\<close> bytes.\<close>

definition sealed :: "nat \<Rightarrow> bytes \<Rightarrow> bytes" where
  "sealed n buf = put_at n (PutUint32 (ChecksumIEEE (take n buf))) buf"

lemma sealed_facts:
  assumes "length buf = n + 4" "0 < n"
  shows "length (sealed n buf) = n + 4" "sealed n buf ! 0 = buf ! 0"
    "take n (sealed n buf) = take n buf" "i \<le> j \<Longrightarrow> j \<le> n \<Longrightarrow> slice (sealed n buf) i j = slice buf i j"
    "slice (sealed n buf) n (n + 4) = PutUint32 (ChecksumIEEE (take n buf))"
  using assms by (simp_all add: sealed_def wire)

lemma slice_Cons: "slice (x # xs) (Suc i) (Suc j) = slice xs i j"
  by (simp add: slice_def)

lemma sealed_Cons:
  assumes "length buf = n + 4" "0 < n"
  obtains rest where "sealed n buf = buf ! 0 # rest" "length rest = n + 3"
    "ChecksumIEEE (buf ! 0 # take (n - 1) rest) = Uint32 (slice rest (n - 1) (n + 3))"
    "\<And>i j. i \<le> j \<Longrightarrow> Suc j \<le> n \<Longrightarrow> slice rest i j = slice buf (Suc i) (Suc j)"
proof -
  note f = sealed_facts [OF assms]
  obtain rest where r: "sealed n buf = buf ! 0 # rest"
    using f(1,2) by (cases "sealed n buf") auto
  obtain m where m: "n = Suc m" using assms(2) by (cases n) auto
  have "length rest = n + 3" using f(1) r by simp
  moreover have "ChecksumIEEE (buf ! 0 # take (n - 1) rest) = Uint32 (slice rest (n - 1) (n + 3))"
    using f(3,5) r m slice_Cons [of "buf ! 0" rest m "m + 4"] by (simp add: eval_nat_numeral)
  moreover have "slice rest i j = slice buf (Suc i) (Suc j)" if "i \<le> j" "Suc j \<le> n" for i j
    using f(4) [of "Suc i" "Suc j"] that r by (simp add: slice_Cons)
  ultimately show ?thesis using that r by blast
qed


lemma jrnl_next_entry: "jrnl_next (entry_bytes e @ tail) = JRec (entry_rec e) tail"
proof (cases e)
  case (PageCreate p s n g)
  define buf where "buf = put_at 11 (PutUint32 g) (put_at 7 (PutUint32 n) (put_at 5 (PutUint16 s)
    (put_at 1 (PutUint32 p) (put_at 0 [jrnlPageCreate] (replicate 19 0)))))"
  have b: "length buf = 15 + 4" "buf ! 0 = 1" "slice buf 1 5 = PutUint32 p" "slice buf 5 7 = PutUint16 s"
    "slice buf 7 11 = PutUint32 n" "slice buf 11 15 = PutUint32 g"
    by (simp_all add: buf_def wire)
  have e: "entry_bytes e = sealed 15 buf"
    by (simp add: PageCreate appendPageCreate_def buf_def sealed_def Let_def)
  obtain rest where r: "sealed 15 buf = 1 # rest" "length rest = 18"
    "ChecksumIEEE (1 # take 14 rest) = Uint32 (slice rest 14 18)"
    "\<And>i j. i \<le> j \<Longrightarrow> Suc j \<le> 15 \<Longrightarrow> slice rest i j = slice buf (Suc i) (Suc j)"
    using sealed_Cons [OF b(1)] b(2) by auto
  have "slice rest 0 4 = PutUint32 p" "slice rest 4 6 = PutUint16 s" "slice rest 6 10 = PutUint32 n"
    "slice rest 10 14 = PutUint32 g" using b r(4) by simp_all
  then show ?thesis unfolding e r(1) using r(2,3) by (simp add: PageCreate jrnl_next.simps)
next
  case (PageRetire p a c)
  define buf where "buf = put_at 9 (PutUint32 c) (put_at 5 (PutUint32 a)
    (put_at 1 (PutUint32 p) (put_at 0 [jrnlPageRetire] (replicate 17 0))))"
  have b: "length buf = 13 + 4" "buf ! 0 = 2" "slice buf 1 5 = PutUint32 p" "slice buf 5 9 = PutUint32 a"
    "slice buf 9 13 = PutUint32 c"
    by (simp_all add: buf_def wire)
  have e: "entry_bytes e = sealed 13 buf"
    by (simp add: PageRetire appendPageRetire_def buf_def sealed_def Let_def)
  obtain rest where r: "sealed 13 buf = 2 # rest" "length rest = 16"
    "ChecksumIEEE (2 # take 12 rest) = Uint32 (slice rest 12 16)"
    "\<And>i j. i \<le> j \<Longrightarrow> Suc j \<le> 13 \<Longrightarrow> slice rest i j = slice buf (Suc i) (Suc j)"
    using sealed_Cons [OF b(1)] b(2) by auto
  have "slice rest 0 4 = PutUint32 p" "slice rest 4 8 = PutUint32 a" "slice rest 8 12 = PutUint32 c"
    using b r(4) by simp_all
  then show ?thesis unfolding e r(1) using r(2,3) by (simp add: PageRetire jrnl_next.simps)
next
  case (QueueDrop d q)
  define op where "op = (if d then jrnlQueueDropBegin else jrnlQueueDropEnd)"
  define buf where "buf = put_at 1 (PutUint32 q) (put_at 0 [op] (replicate 9 0))"
  have b: "length buf = 5 + 4" "buf ! 0 = op" "slice buf 1 5 = PutUint32 q"
    by (simp_all add: buf_def wire)
  have e: "entry_bytes e = sealed 5 buf"
    by (simp add: QueueDrop appendQueueDrop_def buf_def sealed_def Let_def op_def)
  obtain rest where r: "sealed 5 buf = op # rest" "length rest = 8"
    "ChecksumIEEE (op # take 4 rest) = Uint32 (slice rest 4 8)"
    "\<And>i j. i \<le> j \<Longrightarrow> Suc j \<le> 5 \<Longrightarrow> slice rest i j = slice buf (Suc i) (Suc j)"
    using sealed_Cons [OF b(1)] b(2) by auto
  have "slice rest 0 4 = PutUint32 q" using b r(4) by simp
  moreover have "op = 3 \<or> op = 4" by (simp add: op_def)
  moreover have "entry_rec e = jrnl_zero\<lparr>j_op := op, j_queueID := q\<rparr>" by (simp add: QueueDrop op_def)
  ultimately show ?thesis unfolding e r(1) using r(2,3) by (auto simp: jrnl_next.simps)
qed

lemma entry_bytes_Cons:
  "\<exists>rest. entry_bytes e = j_op (entry_rec e) # rest \<and>
     length rest = (case e of PageCreate _ _ _ _ \<Rightarrow> 18 | PageRetire _ _ _ \<Rightarrow> 16 | QueueDrop _ _ \<Rightarrow> 8)"
proof -
  have "length (entry_bytes e) = Suc (case e of PageCreate _ _ _ _ \<Rightarrow> 18 | PageRetire _ _ _ \<Rightarrow> 16 | QueueDrop _ _ \<Rightarrow> 8)"
    by (cases e) (simp_all add: appendPageCreate_def appendPageRetire_def appendQueueDrop_def Let_def)
  moreover have "entry_bytes e ! 0 = j_op (entry_rec e)"
    by (cases e) (simp_all add: appendPageCreate_def appendPageRetire_def appendQueueDrop_def Let_def jrnl_zero_def wire)
  ultimately show ?thesis by (cases "entry_bytes e") auto
qed

lemma jrnl_next_torn: "n < length (entry_bytes e) \<Longrightarrow> jrnl_next (take n (entry_bytes e)) = JStop"
proof -
  assume n: "n < length (entry_bytes e)"
  obtain rest where r: "entry_bytes e = j_op (entry_rec e) # rest"
    "length rest = (case e of PageCreate _ _ _ _ \<Rightarrow> 18 | PageRetire _ _ _ \<Rightarrow> 16 | QueueDrop _ _ \<Rightarrow> 8)"
    using entry_bytes_Cons by blast
  show ?thesis
    using n r by (cases n; cases e) (auto simp: jrnl_next.simps jrnl_zero_def)
qed

lemma jrnl_loop_entries:
  "jrnl_loop b (concat (map entry_bytes es) @ tail) =
    (case jrnl_loop (b \<or> es \<noteq> []) tail of Inl e \<Rightarrow> Inl e | Inr rs \<Rightarrow> Inr (map entry_rec es @ rs))"
proof (induction es arbitrary: b)
  case Nil
  then show ?case by (simp split: sum.split)
next
  case (Cons e es)
  show ?case
    by (subst jrnl_loop.simps) (simp add: jrnl_next_entry Cons.IH split: sum.split)
qed

lemma jrnl_loop_stop: "jrnl_next tail = JStop \<Longrightarrow> jrnl_loop b tail = Inr []"
  by (subst jrnl_loop.simps) simp

section \<open>Properties\<close>

text \<open>C39. The page-store journal survives a torn tail: if the file holds complete entries followed by a
  proper prefix of one more entry (possibly empty), \<open>replay\<close> returns exactly the complete entries, in
  order and with every field, and no error.\<close>

theorem journal_replay_torn:
  assumes "n < length (entry_bytes e)"
  shows "jrnl_replay (concat (map entry_bytes es) @ take n (entry_bytes e)) = Inr (map entry_rec es)"
  unfolding jrnl_replay_def jrnl_loop_entries jrnl_loop_stop [OF jrnl_next_torn [OF assms]] by simp

theorem journal_replay_torn_witness:
  "jrnl_replay (entry_bytes (PageCreate 1 2 1 0) @ take 5 (entry_bytes (PageRetire 1 0 1))) =
     Inr [entry_rec (PageCreate 1 2 1 0)]"
  using journal_replay_torn [of 5 "PageRetire 1 0 1" "[PageCreate 1 2 1 0]"]
    entry_bytes_Cons [of "PageRetire 1 0 1"] by auto

text \<open>C40. A checksum mismatch in the last entry is a hard failure whenever an earlier entry exists, although
  the comment of \<open>replay\<close> promises that a mismatch at the tail stops the scan: a full-length last page
  record whose checksum bytes are wrong makes \<open>replay\<close> return an error, so the store does not open;
  the same bytes alone are accepted as an empty journal.\<close>

theorem journal_bad_tail_is_fatal:
  assumes "length tail = 18" "ChecksumIEEE (jrnlPageCreate # take 14 tail) \<noteq> Uint32 (slice tail 14 18)"
  shows "jrnl_replay (concat (map entry_bytes es) @ jrnlPageCreate # tail) =
    (if es = [] then Inr [] else Inl (JrnlCRC jrnlPageCreate))"
proof -
  have "jrnl_next (jrnlPageCreate # tail) = JBad jrnlPageCreate"
    using assms by (simp add: jrnl_next.simps)
  then have "jrnl_loop b (jrnlPageCreate # tail) = (if b then Inl (JrnlCRC jrnlPageCreate) else Inr [])" for b
    by (subst jrnl_loop.simps) simp
  then show ?thesis unfolding jrnl_replay_def jrnl_loop_entries by auto
qed

theorem journal_bad_tail_is_fatal_witness:
  "jrnl_replay (entry_bytes (PageCreate 1 2 1 0) @ jrnlPageCreate # replicate 18 0) = Inl (JrnlCRC jrnlPageCreate)"
proof -
  have z: "replicate 14 (0 :: u8) = [0, 0, 0, 0, 0, 0, 0, 0, 0, 0, 0, 0, 0, 0]" "replicate 4 (0 :: u8) = [0, 0, 0, 0]"
    by (simp_all add: eval_nat_numeral)
  have "ChecksumIEEE (jrnlPageCreate # replicate 14 0) \<noteq> Uint32 (replicate 4 0)"
    unfolding z by (simp add: crc_eval Uint32_def)
  then show ?thesis
    using journal_bad_tail_is_fatal [of "replicate 18 0" "[PageCreate 1 2 1 0]"] by (simp add: slice_def)
qed

end
