(* ===== verification/Store.thy ===== *)
theory Store
  imports Page Journal
begin

text \<open>
  \<open>internal/pagestore/store.go\<close>: the shared payload store.  The state is the Go struct together with the
  directory \<open>pages/\<close> (an image per page id) and the bytes of \<open>store.log\<close>.  A payload slice is given by
  its page and byte range, because it aliases the mapped page.  The order of the list \<open>st_pgs\<close> stands
  for the iteration order of the Go map.  Outcomes of system calls are parameters: \<open>page_io\<close> for the
  running store, \<open>open_io\<close> for the replay of the journal.  Munmap and closing a file are taken to succeed.
\<close>

section \<open>State\<close>

record Store =
  st_files :: "(u32 \<times> image) list"
  st_jnl :: bytes
  st_pgs :: "(u32 \<times> page) list"
  st_nextID :: u32
  st_active :: "u32 list"

text \<open>
  \<open>pio_journal = Some n\<close>: the journal write or its fsync failed after \<open>n\<close> bytes reached the file.
  \<open>pio_remove\<close> is the outcome of \<open>os.Remove\<close> of the page file, which the code ignores.
\<close>

record page_io =
  pio_open :: bool
  pio_truncate :: bool
  pio_journal :: "nat option"
  pio_mmap :: bool
  pio_remove :: bool

definition pio_ok :: page_io where
  "pio_ok = \<lparr>pio_open = True, pio_truncate = True, pio_journal = None, pio_mmap = True, pio_remove = True\<rparr>"

text \<open>Outcomes of opening, mapping and removing the file of a page during the replay of the journal.\<close>

record open_io =
  oio_open :: "u32 \<Rightarrow> bool"
  oio_mmap :: "u32 \<Rightarrow> bool"
  oio_remove :: "u32 \<Rightarrow> bool"

definition oio_ok :: open_io where
  "oio_ok = \<lparr>oio_open = (\<lambda>_. True), oio_mmap = (\<lambda>_. True), oio_remove = (\<lambda>_. True)\<rparr>"

datatype store_error =
    AllocZero | PageIO | PageNotFound u32 | OutOfBounds u32 | JournalErr jrnl_error | HeaderErr u32 header_error

definition zero_image :: image where
  "zero_image = \<lparr>im_header = replicate 32 0, im_words = (\<lambda>_. 0), im_mem = (\<lambda>_. 0)\<rparr>"

definition journal_write :: "page_io \<Rightarrow> bytes \<Rightarrow> Store \<Rightarrow> Store" where
  "journal_write io bs s =
    s\<lparr>st_jnl := st_jnl s @ (case pio_journal io of None \<Rightarrow> bs | Some n \<Rightarrow> take n bs)\<rparr>"

definition put_page :: "u32 \<Rightarrow> page \<Rightarrow> image \<Rightarrow> Store \<Rightarrow> Store" where
  "put_page k pg im s =
    s\<lparr>st_pgs := AList.update k pg (st_pgs s), st_files := AList.update k im (st_files s)\<rparr>"

section \<open>Creating pages\<close>

text \<open>
  The part that slab and jumbo pages share: create and truncate the file, journal the creation, map
  the file.  A failed mapping leaves the zeroed file and the journal entry behind; a failed truncation
  or journal write removes the file again, unless that fails too.
\<close>

definition create_file :: "page_io \<Rightarrow> u32 \<Rightarrow> bytes \<Rightarrow> Store \<Rightarrow> bool \<times> Store" where
  "create_file io pgID entry s =
    (if \<not> pio_open io \<or> map_of (st_files s) pgID \<noteq> None then (False, s)
     else
       (let s1 = s\<lparr>st_files := AList.update pgID zero_image (st_files s)\<rparr>;
            undo = (if pio_remove io then s else s1) in
        if \<not> pio_truncate io then (False, undo)
        else if pio_journal io \<noteq> None then (False, journal_write io entry undo)
        else (pio_mmap io, journal_write io entry s1)))"

definition newSlabPage :: "page_io \<Rightarrow> nat \<Rightarrow> Store \<Rightarrow> (store_error + page \<times> image \<times> u32) \<times> Store" where
  "newSlabPage io sci s =
    (let pgID = st_nextID s; s1 = s\<lparr>st_nextID := st_nextID s + 1\<rparr> in
     (case create_file io pgID (appendPageCreate pgID (word_of_nat sci) 1 0) s1 of
        (False, s2) \<Rightarrow> (Inl PageIO, s2)
      | (True, s2) \<Rightarrow>
          (let h = NewSlabHeader pgID (word_of_nat sci);
               im = zero_image\<lparr>im_header := WriteHeader (im_header zero_image) h\<rparr>;
               pg = \<lparr>pg_dataLen = uint PageSize, pg_pageID = pgID, pg_jumbo = False,
                     pg_sizeClass = SizeClasses ! sci, pg_spanPages = 1, pg_capacity = h_Capacity h,
                     pg_slotsStart = h_SlotsStart h, pg_freeCount = 0, pg_hint = 0\<rparr>;
               (pg1, im1) = initBitmap pg im
           in (Inr (pg1, im1, pgID), put_page pgID pg1 im1 s2))))"

definition newJumboPage :: "page_io \<Rightarrow> u32 \<Rightarrow> Store \<Rightarrow> (store_error + SlotRef \<times> int \<times> int) \<times> Store" where
  "newJumboPage io n s =
    (let spanPages = SpanPagesFor n; totalSize = uint spanPages * uint PageSize;
         pgID = st_nextID s; s1 = s\<lparr>st_nextID := st_nextID s + 1\<rparr> in
     (case create_file io pgID (appendPageCreate pgID 0xFFFF (ucast spanPages) 0) s1 of
        (False, s2) \<Rightarrow> (Inl PageIO, s2)
      | (True, s2) \<Rightarrow>
          (let h = NewJumboHeader pgID spanPages;
               im = zero_image\<lparr>im_header := WriteHeader (im_header zero_image) h\<rparr>;
               pg = \<lparr>pg_dataLen = totalSize, pg_pageID = pgID, pg_jumbo = True, pg_sizeClass = 0,
                     pg_spanPages = ucast spanPages, pg_capacity = 0, pg_slotsStart = HeaderSize,
                     pg_freeCount = 0, pg_hint = 0\<rparr>
           in (Inr (Pack pgID HeaderSize, uint HeaderSize, totalSize), put_page pgID pg im s2))))"

section \<open>Allocation\<close>

definition slot_result :: "u32 \<Rightarrow> page \<Rightarrow> u32 \<Rightarrow> SlotRef \<times> int \<times> int" where
  "slot_result pgID pg slotIdx =
    (let off = slotOffset pg slotIdx in (Pack pgID off, uint off, uint (off + pg_sizeClass pg)))"

definition alloc_fresh :: "page_io \<Rightarrow> nat \<Rightarrow> Store \<Rightarrow> (store_error + SlotRef \<times> int \<times> int) \<times> Store" where
  "alloc_fresh io sci s =
    (case newSlabPage io sci s of
       (Inl e, s1) \<Rightarrow> (Inl e, s1)
     | (Inr (pg, im, pgID), s1) \<Rightarrow>
         (let s2 = s1\<lparr>st_active := (st_active s1)[sci := pgID]\<rparr>;
              (r, pg1, im1) = allocSlot pg im;
              slotIdx = (case r of None \<Rightarrow> 0 | Some i \<Rightarrow> i)
          in (Inr (slot_result pgID pg1 slotIdx), put_page pgID pg1 im1 s2)))"

definition allocSlab :: "page_io \<Rightarrow> u32 \<Rightarrow> Store \<Rightarrow> (store_error + SlotRef \<times> int \<times> int) \<times> Store" where
  "allocSlab io n s =
    (let sci = nat (SizeClassFor n); pgID = st_active s ! sci;
         s0 = s\<lparr>st_active := (st_active s)[sci := 0]\<rparr> in
     if pgID = 0 then alloc_fresh io sci s
     else
       (case (map_of (st_pgs s) pgID, map_of (st_files s) pgID) of
          (Some pg, Some im) \<Rightarrow>
            (case allocSlot pg im of
               (Some slotIdx, pg1, im1) \<Rightarrow> (Inr (slot_result pgID pg1 slotIdx), put_page pgID pg1 im1 s)
             | (None, _, _) \<Rightarrow> alloc_fresh io sci s0)
        | _ \<Rightarrow> alloc_fresh io sci s0))"

definition Alloc :: "page_io \<Rightarrow> u32 \<Rightarrow> Store \<Rightarrow> (store_error + SlotRef \<times> int \<times> int) \<times> Store" where
  "Alloc io n s =
    (if n = 0 then (Inl AllocZero, s)
     else if JumboThreshold < n then newJumboPage io n s
     else allocSlab io n s)"

section \<open>Reading and writing payloads\<close>

definition image_byte :: "page \<Rightarrow> image \<Rightarrow> nat \<Rightarrow> u8" where
  "image_byte pg im i =
    (if i < 32 then im_header im ! i
     else if \<not> pg_jumbo pg \<and> i < 32 + 8 * numWords pg
       then ucast (drop_bit (8 * ((i - 32) mod 8)) (im_words im ((i - 32) div 8)))
     else im_mem im i)"

definition store_Read :: "SlotRef \<Rightarrow> Store \<Rightarrow> store_error + bytes" where
  "store_Read ref s =
    (case (map_of (st_pgs s) (PageID ref), map_of (st_files s) (PageID ref)) of
       (Some pg, Some im) \<Rightarrow>
         (let off = Offset ref;
              len = word_of_int (pg_dataLen pg) :: u32;
              end = (if pg_jumbo pg then len else off + pg_sizeClass pg) in
          if len < end then Inl (OutOfBounds off)
          else Inr (map (image_byte pg im) [unat off..<unat end]))
     | _ \<Rightarrow> Inl (PageNotFound (PageID ref)))"

text \<open>\<open>copy(slice, bs)\<close> into a slice of page \<open>pgID\<close> that starts at \<open>off\<close> and is at least as long as \<open>bs\<close>.\<close>

definition store_copy :: "u32 \<Rightarrow> nat \<Rightarrow> bytes \<Rightarrow> Store \<Rightarrow> Store" where
  "store_copy pgID off bs s =
    (case map_of (st_files s) pgID of
       None \<Rightarrow> s
     | Some im \<Rightarrow>
         s\<lparr>st_files := AList.update pgID
             (im\<lparr>im_mem := \<lambda>i. if off \<le> i \<and> i < off + length bs then bs ! (i - off) else im_mem im i\<rparr>)
             (st_files s)\<rparr>)"

section \<open>Release\<close>

definition doReclaim :: "page_io \<Rightarrow> u32 \<Rightarrow> image \<Rightarrow> Store \<Rightarrow> Store" where
  "doReclaim io pgID im s =
    (journal_write io (appendPageRetire pgID (pg_gen im) (pg_gen im + 1)) s)
      \<lparr>st_files := (if pio_remove io then AList.delete pgID (st_files s)
                   else AList.update pgID (im\<lparr>im_header := snd (BumpGen (im_header im))\<rparr>) (st_files s))\<rparr>"

definition ref_slot :: "SlotRef \<Rightarrow> page \<Rightarrow> u32" where
  "ref_slot ref pg = (Offset ref - pg_slotsStart pg) div pg_sizeClass pg"

definition Release :: "page_io \<Rightarrow> SlotRef \<Rightarrow> Store \<Rightarrow> (store_error + unit) \<times> Store" where
  "Release io ref s =
    (let pgID = PageID ref in
     (case (map_of (st_pgs s) pgID, map_of (st_files s) pgID) of
        (Some pg, Some im) \<Rightarrow>
          (if pg_jumbo pg then
             (Inr (), doReclaim io pgID im (s\<lparr>st_pgs := AList.delete pgID (st_pgs s)\<rparr>))
           else
             (let sci = SizeClassFor (pg_sizeClass pg); (full, pg1, im1) = freeSlot (ref_slot ref pg) pg im in
              if full then
                (let s1 = s\<lparr>st_pgs := AList.delete pgID (st_pgs s)\<rparr>;
                     s2 = (if 0 \<le> sci \<and> st_active s ! nat sci = pgID
                           then s1\<lparr>st_active := (st_active s)[nat sci := 0]\<rparr> else s1)
                 in (Inr (), doReclaim io pgID im1 s2))
              else
                (let s1 = put_page pgID pg1 im1 s in
                 (Inr (), if 0 \<le> sci \<and> st_active s ! nat sci = 0
                          then s1\<lparr>st_active := (st_active s)[nat sci := pgID]\<rparr> else s1))))
      | _ \<Rightarrow> (Inl (PageNotFound pgID), s)))"

section \<open>Opening and recovery\<close>

text \<open>
  \<open>mmapExisting\<close> on a page whose file exists; a missing file is a case of \<open>replay_loop\<close>, where the
  code asks \<open>os.IsNotExist\<close>.  The free counter of the new page is zero until \<open>RebuildVolatile\<close>.
\<close>

definition mmapExisting :: "open_io \<Rightarrow> u32 \<Rightarrow> u32 \<Rightarrow> image \<Rightarrow> store_error + page" where
  "mmapExisting io pageID spanPages im =
    (if \<not> oio_open io pageID \<or> \<not> oio_mmap io pageID then Inl PageIO
     else
       (case ReadHeader (im_header im) of
          (h, Some e) \<Rightarrow> Inl (HeaderErr pageID e)
        | (h, None) \<Rightarrow>
            Inr \<lparr>pg_dataLen = uint spanPages * uint PageSize, pg_pageID = pageID, pg_jumbo = IsJumbo h,
                 pg_sizeClass = (case SlotSize h of None \<Rightarrow> 0 | Some sz \<Rightarrow> sz),
                 pg_spanPages = ucast (h_SpanPages h), pg_capacity = h_Capacity h,
                 pg_slotsStart = h_SlotsStart h, pg_freeCount = 0, pg_hint = 0\<rparr>))"

definition retire_file :: "open_io \<Rightarrow> u32 \<Rightarrow> u32 \<Rightarrow> (u32 \<times> image) list \<Rightarrow> (u32 \<times> image) list" where
  "retire_file io pageID newGen files =
    (if oio_remove io pageID then AList.delete pageID files
     else (case map_of files pageID of
             None \<Rightarrow> files
           | Some im \<Rightarrow> AList.update pageID (im\<lparr>im_header := SetGen (im_header im) newGen\<rparr>) files))"

fun replay_loop :: "open_io \<Rightarrow> jrnlRecord list \<Rightarrow> Store \<Rightarrow> store_error + Store" where
  "replay_loop io [] s = Inr s"
| "replay_loop io (r # rs) s =
    (if j_op r = jrnlPageCreate then
       (case map_of (st_files s) (j_pageID r) of
          None \<Rightarrow> replay_loop io rs s
        | Some im \<Rightarrow>
            (case mmapExisting io (j_pageID r) (j_spanPages r) im of
               Inl e \<Rightarrow> Inl e
             | Inr pg \<Rightarrow>
                 replay_loop io rs (s\<lparr>st_pgs := AList.update (j_pageID r) pg (st_pgs s),
                   st_nextID := (if st_nextID s \<le> j_pageID r then j_pageID r + 1 else st_nextID s)\<rparr>)))
     else if j_op r = jrnlPageRetire then
       (case map_of (st_pgs s) (j_pageID r) of
          None \<Rightarrow> replay_loop io rs s
        | Some pg \<Rightarrow> replay_loop io rs (s\<lparr>st_pgs := AList.delete (j_pageID r) (st_pgs s),
                                       st_files := retire_file io (j_pageID r) (j_newGen r) (st_files s)\<rparr>))
     else replay_loop io rs s)"

definition store_Open :: "open_io \<Rightarrow> (u32 \<times> image) list \<Rightarrow> bytes \<Rightarrow> store_error + Store" where
  "store_Open io files jnl =
    (case jrnl_replay jnl of
       Inl e \<Rightarrow> Inl (JournalErr e)
     | Inr records \<Rightarrow>
         replay_loop io records
           \<lparr>st_files = files, st_jnl = jnl, st_pgs = [], st_nextID = 1, st_active = replicate 14 0\<rparr>)"

definition store_Close :: "Store \<Rightarrow> Store" where
  "store_Close s = s\<lparr>st_pgs := []\<rparr>"

definition stamp :: "page \<Rightarrow> (nat \<Rightarrow> u64) \<Rightarrow> SlotRef \<Rightarrow> nat \<Rightarrow> u64" where
  "stamp pg ws r =
    (let slotIdx = ref_slot r pg; wi = unat (slotIdx div 64) in
     ws(wi := ws wi OR push_bit (unat (slotIdx mod 64)) 1))"

definition rebuild_page :: "SlotRef list \<Rightarrow> page \<Rightarrow> image \<Rightarrow> page \<times> image" where
  "rebuild_page refs pg im =
    (let im1 = im\<lparr>im_words := foldl (stamp pg) (\<lambda>i. if i < numWords pg then 0 else im_words im i) refs\<rparr>
     in (rebuildFreeCount pg im1, im1))"

definition page_refs :: "u32 \<Rightarrow> SlotRef list \<Rightarrow> SlotRef list" where
  "page_refs k refs = filter (\<lambda>r. PageID r = k) refs"

fun rebuild_pages :: "SlotRef list \<Rightarrow> (u32 \<times> page) list \<Rightarrow> Store \<Rightarrow> Store" where
  "rebuild_pages refs [] s = s"
| "rebuild_pages refs ((k, pg) # ps) s =
    (case map_of (st_files s) k of
       Some im \<Rightarrow>
         (if pg_jumbo pg then rebuild_pages refs ps s
          else (case rebuild_page (page_refs k refs) pg im of
                  (pg1, im1) \<Rightarrow> rebuild_pages refs ps (put_page k pg1 im1 s)))
     | None \<Rightarrow> rebuild_pages refs ps s)"

definition active_for :: "(u32 \<times> page) list \<Rightarrow> nat \<Rightarrow> u32" where
  "active_for pgs i =
    (case find (\<lambda>(k, pg). \<not> pg_jumbo pg \<and> SizeClassFor (pg_sizeClass pg) = int i \<and> hasFreeSlot pg) pgs of
       None \<Rightarrow> 0 | Some (k, pg) \<Rightarrow> k)"

fun reclaim_orphans :: "page_io \<Rightarrow> u32 list \<Rightarrow> Store \<Rightarrow> Store" where
  "reclaim_orphans io [] s = s"
| "reclaim_orphans io (k # ids) s =
    (case (map_of (st_pgs s) k, map_of (st_files s) k) of
       (Some pg, Some im) \<Rightarrow>
         reclaim_orphans io ids (doReclaim io k im (s\<lparr>st_pgs := AList.delete k (st_pgs s)\<rparr>))
     | _ \<Rightarrow> reclaim_orphans io ids s)"

definition RebuildVolatile :: "page_io \<Rightarrow> SlotRef list \<Rightarrow> Store \<Rightarrow> Store" where
  "RebuildVolatile io liveRefs s =
    (let orphans = map fst (filter (\<lambda>(k, pg). pg_jumbo pg \<and> page_refs k liveRefs = []) (st_pgs s));
         s1 = rebuild_pages liveRefs (st_pgs s) s;
         s2 = s1\<lparr>st_active := map (active_for (st_pgs s1)) [0..<14]\<rparr>
     in reclaim_orphans io orphans s2)"

section \<open>Fsync\<close>

text \<open>\<open>Sync\<close>; \<open>fs k\<close> is the outcome of the fsync of page \<open>k\<close>'s file.\<close>

fun sync_loop :: "(u32 \<Rightarrow> bool) \<Rightarrow> u32 list \<Rightarrow> SlotRef list \<Rightarrow> Store \<Rightarrow> bool" where
  "sync_loop fs seen [] s = True"
| "sync_loop fs seen (r # rs) s =
    (let pgID = PageID r in
     if pgID \<in> set seen then sync_loop fs seen rs s
     else (case map_of (st_pgs s) pgID of
             Some _ \<Rightarrow> (if fs pgID then sync_loop fs (pgID # seen) rs s else False)
           | None \<Rightarrow> sync_loop fs (pgID # seen) rs s))"

definition store_Sync :: "(u32 \<Rightarrow> bool) \<Rightarrow> SlotRef list \<Rightarrow> Store \<Rightarrow> bool" where
  "store_Sync fs refs s = sync_loop fs [] refs s"

section \<open>Statistics\<close>

definition page_live :: "page \<Rightarrow> int" where
  "page_live pg =
    (if pg_jumbo pg then pg_dataLen pg - uint HeaderSize
     else sint (pg_capacity pg - pg_freeCount pg) * uint (pg_sizeClass pg))"

definition store_Stats :: "Store \<Rightarrow> int \<times> int \<times> int" where
  "store_Stats s =
    (int (length (st_pgs s)), sum_list (map (page_live \<circ> snd) (st_pgs s)),
     sum_list (map (pg_dataLen \<circ> snd) (st_pgs s)))"

end
