(* ===== verification/Index.thy ===== *)
theory Index
  imports Store Crc32
begin

text \<open>
  \<open>internal/index/index.go\<close>: the message index of a queue.  The map \<open>live\<close> is an association list whose
  order stands for the iteration order of the Go map; \<open>ix_file\<close> is the content of \<open>index.dat\<close>
  (\<open>None\<close> while there is none).  The page store that the Go struct points to is passed to the two
  operations that use it.  The main lemmas are the round trip of the slot codec and of a whole
  checkpoint, and the detection of damaged checkpoints.
\<close>

section \<open>State\<close>

abbreviation "StateDelayed \<equiv> (1 :: u8)"
abbreviation "StateReady \<equiv> (2 :: u8)"
abbreviation "StateInflight \<equiv> (3 :: u8)"
abbreviation "StateAcked \<equiv> (4 :: u8)"
abbreviation "StateDead \<equiv> (5 :: u8)"

definition entrySize :: nat where "entrySize = 72"
definition headerSize :: nat where "headerSize = 16"
definition slotCRCOff :: nat where "slotCRCOff = 56"

lemmas index_sizes = entrySize_def headerSize_def slotCRCOff_def

record Slot =
  s_MsgID :: u64
  s_EnqueuedAtMs :: i64
  s_AvailableAtMs :: i64
  s_LeaseUntilMs :: i64
  s_PayloadRef :: u64
  s_PayloadLen :: u32
  s_Priority :: u8
  s_State :: u8
  s_Attempts :: u16
  s_LeaseNonce :: u64

record entry =
  e_ref :: u64
  e_slot :: Slot

record Index =
  ix_live :: "(u64 \<times> entry) list"
  ix_checkpointLSN :: u64
  ix_file :: "bytes option"

section \<open>Operations on the map\<close>

definition CheckpointLSN :: "Index \<Rightarrow> u64" where
  "CheckpointLSN idx = ix_checkpointLSN idx"

definition AllocSlot :: "page_io \<Rightarrow> Store \<Rightarrow> (store_error + u64) \<times> Store" where
  "AllocSlot io pages =
    (case Alloc io (SizeClasses ! 0) pages of
       (Inl e, p) \<Rightarrow> (Inl e, p)
     | (Inr (ref, _), p) \<Rightarrow> (Inr ref, p))"

definition Put :: "u64 \<Rightarrow> Slot \<Rightarrow> Index \<Rightarrow> Index" where
  "Put ref s idx = idx\<lparr>ix_live := AList.update ref \<lparr>e_ref = ref, e_slot = s\<rparr> (ix_live idx)\<rparr>"

definition GetByRef :: "u64 \<Rightarrow> Index \<Rightarrow> Slot option" where
  "GetByRef ref idx = map_option e_slot (map_of (ix_live idx) ref)"

definition FreeSlot :: "page_io \<Rightarrow> u64 \<Rightarrow> Index \<Rightarrow> Store \<Rightarrow> Index \<times> Store" where
  "FreeSlot io ref idx pages =
    (idx\<lparr>ix_live := AList.delete ref (ix_live idx)\<rparr>, snd (Release io ref pages))"

text \<open>\<open>Scan\<close> and \<open>ScanPayloadPage\<close> call back on the pairs of the list, in this order.\<close>

definition Scan :: "Index \<Rightarrow> (u64 \<times> Slot) list" where
  "Scan idx = map (\<lambda>(ref, e). (ref, e_slot e)) (ix_live idx)"

definition ScanPayloadPage :: "u32 \<Rightarrow> Index \<Rightarrow> (u64 \<times> Slot) list" where
  "ScanPayloadPage pageID idx =
    map (\<lambda>(ref, e). (ref, e_slot e)) (filter (\<lambda>(ref, e). PageID (s_PayloadRef (e_slot e)) = pageID) (ix_live idx))"

definition index_Len :: "Index \<Rightarrow> nat" where
  "index_Len idx = length (ix_live idx)"

section \<open>The checkpoint file\<close>

definition encodeSlot :: "bytes \<Rightarrow> Slot \<Rightarrow> bytes" where
  "encodeSlot b s =
    (let b1 = put_at 48 (PutUint64 (s_LeaseNonce s))
             (put_at 46 (PutUint16 (s_Attempts s))
             (put_at 45 [s_State s]
             (put_at 44 [s_Priority s]
             (put_at 40 (PutUint32 (s_PayloadLen s))
             (put_at 32 (PutUint64 (s_PayloadRef s))
             (put_at 24 (PutUint64 (s_LeaseUntilMs s))
             (put_at 16 (PutUint64 (s_AvailableAtMs s))
             (put_at 8 (PutUint64 (s_EnqueuedAtMs s))
             (put_at 0 (PutUint64 (s_MsgID s)) b)))))))))
     in put_at 56 (PutUint32 (ChecksumIEEE (take 56 b1))) b1)"

definition decodeSlot :: "bytes \<Rightarrow> Slot" where
  "decodeSlot b =
    \<lparr>s_MsgID = Uint64 (slice b 0 8), s_EnqueuedAtMs = Uint64 (slice b 8 16),
     s_AvailableAtMs = Uint64 (slice b 16 24), s_LeaseUntilMs = Uint64 (slice b 24 32),
     s_PayloadRef = Uint64 (slice b 32 40), s_PayloadLen = Uint32 (slice b 40 44),
     s_Priority = b ! 44, s_State = b ! 45, s_Attempts = Uint16 (slice b 46 48),
     s_LeaseNonce = Uint64 (slice b 48 56)\<rparr>"

text \<open>The loop of \<open>encode\<close> writes each entry at its offset in the zeroed buffer.\<close>

fun encode_loop :: "nat \<Rightarrow> entry list \<Rightarrow> bytes \<Rightarrow> bytes" where
  "encode_loop off [] buf = buf"
| "encode_loop off (e # es) buf =
    (let b1 = put_at off (PutUint64 (e_ref e)) buf;
         b2 = put_at (off + 8) (encodeSlot (slice b1 (off + 8) (off + entrySize)) (e_slot e)) b1
     in encode_loop (off + entrySize) es b2)"

definition encode :: "u64 \<Rightarrow> entry list \<Rightarrow> bytes" where
  "encode lsn entries =
    (let buf = replicate (headerSize + length entries * entrySize) 0;
         b1 = put_at 0 (PutUint64 lsn) buf;
         b2 = put_at 8 (PutUint32 (word_of_nat (length entries))) b1
     in encode_loop headerSize entries b2)"

datatype index_error = FileTooShort | SizeMismatch nat nat | EntryCRC nat

function load_loop :: "bytes \<Rightarrow> nat \<Rightarrow> nat \<Rightarrow> (u64 \<times> entry) list \<Rightarrow> index_error + (u64 \<times> entry) list" where
  "load_loop data cnt i live =
    (if i < cnt then
       (let off = headerSize + i * entrySize;
            raw = slice data off (off + entrySize);
            ref = Uint64 (slice raw 0 8);
            slotRaw = slice raw 8 entrySize;
            computed = ChecksumIEEE (take slotCRCOff slotRaw);
            stored = Uint32 (slice slotRaw slotCRCOff (slotCRCOff + 4))
        in if computed \<noteq> stored then Inl (EntryCRC i)
           else load_loop data cnt (Suc i) (AList.update ref \<lparr>e_ref = ref, e_slot = decodeSlot slotRaw\<rparr> live))
     else Inr live)"
  by pat_completeness auto
termination by (relation "measure (\<lambda>(data, cnt, i, live). cnt - i)") auto

declare load_loop.simps [simp del]

definition load :: "bytes \<Rightarrow> Index \<Rightarrow> index_error + Index" where
  "load data idx =
    (if length data < headerSize then Inl FileTooShort
     else
       (let lsn = Uint64 (slice data 0 8); cnt = unat (Uint32 (slice data 8 12)) in
        if length data \<noteq> headerSize + cnt * entrySize
        then Inl (SizeMismatch (length data) (headerSize + cnt * entrySize))
        else (case load_loop data cnt 0 [] of
                Inl e \<Rightarrow> Inl e
              | Inr live \<Rightarrow> Inr (idx\<lparr>ix_live := live, ix_checkpointLSN := lsn\<rparr>))))"

text \<open>\<open>Open\<close>: \<open>ReadErr\<close> is an error of \<open>os.ReadFile\<close> other than a missing file.\<close>

datatype file_read = FileData bytes | NotExist | ReadErr

definition index_Open :: "file_read \<Rightarrow> Index option" where
  "index_Open rd =
    (let idx = \<lparr>ix_live = [], ix_checkpointLSN = 0, ix_file = None\<rparr> in
     (case rd of
        NotExist \<Rightarrow> Some idx
      | ReadErr \<Rightarrow> None
      | FileData data \<Rightarrow>
          (case load data (idx\<lparr>ix_file := Some data\<rparr>) of
             Inl _ \<Rightarrow> Some (idx\<lparr>ix_file := Some data\<rparr>)
           | Inr idx' \<Rightarrow> Some idx')))"

text \<open>
  Outcomes of the calls of \<open>Checkpoint\<close> in order; the temporary file only reaches \<open>index.dat\<close> by the
  rename.
\<close>

record index_io =
  xio_create :: bool
  xio_write :: bool
  xio_sync :: bool
  xio_rename :: bool
  xio_dir :: bool

definition index_Checkpoint :: "index_io \<Rightarrow> u64 \<Rightarrow> Index \<Rightarrow> bool \<times> Index" where
  "index_Checkpoint io lsn idx =
    (let entries = map snd (ix_live idx); idx1 = idx\<lparr>ix_checkpointLSN := lsn\<rparr>; data = encode lsn entries in
     if \<not> xio_create io then (False, idx1)
     else if \<not> xio_write io then (False, idx1)
     else if \<not> xio_sync io then (False, idx1)
     else if \<not> xio_rename io then (False, idx1)
     else (xio_dir io, idx1\<lparr>ix_file := Some data\<rparr>))"

section \<open>Invariant and map behaviour\<close>

definition index_inv :: "Index \<Rightarrow> bool" where
  "index_inv idx \<longleftrightarrow> distinct (map fst (ix_live idx)) \<and> (\<forall>(ref, e) \<in> set (ix_live idx). e_ref e = ref)"

definition slots :: "Index \<Rightarrow> u64 \<rightharpoonup> Slot" where
  "slots idx = (\<lambda>ref. GetByRef ref idx)"

lemma slots_Put [simp]: "slots (Put ref s idx) = (slots idx)(ref \<mapsto> s)"
  by (rule ext) (simp add: slots_def GetByRef_def Put_def)

lemma slots_FreeSlot [simp]: "slots (fst (FreeSlot io ref idx pages)) = (slots idx)(ref := None)"
  by (rule ext) (simp add: slots_def GetByRef_def FreeSlot_def)

lemma GetByRef_slots: "GetByRef ref idx = slots idx ref"
  by (simp add: slots_def)

lemma index_inv_Put [intro]: "index_inv idx \<Longrightarrow> index_inv (Put ref s idx)"
  by (auto simp: index_inv_def Put_def set_alist_update)

lemma index_inv_FreeSlot [intro]: "index_inv idx \<Longrightarrow> index_inv (fst (FreeSlot io ref idx pages))"
  by (auto simp: index_inv_def FreeSlot_def set_alist_delete)

lemma Scan_slots:
  assumes "index_inv idx"
  shows "distinct (map fst (Scan idx))" "map_of (Scan idx) = slots idx"
    "(ref, s) \<in> set (Scan idx) \<longleftrightarrow> slots idx ref = Some s"
proof -
  show d: "distinct (map fst (Scan idx))"
    using assms by (simp add: index_inv_def Scan_def case_prod_beta comp_def)
  show m: "map_of (Scan idx) = slots idx"
    by (rule ext) (simp add: Scan_def slots_def GetByRef_def map_of_map)
  show "(ref, s) \<in> set (Scan idx) \<longleftrightarrow> slots idx ref = Some s"
    using map_of_eq_Some_iff [OF d] by (simp add: m)
qed

section \<open>The codec\<close>

lemma length_encodeSlot [simp]: "length b = 64 \<Longrightarrow> length (encodeSlot b s) = 64"
  by (simp add: encodeSlot_def Let_def)

lemma nth_via_slice: "k < length b \<Longrightarrow> b ! k = slice b k (Suc k) ! 0"
  by (simp add: nth_slice)

lemma decodeSlot_encodeSlot:
  assumes "length b = 64"
  shows "decodeSlot (encodeSlot b s) = s"
  using assms
  by (cases s) (simp add: decodeSlot_def encodeSlot_def Let_def nth_via_slice wire)

lemma encodeSlot_crc:
  assumes "length b = 64"
  shows "Uint32 (slice (encodeSlot b s) 56 60) = ChecksumIEEE (take 56 (encodeSlot b s))"
  using assms by (simp add: encodeSlot_def Let_def wire)

text \<open>The bytes of one entry; the file is a header followed by these.\<close>

definition entry_image :: "entry \<Rightarrow> bytes" where
  "entry_image e = PutUint64 (e_ref e) @ encodeSlot (replicate 64 0) (e_slot e)"

lemma length_entry_image [simp]: "length (entry_image e) = 72"
  by (simp add: entry_image_def)

lemma put_at_append: "length pre = k \<Longrightarrow> put_at k bs (pre @ rest) = pre @ bs @ drop (length bs) rest"
  by (simp add: put_at_def)

lemma encode_loop_images:
  "length pre = off \<Longrightarrow>
   encode_loop off es (pre @ replicate (72 * length es) 0) = pre @ concat (map entry_image es)"
proof (induction es arbitrary: pre off)
  case (Cons e es)
  let ?r = "PutUint64 (e_ref e)" and ?z = "replicate (72 * length es) (0 :: u8)"
  have split: "replicate (72 * length (e # es)) (0 :: u8) = replicate 8 0 @ replicate 64 0 @ ?z"
    by (simp flip: replicate_add)
  have b1: "put_at off ?r (pre @ replicate (72 * length (e # es)) 0) = (pre @ ?r) @ replicate 64 0 @ ?z"
    unfolding split by (simp add: put_at_append Cons.prems)
  have sl: "slice ((pre @ ?r) @ replicate 64 0 @ ?z) (off + 8) (off + 72) = replicate 64 0"
    using Cons.prems by (simp add: slice_def)
  have "put_at (off + 8) (encodeSlot (replicate 64 0) (e_slot e)) ((pre @ ?r) @ replicate 64 0 @ ?z)
      = (pre @ entry_image e) @ ?z"
    using Cons.prems by (subst put_at_append) (simp_all add: entry_image_def)
  then show ?case
    using Cons.IH [of "pre @ entry_image e" "off + 72"] Cons.prems b1 sl by (simp add: entrySize_def)
qed simp

lemma encode_images:
  "encode lsn es = PutUint64 lsn @ PutUint32 (word_of_nat (length es)) @ replicate 4 0 @ concat (map entry_image es)"
proof -
  let ?n = "72 * length es" and ?c = "PutUint32 (word_of_nat (length es))"
  have z: "replicate (headerSize + length es * entrySize) (0 :: u8) = [] @ replicate 8 0 @ replicate 4 0 @ replicate 4 0 @ replicate ?n 0"
    by (simp add: index_sizes mult.commute flip: replicate_add)
  have b1: "put_at 0 (PutUint64 lsn) (replicate (headerSize + length es * entrySize) 0)
      = PutUint64 lsn @ replicate 4 0 @ replicate 4 0 @ replicate ?n 0"
    unfolding z by (subst put_at_append) simp_all
  have b2: "put_at 8 ?c (PutUint64 lsn @ replicate 4 0 @ replicate 4 0 @ replicate ?n 0)
      = (PutUint64 lsn @ ?c @ replicate 4 0) @ replicate ?n 0"
    by (subst put_at_append) simp_all
  show ?thesis
    unfolding encode_def Let_def b1 b2 by (subst encode_loop_images) (simp_all add: index_sizes)
qed

lemma length_images [simp]: "length (concat (map entry_image es)) = 72 * length es"
  by (induction es) simp_all

lemma length_encode [simp]: "length (encode lsn es) = 16 + 72 * length es"
  by (simp add: encode_images)

lemma slice_images:
  "i < length es \<Longrightarrow> slice (concat (map entry_image es)) (72 * i) (72 * i + 72) = entry_image (es ! i)"
proof (induction es arbitrary: i)
  case (Cons e es)
  show ?case
  proof (cases i)
    case 0
    then show ?thesis by (simp add: slice_def)
  next
    case (Suc j)
    then have "slice (concat (map entry_image es)) (72 * j) (72 * j + 72) = entry_image (es ! j)"
      using Cons by simp
    then show ?thesis using Suc by (simp add: slice_def)
  qed
qed simp

lemma slice_encode:
  assumes "i < length es"
  shows "slice (encode lsn es) (headerSize + i * entrySize) (headerSize + i * entrySize + entrySize) = entry_image (es ! i)"
  using slice_images [OF assms] by (simp add: encode_images index_sizes slice_def mult.commute)

text \<open>What the loader finds at one entry.\<close>

definition raw_entry :: "bytes \<Rightarrow> nat \<Rightarrow> bytes" where
  "raw_entry data i = slice data (headerSize + i * entrySize) (headerSize + i * entrySize + entrySize)"

definition crc_good :: "bytes \<Rightarrow> bool" where
  "crc_good raw \<longleftrightarrow> ChecksumIEEE (take 56 (slice raw 8 72)) = Uint32 (slice (slice raw 8 72) 56 60)"

definition raw_decode :: "bytes \<Rightarrow> entry" where
  "raw_decode raw = \<lparr>e_ref = Uint64 (slice raw 0 8), e_slot = decodeSlot (slice raw 8 72)\<rparr>"

lemma load_loop_step:
  "load_loop data n i live =
    (if i < n then
       (if crc_good (raw_entry data i)
        then load_loop data n (Suc i) (AList.update (e_ref (raw_decode (raw_entry data i))) (raw_decode (raw_entry data i)) live)
        else Inl (EntryCRC i))
     else Inr live)"
  by (subst load_loop.simps) (simp add: raw_entry_def crc_good_def raw_decode_def Let_def index_sizes)

lemma raw_entry_image: "crc_good (entry_image e)" "raw_decode (entry_image e) = e"
proof -
  have sl: "slice (entry_image e) 8 72 = encodeSlot (replicate 64 0) (e_slot e)"
    "slice (entry_image e) 0 8 = PutUint64 (e_ref e)" by (simp_all add: entry_image_def slice_def)
  show "crc_good (entry_image e)" by (simp add: crc_good_def sl encodeSlot_crc)
  show "raw_decode (entry_image e) = e" by (simp add: raw_decode_def sl decodeSlot_encodeSlot)
qed

lemma load_loop_encode:
  "i \<le> length es \<Longrightarrow> load_loop (encode lsn es) (length es) i live =
     Inr (foldl (\<lambda>l e. AList.update (e_ref e) e l) live (drop i es))"
proof (induction "length es - i" arbitrary: i live)
  case 0
  then show ?case by (subst load_loop_step) simp
next
  case (Suc m)
  then have i: "i < length es" by simp
  have "raw_entry (encode lsn es) i = entry_image (es ! i)"
    using slice_encode [OF i] by (simp add: raw_entry_def)
  then show ?case
    using Suc.hyps(1) [of "Suc i"] Suc.hyps(2) i
    by (subst load_loop_step) (simp add: raw_entry_image flip: Cons_nth_drop_Suc)
qed

lemma update_fresh: "k \<notin> fst ` set m \<Longrightarrow> AList.update k v m = m @ [(k, v)]"
  by (induction m) auto

lemma foldl_update_fresh:
  "distinct (map fst acc @ map e_ref es) \<Longrightarrow>
   foldl (\<lambda>l e. AList.update (e_ref e) e l) acc es = acc @ map (\<lambda>e. (e_ref e, e)) es"
proof (induction es arbitrary: acc)
  case (Cons e es)
  then have "e_ref e \<notin> fst ` set acc" "distinct (map fst (acc @ [(e_ref e, e)]) @ map e_ref es)" by auto
  then show ?case using Cons.IH [of "acc @ [(e_ref e, e)]"] by (simp add: update_fresh)
qed simp

lemma load_encode:
  assumes "distinct (map e_ref es)" "length es < 2 ^ 32"
  shows "load (encode lsn es) idx = Inr (idx\<lparr>ix_live := map (\<lambda>e. (e_ref e, e)) es, ix_checkpointLSN := lsn\<rparr>)"
proof -
  have f: "Uint64 (slice (encode lsn es) 0 8) = lsn"
    "Uint32 (slice (encode lsn es) 8 12) = word_of_nat (length es)"
    by (simp_all add: encode_images slice_def)
  show ?thesis
    using load_loop_encode [of 0 es lsn "[]"] foldl_update_fresh [of "[]" es] assms
    by (simp add: load_def f Let_def unat_of_nat_u32 index_sizes mult.commute)
qed

lemma load_live:
  assumes "index_inv idx" "length (ix_live idx) < 2 ^ 32"
  shows "load (encode lsn (map snd (ix_live idx))) idx' = Inr (idx'\<lparr>ix_live := ix_live idx, ix_checkpointLSN := lsn\<rparr>)"
proof -
  have r: "map e_ref (map snd (ix_live idx)) = map fst (ix_live idx)"
    "map (\<lambda>e. (e_ref e, e)) (map snd (ix_live idx)) = ix_live idx"
    using assms(1) by (auto simp: index_inv_def intro!: map_idI)
  show ?thesis
    using load_encode [of "map snd (ix_live idx)" lsn idx', unfolded r] assms by (simp add: index_inv_def)
qed

section \<open>Damaged files\<close>

lemma load_loop_bad:
  "j \<le> i \<Longrightarrow> i < n \<Longrightarrow> \<not> crc_good (raw_entry data i) \<Longrightarrow> \<exists>e. load_loop data n j live = Inl e"
proof (induction "i - j" arbitrary: j live)
  case 0
  then show ?case by (subst load_loop_step) simp
next
  case (Suc m)
  then show ?case using Suc.hyps(1) [of "Suc j"] by (subst load_loop_step) auto
qed

lemma crc_good_detects:
  assumes "length raw = 72" "crc_good raw" "8 \<le> k" "k + length bs \<le> 64 \<or> 64 \<le> k \<and> k + length bs \<le> 68"
    "length bs \<le> 4" "put_at k bs raw \<noteq> raw"
  shows "\<not> crc_good (put_at k bs raw)"
proof -
  define w where "w = slice raw 8 72"
  define m where "m = k - 8"
  have k: "k = 8 + m" using assms(3) by (simp add: m_def)
  have raw: "raw = take 8 raw @ w" and len: "length w = 64" "length (take 8 raw) = 8"
    using assms(1) by (simp_all add: w_def slice_def)
  have m: "m + length bs \<le> 56 \<or> 56 \<le> m \<and> m + length bs \<le> 60" using assms(4) k by auto
  have put: "put_at k bs raw = take 8 raw @ put_at m bs w"
    unfolding k by (subst raw) (rule put_at_append_right [OF len(2)])
  then have ne: "put_at m bs w \<noteq> w" using raw assms(6) by metis
  have sl: "slice (put_at k bs raw) 8 72 = put_at m bs w"
    using len m slice_append_mid [OF len(2), of "put_at m bs w" 64 "[]"] unfolding put by auto
  have good: "ChecksumIEEE (take 56 w) = Uint32 (slice w 56 60)" using assms(2) by (simp add: crc_good_def w_def)
  show ?thesis
  proof (cases "m + length bs \<le> 56")
    case True
    have "put_at m bs w = put_at m bs (take 56 w) @ drop 56 w"
      using put_at_append_left [of m bs "take 56 w" "drop 56 w"] True len by simp
    then have t: "take 56 (put_at m bs w) = put_at m bs (take 56 w)" "put_at m bs (take 56 w) \<noteq> take 56 w"
      using ne len True append_take_drop_id [of 56 w] by (auto simp del: append_take_drop_id)
    then have "ChecksumIEEE (put_at m bs (take 56 w)) \<noteq> ChecksumIEEE (take 56 w)"
      using len True assms(5) by (intro ChecksumIEEE_put_at) auto
    moreover have "slice (put_at m bs w) 56 60 = slice w 56 60"
      using len True by (simp add: slice_put_at_above)
    ultimately show ?thesis using good t by (simp add: crc_good_def sl)
  next
    case False
    then have m': "56 \<le> m" "m + length bs \<le> 60" using m by auto
    define c where "c = slice w 56 60"
    define j where "j = m - 56"
    have "c @ drop 60 w = drop 56 w"
      using append_take_drop_id [of 4 "drop 56 w"] by (simp add: c_def slice_def)
    then have wc: "w = take 56 w @ c @ drop 60 w" "length (take 56 w) = 56" "length c = 4"
      using len by (simp_all add: c_def)
    have j: "m = 56 + j" "j + length bs \<le> length c" using m' wc(3) by (simp_all add: j_def)
    have put': "put_at m bs w = take 56 w @ put_at j bs c @ drop 60 w"
      unfolding j(1) by (subst wc(1)) (simp only: put_at_append_right [OF wc(2)] put_at_append_left [OF j(2)])
    have lenj: "length (put_at j bs c) = 4" using j(2) wc(3) by simp
    have "put_at j bs c \<noteq> c" using ne put' wc(1) by metis
    then have "Uint32 (put_at j bs c) \<noteq> Uint32 c"
      using PutUint_Uint(2) [OF wc(3)] PutUint_Uint(2) [OF lenj] by metis
    moreover have "slice (put_at m bs w) 56 60 = put_at j bs c" "take 56 (put_at m bs w) = take 56 w"
      using put' slice_append_mid [OF wc(2) lenj, of "drop 60 w"] wc(2) by simp_all
    ultimately show ?thesis using good by (simp add: crc_good_def sl c_def)
  qed
qed

lemma header_fields:
  "Uint64 (slice (encode lsn es) 0 8) = lsn"
  "Uint32 (slice (encode lsn es) 8 12) = word_of_nat (length es)"
  by (simp_all add: encode_images slice_def)

lemma load_torn:
  assumes "length es < 2 ^ 32" "n < length (encode lsn es)"
  shows "\<exists>e. load (take n (encode lsn es)) idx = Inl e"
proof (cases "n < 16")
  case False
  then have "slice (take n (encode lsn es)) 8 12 = slice (encode lsn es) 8 12"
    by (simp add: slice_def drop_take)
  then show ?thesis
    using False assms by (auto simp: load_def Let_def header_fields index_sizes unat_of_nat_u32)
qed (use assms in \<open>simp add: load_def index_sizes\<close>)

lemma load_corrupt:
  assumes "length es < 2 ^ 32" "i < length es" "8 \<le> k" "k + length bs \<le> 64 \<or> 64 \<le> k \<and> k + length bs \<le> 68"
    "length bs \<le> 4" "put_at (16 + 72 * i + k) bs (encode lsn es) \<noteq> encode lsn es"
  shows "\<exists>e. load (put_at (16 + 72 * i + k) bs (encode lsn es)) idx = Inl e"
proof -
  let ?d = "encode lsn es" and ?p = "16 + 72 * i + k" and ?e = "entry_image (es ! i)"
  define pre where "pre = PutUint64 lsn @ PutUint32 (word_of_nat (length es)) @ replicate 4 0 @ concat (map entry_image (take i es))"
  define post where "post = concat (map entry_image (drop (Suc i) es))"
  have "concat (map entry_image es) = concat (map entry_image (take i es)) @ ?e @ post"
    using arg_cong [OF id_take_nth_drop [OF assms(2)], of "\<lambda>x. concat (map entry_image x)"] by (simp add: post_def)
  then have d: "?d = pre @ ?e @ post" and pre: "length pre = 16 + 72 * i"
    using assms(2) by (simp_all add: encode_images pre_def)
  have fits: "k + length bs \<le> length ?e" using assms(4) by auto
  have put: "put_at ?p bs ?d = pre @ put_at k bs ?e @ post"
    unfolding d by (simp only: put_at_append_right [OF pre] put_at_append_left [OF fits])
  then have "put_at k bs ?e \<noteq> ?e" using assms(6) d by metis
  then have "\<not> crc_good (put_at k bs ?e)"
    using crc_good_detects [OF length_entry_image raw_entry_image(1) assms(3,4,5)] by simp
  moreover have "raw_entry (put_at ?p bs ?d) i = put_at k bs ?e"
    using slice_append_mid [OF pre, of "put_at k bs ?e" 72 post] fits
    unfolding put by (simp add: raw_entry_def index_sizes mult.commute)
  ultimately have "\<exists>e. load_loop (put_at ?p bs ?d) (length es) 0 [] = Inl e"
    using load_loop_bad assms(2) by fastforce
  moreover have "slice (put_at ?p bs ?d) 8 12 = slice ?d 8 12" "length (put_at ?p bs ?d) = 16 + 72 * length es"
    using fits assms(2) by (auto intro!: slice_put_at_below)
  ultimately show ?thesis
    using assms(1) by (auto simp: load_def Let_def header_fields index_sizes unat_of_nat_u32 mult.commute split: sum.splits)
qed

section \<open>Properties of the index\<close>

text \<open>C34. A checkpoint round-trips and is atomic: \<open>Checkpoint(lsn)\<close> leaves the in-memory map alone, and if
  it gets as far as the rename then opening the written \<open>index.dat\<close> restores exactly the index, with
  every slot and the checkpoint LSN; if any earlier call fails, the old file is still there unchanged
  and the failure is reported.\<close>

theorem index_checkpoint_roundtrip:
  assumes "index_inv idx" "length (ix_live idx) < 2 ^ 32" "index_Checkpoint io lsn idx = (ok, idx')"
  shows "ix_live idx' = ix_live idx \<and> CheckpointLSN idx' = lsn \<and>
    (if xio_create io \<and> xio_write io \<and> xio_sync io \<and> xio_rename io
     then ok = xio_dir io \<and> (\<exists>d. ix_file idx' = Some d \<and> index_Open (FileData d) = Some idx')
     else \<not> ok \<and> ix_file idx' = ix_file idx)"
  using assms(3) load_live [OF assms(1,2), of lsn]
  by (auto simp: index_Checkpoint_def index_Open_def CheckpointLSN_def Let_def split: if_splits)

definition sample_slot :: "u64 \<Rightarrow> u64 \<Rightarrow> Slot" where
  "sample_slot m p = Slot.make m 1000 1000 0 p 3 9 StateReady 0 0"

definition sample_index :: Index where
  "sample_index = Put 96 (sample_slot 2 4096) (Put 32 (sample_slot 1 2048) \<lparr>ix_live = [], ix_checkpointLSN = 0, ix_file = None\<rparr>)"

lemma sample_index_ok: "index_inv sample_index" "length (ix_live sample_index) < 2 ^ 32"
proof -
  show "index_inv sample_index" unfolding sample_index_def by (intro index_inv_Put) (simp add: index_inv_def)
  have "length (ix_live sample_index) = 2" by code_simp
  then show "length (ix_live sample_index) < 2 ^ 32" by simp
qed

theorem index_checkpoint_roundtrip_witness:
  "\<exists>d. index_Open (FileData d) = Some (sample_index\<lparr>ix_checkpointLSN := 7, ix_file := Some d\<rparr>) \<and>
     map fst (Scan sample_index) = [32, 96]"
proof -
  obtain ok idx' where c: "index_Checkpoint \<lparr>xio_create = True, xio_write = True, xio_sync = True, xio_rename = True, xio_dir = True\<rparr> 7
      sample_index = (ok, idx')" by force
  have i: "idx' = sample_index\<lparr>ix_checkpointLSN := 7, ix_file := ix_file idx'\<rparr>"
    using c by (auto simp: index_Checkpoint_def Let_def)
  have s: "map fst (Scan sample_index) = [32, 96]" by code_simp
  from index_checkpoint_roundtrip [OF sample_index_ok c] obtain d
    where "ix_file idx' = Some d" "index_Open (FileData d) = Some idx'" by auto
  then show ?thesis using i s by metis
qed

text \<open>C35. A damaged checkpoint is never half used: a file cut short at any length, or one in which up to
  four consecutive bytes of a slot or of its checksum were overwritten with different bytes, opens as
  the empty index with checkpoint LSN 0, so that recovery replays the log from its start.\<close>

theorem index_damage_detected:
  assumes "length es < 2 ^ 32" "n < length (encode lsn es)" "i < length es"
    "8 \<le> k" "k + length bs \<le> 64 \<or> 64 \<le> k \<and> k + length bs \<le> 68" "length bs \<le> 4"
    "put_at (16 + 72 * i + k) bs (encode lsn es) \<noteq> encode lsn es"
  shows "\<forall>d \<in> {take n (encode lsn es), put_at (16 + 72 * i + k) bs (encode lsn es)}.
    index_Open (FileData d) = Some \<lparr>ix_live = [], ix_checkpointLSN = 0, ix_file = Some d\<rparr>"
proof -
  have "\<exists>e. load d idx = Inl e" if "d \<in> {take n (encode lsn es), put_at (16 + 72 * i + k) bs (encode lsn es)}" for d idx
    using that load_torn [OF assms(1,2)] load_corrupt [OF assms(1,3-7)] by auto
  then show ?thesis by (auto simp: index_Open_def Let_def split: sum.split) (metis sum.distinct(1))+
qed

theorem index_damage_detected_witness:
  "\<exists>d. index_Open (FileData (put_at 24 [1] d)) = Some \<lparr>ix_live = [], ix_checkpointLSN = 0, ix_file = Some (put_at 24 [1] d)\<rparr> \<and>
     d = encode 7 [\<lparr>e_ref = 32, e_slot = sample_slot 2 2048\<rparr>]"
proof -
  let ?es = "[\<lparr>e_ref = 32, e_slot = sample_slot 2 2048\<rparr>]"
  have "encode 7 ?es ! 24 = PutUint64 2 ! 0"
    by (simp add: encode_images nth_append entry_image_def encodeSlot_def Let_def nth_put_at sample_slot_def Slot.defs)
  also have "\<dots> = 2" by code_simp
  finally have "encode 7 ?es ! 24 = 2" .
  then have "put_at 24 [1] (encode 7 ?es) \<noteq> encode 7 ?es"
    using nth_put_at [of 24 "[1]" "encode 7 ?es" 24] by auto
  then show ?thesis using index_damage_detected [of ?es 0 7 0 8 "[1]"] by simp
qed

end
