(* ===== verification/Queue_Config.thy ===== *)
theory Queue_Config
  imports Types Wal_Log Index
begin

text \<open>
  \<open>internal/queue/config.go\<close> and \<open>errors.go\<close>: the configuration of a queue, the values its operations take
  and return, and its errors.  A Go \<open>int\<close> that is only compared and counted is an \<open>int\<close>.
\<close>

definition defaultVisibilityMs :: i64 where "defaultVisibilityMs = 30000"
definition defaultMaxDelayMs :: i64 where "defaultMaxDelayMs = 2592000000"

record Config =
  cfg_Name :: string
  cfg_Order :: Order
  cfg_MaxAttempts :: u16
  cfg_VisibilityMs :: i64
  cfg_MaxDelayMs :: i64
  cfg_AgeBoostMs :: i64
  cfg_MaxDepth :: int
  cfg_DurableLeases :: bool

definition visibilityMs :: "Config \<Rightarrow> i64" where
  "visibilityMs c = (if 0 < sint (cfg_VisibilityMs c) then cfg_VisibilityMs c else defaultVisibilityMs)"

definition maxDelayMs :: "Config \<Rightarrow> i64" where
  "maxDelayMs c = (if 0 < sint (cfg_MaxDelayMs c) then cfg_MaxDelayMs c else defaultMaxDelayMs)"

record EnqueueRequest =
  er_Payload :: bytes
  er_Priority :: u8
  er_DelayMs :: i64

record Delivery =
  d_ID :: u64
  d_Payload :: bytes
  d_Priority :: u8
  d_Attempt :: u16
  d_Receipt :: string
  d_LeaseUntilMs :: i64

record DeadMessage =
  dm_ID :: u64
  dm_Payload :: bytes
  dm_Priority :: u8
  dm_Attempts :: u16
  dm_EnqueuedAtMs :: i64
  dm_indexRef :: u64
  dm_payloadRef :: u64

record Stats =
  sta_Ready :: nat
  sta_Delayed :: nat
  sta_Inflight :: nat
  sta_Dead :: nat
  sta_Enqueued :: u64
  sta_Delivered :: u64
  sta_Acked :: u64
  sta_Nacked :: u64
  sta_Expired :: u64
  sta_Replayed :: u64

text \<open>
  The errors of \<open>errors.go\<close>, those passed on from the page store and the log, and \<open>Panic\<close> for a slice
  expression out of range.
\<close>

datatype queue_error =
    ErrNoQueue | ErrNotFound | ErrBadReceipt | ErrDelayTooLong i64 i64 | ErrFull | ErrExists
  | PageErr store_error | SyncErr | CommitErr append_error | ReplayErr scan | IndexErr | Panic

lemma effective_config:
  "0 < sint (visibilityMs c)" "0 < sint (maxDelayMs c)"
proof -
  have "sint (30000 :: i64) = 30000" "sint (2592000000 :: i64) = 2592000000" by code_simp+
  then show "0 < sint (visibilityMs c)" "0 < sint (maxDelayMs c)"
    by (auto simp: visibilityMs_def maxDelayMs_def defaultVisibilityMs_def defaultMaxDelayMs_def)
qed

end
