(* ===== verification/Go_Heap.thy ===== *)
theory Go_Heap
  imports Prelude
begin

text \<open>
  Go's \<open>container/heap\<close>, the part of the standard library on which the ready heap and the timing
  wheels are built: \<open>up\<close>, \<open>down\<close>, \<open>Init\<close>, \<open>Push\<close>, \<open>Pop\<close> and \<open>Remove\<close> over a slice of entries with
  the caller's \<open>Less\<close>.  The locale \<open>strict_weak\<close> states what \<open>container/heap\<close> expects of \<open>Less\<close>;
  inside it the operations are shown to keep the multiset of entries and the heap shape.  The locale
  \<open>prio_queue\<close> is the contract a client of such a heap relies on.
\<close>

section \<open>The operations\<close>

definition swap :: "'a list \<Rightarrow> nat \<Rightarrow> nat \<Rightarrow> 'a list" where
  "swap xs i j = xs[i := xs ! j, j := xs ! i]"

abbreviation par :: "nat \<Rightarrow> nat" where
  "par k \<equiv> (k - 1) div 2"

function up :: "('a \<Rightarrow> 'a \<Rightarrow> bool) \<Rightarrow> 'a list \<Rightarrow> nat \<Rightarrow> 'a list" where
  "up lt xs j =
     (if par j = j \<or> \<not> lt (xs ! j) (xs ! par j) then xs
      else up lt (swap xs (par j) j) (par j))"
  by pat_completeness auto
termination
  by (relation "measure (\<lambda>(lt, xs, j). j)") auto

text \<open>The child \<open>down\<close> compares with: the right one only if it is strictly smaller than the left.\<close>

definition min_child :: "('a \<Rightarrow> 'a \<Rightarrow> bool) \<Rightarrow> 'a list \<Rightarrow> nat \<Rightarrow> nat \<Rightarrow> nat" where
  "min_child lt xs i n =
     (if 2 * i + 2 < n \<and> lt (xs ! (2 * i + 2)) (xs ! (2 * i + 1)) then 2 * i + 2 else 2 * i + 1)"

lemma min_child_gt: "i < min_child lt xs i n"
  by (simp add: min_child_def)

function down_loop :: "('a \<Rightarrow> 'a \<Rightarrow> bool) \<Rightarrow> 'a list \<Rightarrow> nat \<Rightarrow> nat \<Rightarrow> 'a list \<times> nat" where
  "down_loop lt xs i n =
     (if n \<le> 2 * i + 1 then (xs, i)
      else let j = min_child lt xs i n
           in if \<not> lt (xs ! j) (xs ! i) then (xs, i) else down_loop lt (swap xs i j) j n)"
  by pat_completeness auto
termination
  by (relation "measure (\<lambda>(lt, xs, i, n). n - i)") (auto simp: min_child_def)

declare up.simps [simp del] down_loop.simps [simp del]

definition down :: "('a \<Rightarrow> 'a \<Rightarrow> bool) \<Rightarrow> 'a list \<Rightarrow> nat \<Rightarrow> nat \<Rightarrow> 'a list \<times> bool" where
  "down lt xs i0 n = (case down_loop lt xs i0 n of (ys, i) \<Rightarrow> (ys, i0 < i))"

text \<open>\<open>Init\<close> sifts down from the last inner node to the root.\<close>

primrec init_loop :: "('a \<Rightarrow> 'a \<Rightarrow> bool) \<Rightarrow> 'a list \<Rightarrow> nat \<Rightarrow> 'a list" where
  "init_loop lt xs 0 = xs"
| "init_loop lt xs (Suc i) = init_loop lt (fst (down lt xs i (length xs))) i"

definition heap_Init :: "('a \<Rightarrow> 'a \<Rightarrow> bool) \<Rightarrow> 'a list \<Rightarrow> 'a list" where
  "heap_Init lt xs = init_loop lt xs (length xs div 2)"

definition heap_Push :: "('a \<Rightarrow> 'a \<Rightarrow> bool) \<Rightarrow> 'a list \<Rightarrow> 'a \<Rightarrow> 'a list" where
  "heap_Push lt xs x = up lt (xs @ [x]) (length xs)"

text \<open>\<open>Pop\<close> and \<open>Remove\<close> panic on an empty slice; no caller does so, see the users' guards.\<close>

definition heap_Pop :: "('a \<Rightarrow> 'a \<Rightarrow> bool) \<Rightarrow> 'a list \<Rightarrow> 'a \<times> 'a list" where
  "heap_Pop lt xs =
     (let n = length xs - 1; ys = fst (down lt (swap xs 0 n) 0 n) in (last ys, butlast ys))"

definition heap_Remove :: "('a \<Rightarrow> 'a \<Rightarrow> bool) \<Rightarrow> 'a list \<Rightarrow> nat \<Rightarrow> 'a \<times> 'a list" where
  "heap_Remove lt xs i =
     (let n = length xs - 1;
          ys = (if n \<noteq> i
                then (case down lt (swap xs i n) i n of
                        (zs, moved) \<Rightarrow> if moved then zs else up lt zs i)
                else xs)
      in (last ys, butlast ys))"

section \<open>Permutation facts\<close>

lemma length_swap [simp]: "length (swap xs i j) = length xs"
  by (simp add: swap_def)

lemma nth_swap:
  "i < length xs \<Longrightarrow> j < length xs \<Longrightarrow> k < length xs \<Longrightarrow>
   swap xs i j ! k = (if k = j then xs ! i else if k = i then xs ! j else xs ! k)"
  by (auto simp: swap_def nth_list_update)

lemma mset_swap_eq [simp]:
  "i < length xs \<Longrightarrow> j < length xs \<Longrightarrow> mset (swap xs i j) = mset xs"
  by (simp add: swap_def mset_swap)

lemma mset_up: "j < length xs \<Longrightarrow> mset (up lt xs j) = mset xs"
proof (induction lt xs j rule: up.induct)
  case (1 lt xs j)
  then have "par j < length xs" by arith
  with "1" show ?case by (subst up.simps) auto
qed

lemma length_up [simp]: "length (up lt xs j) = length xs"
proof (induction lt xs j rule: up.induct)
  case (1 lt xs j)
  then show ?case by (subst up.simps) auto
qed

lemma up_nth_above: "j < k \<Longrightarrow> k < length xs \<Longrightarrow> j < length xs \<Longrightarrow> up lt xs j ! k = xs ! k"
proof (induction lt xs j rule: up.induct)
  case (1 lt xs j)
  then have "par j < length xs" "par j < k" by arith+
  with "1" show ?case by (subst up.simps) (auto simp: nth_swap)
qed

lemma min_child_less: "2 * i + 1 < n \<Longrightarrow> min_child lt xs i n < n"
  by (simp add: min_child_def)

lemma down_loop_perm:
  "n \<le> length xs \<Longrightarrow> mset (fst (down_loop lt xs i n)) = mset xs
    \<and> length (fst (down_loop lt xs i n)) = length xs \<and> i \<le> snd (down_loop lt xs i n)"
proof (induction lt xs i n rule: down_loop.induct)
  case (1 lt xs i n)
  let ?j = "min_child lt xs i n"
  show ?case
  proof (cases "n \<le> 2 * i + 1 \<or> \<not> lt (xs ! ?j) (xs ! i)")
    case True
    then show ?thesis by (subst (1 2 3) down_loop.simps) (auto simp: Let_def)
  next
    case False
    then have j: "?j < n" "i < ?j" by (auto intro: min_child_less min_child_gt)
    with False "1" show ?thesis
      by (subst (1 2 3) down_loop.simps) (auto simp: Let_def)
  qed
qed

lemma down_loop_nth_beyond:
  "n \<le> k \<Longrightarrow> k < length xs \<Longrightarrow> fst (down_loop lt xs i n) ! k = xs ! k"
proof (induction lt xs i n rule: down_loop.induct)
  case (1 lt xs i n)
  let ?j = "min_child lt xs i n"
  have "\<not> n \<le> 2 * i + 1 \<Longrightarrow> ?j < n \<and> i < ?j" by (auto intro: min_child_less min_child_gt)
  with "1" show ?case by (subst down_loop.simps) (auto simp: Let_def nth_swap)
qed

lemma fst_down [simp]: "fst (down lt xs i n) = fst (down_loop lt xs i n)"
  by (simp add: down_def split: prod.split)

lemma snd_down: "snd (down lt xs i n) \<longleftrightarrow> i < snd (down_loop lt xs i n)"
  by (simp add: down_def split: prod.split)

lemma mset_init_loop: "mset (init_loop lt xs i) = mset xs"
  by (induction i arbitrary: xs) (auto simp: down_loop_perm)

lemma mset_heap_Init [simp]: "mset (heap_Init lt xs) = mset xs"
  by (simp add: heap_Init_def mset_init_loop)

lemma mset_heap_Push [simp]: "mset (heap_Push lt xs x) = add_mset x (mset xs)"
  by (simp add: heap_Push_def mset_up)

lemma length_heap_Push [simp]: "length (heap_Push lt xs x) = Suc (length xs)"
  by (simp add: heap_Push_def)

section \<open>The heap shape\<close>

text \<open>
  \<open>heap_from lt xs lo n\<close>: every node below \<open>n\<close> whose parent is at least \<open>lo\<close> is not less than that
  parent.  With \<open>lo = 0\<close> this is the heap invariant of the first \<open>n\<close> entries.  \<open>hole_down\<close> is the
  invariant of the sift-down loop (the node in the hole may exceed its children), \<open>hole_up\<close> that of
  the sift-up loop (the node in the hole may be less than its parent), and \<open>hole_both\<close> holds after
  \<open>Remove\<close> has put the last entry into the hole, where either may be the case.
\<close>

definition heap_from :: "('a \<Rightarrow> 'a \<Rightarrow> bool) \<Rightarrow> 'a list \<Rightarrow> nat \<Rightarrow> nat \<Rightarrow> bool" where
  "heap_from lt xs lo n \<longleftrightarrow>
     (\<forall>k. 0 < k \<longrightarrow> k < n \<longrightarrow> lo \<le> par k \<longrightarrow> \<not> lt (xs ! k) (xs ! par k))"

definition is_heap :: "('a \<Rightarrow> 'a \<Rightarrow> bool) \<Rightarrow> 'a list \<Rightarrow> bool" where
  "is_heap lt xs \<longleftrightarrow> heap_from lt xs 0 (length xs)"

definition hole_down :: "('a \<Rightarrow> 'a \<Rightarrow> bool) \<Rightarrow> 'a list \<Rightarrow> nat \<Rightarrow> nat \<Rightarrow> nat \<Rightarrow> bool" where
  "hole_down lt xs lo n i \<longleftrightarrow>
     (\<forall>k. 0 < k \<longrightarrow> k < n \<longrightarrow> lo \<le> par k \<longrightarrow> par k \<noteq> i \<longrightarrow> \<not> lt (xs ! k) (xs ! par k)) \<and>
     (\<forall>k. 0 < k \<longrightarrow> k < n \<longrightarrow> par k = i \<longrightarrow> 0 < i \<longrightarrow> lo \<le> par i \<longrightarrow> \<not> lt (xs ! k) (xs ! par i))"

definition hole_both :: "('a \<Rightarrow> 'a \<Rightarrow> bool) \<Rightarrow> 'a list \<Rightarrow> nat \<Rightarrow> nat \<Rightarrow> nat \<Rightarrow> bool" where
  "hole_both lt xs lo n i \<longleftrightarrow>
     (\<forall>k. 0 < k \<longrightarrow> k < n \<longrightarrow> lo \<le> par k \<longrightarrow> par k \<noteq> i \<longrightarrow> k \<noteq> i \<longrightarrow> \<not> lt (xs ! k) (xs ! par k)) \<and>
     (\<forall>k. 0 < k \<longrightarrow> k < n \<longrightarrow> par k = i \<longrightarrow> 0 < i \<longrightarrow> lo \<le> par i \<longrightarrow> \<not> lt (xs ! k) (xs ! par i))"

definition hole_up :: "('a \<Rightarrow> 'a \<Rightarrow> bool) \<Rightarrow> 'a list \<Rightarrow> nat \<Rightarrow> nat \<Rightarrow> bool" where
  "hole_up lt xs n i \<longleftrightarrow>
     (\<forall>k. 0 < k \<longrightarrow> k < n \<longrightarrow> k \<noteq> i \<longrightarrow> \<not> lt (xs ! k) (xs ! par k)) \<and>
     (\<forall>k. 0 < k \<longrightarrow> k < n \<longrightarrow> par k = i \<longrightarrow> 0 < i \<longrightarrow> \<not> lt (xs ! k) (xs ! par i))"

lemma par_cases: "0 < k \<Longrightarrow> par k = i \<longleftrightarrow> k = 2 * i + 1 \<or> k = 2 * i + 2"
  by auto

section \<open>Correctness for a strict weak order\<close>

locale strict_weak =
  fixes lt :: "'a \<Rightarrow> 'a \<Rightarrow> bool"
  assumes asym: "lt x y \<Longrightarrow> \<not> lt y x"
    and neg_trans: "\<not> lt x y \<Longrightarrow> \<not> lt y z \<Longrightarrow> \<not> lt x z"
begin

lemma irrefl: "\<not> lt x x"
  using asym by blast

lemma min_child_least:
  assumes "0 < k" "k < n" "par k = i"
  shows "\<not> lt (xs ! k) (xs ! min_child lt xs i n)"
proof -
  from assms have "k = 2 * i + 1 \<or> k = 2 * i + 2" by auto
  with assms(2) asym irrefl show ?thesis by (auto simp: min_child_def)
qed

lemma hole_down_stop:
  assumes "hole_down lt xs lo n i"
    and "n \<le> 2 * i + 1 \<or> \<not> lt (xs ! min_child lt xs i n) (xs ! i)"
  shows "heap_from lt xs lo n"
  unfolding heap_from_def
proof (intro allI impI)
  fix k assume k: "0 < k" "k < n" "lo \<le> par k"
  show "\<not> lt (xs ! k) (xs ! par k)"
  proof (cases "par k = i")
    case True
    with k assms(2) have "\<not> lt (xs ! min_child lt xs i n) (xs ! i)" by (auto simp: par_cases)
    with neg_trans [OF min_child_least [OF k(1,2) True]] True show ?thesis by blast
  next
    case False
    with assms(1) k show ?thesis by (simp add: hole_down_def)
  qed
qed

lemma hole_down_step:
  assumes n: "n \<le> length xs" and hole: "hole_both lt xs lo n i"
    and i: "\<not> n \<le> 2 * i + 1" and j: "j = min_child lt xs i n" and less: "lt (xs ! j) (xs ! i)"
  shows "hole_down lt (swap xs i j) lo n j"
proof -
  have jn: "j < n" "i < j" "par j = i" "0 < j"
    using i j min_child_less [of i n lt xs] min_child_gt [of i lt xs n]
    by (auto simp: min_child_def)
  have nth: "swap xs i j ! k = (if k = j then xs ! i else if k = i then xs ! j else xs ! k)"
    if "k < n" for k
    using that n jn by (simp add: nth_swap)
  have best: "\<not> lt (xs ! k) (xs ! j)" if "0 < k" "k < n" "par k = i" for k
    using that j min_child_least by blast
  have inv1: "\<not> lt (xs ! k) (xs ! par k)"
    if "0 < k" "k < n" "lo \<le> par k" "par k \<noteq> i" "k \<noteq> i" for k
    using that hole unfolding hole_both_def by blast
  have inv2: "\<not> lt (xs ! j) (xs ! par i)" if "0 < i" "lo \<le> par i"
    using that hole jn unfolding hole_both_def by blast
  have "\<not> lt (swap xs i j ! k) (swap xs i j ! par k)"
    if k: "0 < k" "k < n" "lo \<le> par k" "par k \<noteq> j" for k
  proof -
    have pk: "par k < n" "par k < k" using k by arith+
    consider "par k = i" | "par k \<noteq> i" "k = i" | "par k \<noteq> i" "k \<noteq> i" by blast
    then show ?thesis
    proof cases
      case 1
      with k best [of k] asym [OF less] pk jn show ?thesis by (simp add: nth)
    next
      case 2
      with k inv2 pk jn show ?thesis by (simp add: nth)
    next
      case 3
      with k inv1 [of k] pk jn show ?thesis by (auto simp: nth)
    qed
  qed
  moreover have "\<not> lt (swap xs i j ! k) (swap xs i j ! par j)"
    if k: "0 < k" "k < n" "par k = j" "lo \<le> par j" for k
    using k jn inv1 [of k] by (auto simp: nth)
  ultimately show ?thesis unfolding hole_down_def by blast
qed

lemma down_heap:
  "n \<le> length xs \<Longrightarrow> hole_down lt xs lo n i \<Longrightarrow> heap_from lt (fst (down_loop lt xs i n)) lo n"
proof (induction "n - i" arbitrary: xs i rule: less_induct)
  case less
  let ?j = "min_child lt xs i n"
  show ?case
  proof (cases "n \<le> 2 * i + 1 \<or> \<not> lt (xs ! ?j) (xs ! i)")
    case True
    then have "fst (down_loop lt xs i n) = xs" by (subst down_loop.simps) (auto simp: Let_def)
    with hole_down_stop [OF less.prems(2) True] show ?thesis by simp
  next
    case False
    then have "n - ?j < n - i" using min_child_gt [of i lt xs n] by auto
    moreover have "hole_down lt (swap xs i ?j) lo n ?j"
      using False less.prems by (intro hole_down_step) (auto simp: hole_down_def hole_both_def)
    ultimately have "heap_from lt (fst (down_loop lt (swap xs i ?j) ?j n)) lo n"
      using less by simp
    with False show ?thesis by (subst down_loop.simps) (auto simp: Let_def)
  qed
qed

lemma hole_up_step:
  assumes n: "n \<le> length xs" "i < n" and hole: "hole_up lt xs n i"
    and p: "p = par i" "p < i" and sm: "lt (xs ! i) (xs ! p)"
  shows "hole_up lt (swap xs p i) n p"
proof -
  have nth: "swap xs p i ! k = (if k = i then xs ! p else if k = p then xs ! i else xs ! k)"
    if "k < n" for k
    using that n p by (simp add: nth_swap)
  have inv1: "\<not> lt (xs ! k) (xs ! par k)" if "0 < k" "k < n" "k \<noteq> i" for k
    using that hole unfolding hole_up_def by blast
  have inv2: "\<not> lt (xs ! k) (xs ! p)" if "0 < k" "k < n" "par k = i" "0 < i" for k
    using that hole p unfolding hole_up_def by blast
  have "\<not> lt (swap xs p i ! k) (swap xs p i ! par k)" if k: "0 < k" "k < n" "k \<noteq> p" for k
  proof -
    have pk: "par k < n" "par k < k" using k by arith+
    consider "k = i" | "k \<noteq> i" "par k = i" | "k \<noteq> i" "par k = p" "p \<noteq> i"
      | "k \<noteq> i" "par k \<noteq> i" "par k \<noteq> p" by blast
    then show ?thesis
    proof cases
      case 1
      then have "par k = p" using p by simp
      with 1 asym [OF sm] k pk p(2) show ?thesis by (simp add: nth)
    next
      case 2
      with inv2 [of k] k pk p(2) show ?thesis by (simp add: nth)
    next
      case 3
      with inv1 [of k] k have "\<not> lt (xs ! k) (xs ! i)" using neg_trans asym [OF sm] by metis
      with 3 k pk show ?thesis by (simp add: nth)
    next
      case 4
      with inv1 [of k] k pk show ?thesis by (simp add: nth)
    qed
  qed
  moreover have "\<not> lt (swap xs p i ! k) (swap xs p i ! par p)"
    if k: "0 < k" "k < n" "par k = p" "0 < p" for k
  proof -
    have lt_p: "par p < p" "par p < n" "k \<noteq> p" "p < n" "p \<noteq> i" "par p \<noteq> i"
      using k(3,4) p(2) n(2) by arith+
    with inv1 [of p] k(4) have pp: "\<not> lt (xs ! p) (xs ! par p)" by blast
    have "\<not> lt (xs ! k) (xs ! par p)" if "k \<noteq> i"
      using neg_trans [OF inv1 [of k]] k that pp by simp
    with pp lt_p k(2) show ?thesis by (simp add: nth)
  qed
  ultimately show ?thesis unfolding hole_up_def by blast
qed

lemma up_heap:
  "n \<le> length xs \<Longrightarrow> i < n \<Longrightarrow> hole_up lt xs n i \<Longrightarrow> heap_from lt (up lt xs i) 0 n"
proof (induction i arbitrary: xs rule: less_induct)
  case (less i)
  define p where "p = par i"
  show ?case
  proof (cases "p = i \<or> \<not> lt (xs ! i) (xs ! p)")
    case True
    then have "i = 0 \<or> \<not> lt (xs ! i) (xs ! p)" by (auto simp: p_def)
    with less.prems(3) have "heap_from lt xs 0 n"
      unfolding heap_from_def hole_up_def p_def by (metis less_irrefl)
    moreover have "up lt xs i = xs" using True by (subst up.simps) (auto simp: p_def)
    ultimately show ?thesis by simp
  next
    case False
    have pi: "p < i" using False by (auto simp: p_def)
    have "hole_up lt (swap xs p i) n p"
      using False less.prems pi by (intro hole_up_step) (auto simp: p_def)
    with less pi have "heap_from lt (up lt (swap xs p i) p) 0 n" by simp
    with False show ?thesis by (subst up.simps) (auto simp: p_def)
  qed
qed

lemma root_least:
  assumes "heap_from lt xs 0 n" "k < n"
  shows "\<not> lt (xs ! k) (xs ! 0)"
  using assms(2)
proof (induction k rule: less_induct)
  case (less k)
  show ?case
  proof (cases "k = 0")
    case False
    then have "par k < k" by auto
    with less False assms(1) show ?thesis
      unfolding heap_from_def by (meson less_trans neg_trans neq0_conv zero_le)
  qed (simp add: irrefl)
qed

lemma heap_Push_heap: "is_heap lt xs \<Longrightarrow> is_heap lt (heap_Push lt xs x)"
proof -
  assume h: "is_heap lt xs"
  have "\<not> lt ((xs @ [x]) ! k) ((xs @ [x]) ! par k)"
    if "0 < k" "k < Suc (length xs)" "k \<noteq> length xs" for k
    using that h unfolding is_heap_def heap_from_def by (auto simp: nth_append)
  then have "hole_up lt (xs @ [x]) (Suc (length xs)) (length xs)"
    unfolding hole_up_def by auto
  then show ?thesis
    using up_heap [of "Suc (length xs)" "xs @ [x]" "length xs"]
    by (simp add: is_heap_def heap_Push_def)
qed

lemma is_heap_butlast: "heap_from lt zs 0 (length zs - 1) \<Longrightarrow> is_heap lt (butlast zs)"
  unfolding is_heap_def heap_from_def by (auto simp: nth_butlast)

text \<open>The removed entry ends up last, so dropping it leaves the rest.\<close>

lemma drop_last_mset:
  assumes "mset zs = mset xs" "xs \<noteq> []"
  shows "mset xs = add_mset (last zs) (mset (butlast zs))"
proof -
  have "zs \<noteq> []" using assms by auto
  then have "mset zs = mset (butlast zs @ [last zs])" by simp
  then show ?thesis using assms(1) by simp
qed

lemma heap_Pop_correct:
  assumes "is_heap lt xs" "xs \<noteq> []" "heap_Pop lt xs = (x, ys)"
  shows "x = xs ! 0" and "mset xs = add_mset x (mset ys)" and "is_heap lt ys"
    and "y \<in> set xs \<Longrightarrow> \<not> lt y x"
proof -
  define n where "n = length xs - 1"
  define ws where "ws = swap xs 0 n"
  define zs where "zs = fst (down_loop lt ws 0 n)"
  have n: "n < length xs" "length ws = length xs" using assms(2) by (auto simp: n_def ws_def)
  have res: "x = last zs" "ys = butlast zs"
    using assms(3) by (auto simp: heap_Pop_def Let_def n_def ws_def zs_def)
  have perm: "mset zs = mset xs" "length zs = length xs"
    using n assms(2) down_loop_perm [of n ws lt 0] by (auto simp: zs_def ws_def)
  have "hole_down lt ws 0 n 0"
    unfolding hole_down_def
  proof (intro conjI allI impI)
    fix k assume k: "0 < k" "k < n" "par k \<noteq> 0"
    then have "par k < n" by arith
    with k have "ws ! k = xs ! k" "ws ! par k = xs ! par k"
      using n assms(2) by (simp_all add: ws_def nth_swap)
    with k n assms(1) show "\<not> lt (ws ! k) (ws ! par k)"
      unfolding is_heap_def heap_from_def by simp
  qed simp
  then have "heap_from lt zs 0 n" using down_heap [of n ws 0 0] n by (simp add: zs_def)
  then show "is_heap lt ys" using is_heap_butlast perm res by (simp add: n_def)
  have "zs ! n = ws ! n" using down_loop_nth_beyond [of n n ws lt 0] n by (simp add: zs_def)
  moreover have "ws ! n = xs ! 0" using n by (cases "n = 0") (simp_all add: ws_def swap_def)
  ultimately show x: "x = xs ! 0"
    using res perm assms(2) n by (simp add: last_conv_nth n_def flip: length_greater_0_conv)
  show "mset xs = add_mset x (mset ys)" using drop_last_mset [OF perm(1) assms(2)] res by simp
  show "\<not> lt y x" if "y \<in> set xs"
    using that x root_least assms(1) unfolding is_heap_def by (metis in_set_conv_nth)
qed

lemma down_loop_moved:
  assumes "hole_both lt ws 0 n i" "n \<le> length ws" "i < snd (down_loop lt ws i n)"
  shows "heap_from lt (fst (down_loop lt ws i n)) 0 n"
proof -
  let ?j = "min_child lt ws i n"
  have go: "\<not> n \<le> 2 * i + 1" "lt (ws ! ?j) (ws ! i)"
    using assms(3) by (subst (asm) down_loop.simps, auto simp: Let_def split: if_splits)+
  then have "hole_down lt (swap ws i ?j) 0 n ?j"
    using assms hole_down_step by blast
  then show ?thesis
    using down_heap [of n "swap ws i ?j" 0 ?j] assms go
    by (subst down_loop.simps) (auto simp: Let_def)
qed

lemma down_loop_unmoved:
  assumes "hole_both lt ws 0 n i" "n \<le> length ws" "\<not> i < snd (down_loop lt ws i n)"
  shows "fst (down_loop lt ws i n) = ws" and "hole_up lt ws n i"
proof -
  let ?j = "min_child lt ws i n"
  have stop: "n \<le> 2 * i + 1 \<or> \<not> lt (ws ! ?j) (ws ! i)"
  proof (rule ccontr)
    assume "\<not> ?thesis"
    then have "snd (down_loop lt ws i n) = snd (down_loop lt (swap ws i ?j) ?j n)"
      by (subst down_loop.simps) (auto simp: Let_def)
    then have "?j \<le> snd (down_loop lt ws i n)"
      using down_loop_perm [of n "swap ws i ?j" lt ?j] assms(2) by simp
    with assms(3) min_child_gt [of i lt ws n] show False by simp
  qed
  then show "fst (down_loop lt ws i n) = ws" by (subst down_loop.simps) (auto simp: Let_def)
  have "\<not> lt (ws ! k) (ws ! i)" if "0 < k" "k < n" "par k = i" for k
    using neg_trans [OF min_child_least [OF that]] stop that by (auto simp: par_cases)
  with assms(1) show "hole_up lt ws n i" unfolding hole_up_def hole_both_def by (metis zero_le)
qed

lemma heap_Remove_correct:
  assumes "is_heap lt xs" "i < length xs" "heap_Remove lt xs i = (x, ys)"
  shows "x = xs ! i" and "mset xs = add_mset x (mset ys)" and "is_heap lt ys"
proof -
  define n where "n = length xs - 1"
  define ws where "ws = swap xs i n"
  define zs where "zs = (if n \<noteq> i then (case down lt ws i n of
      (zs, moved) \<Rightarrow> if moved then zs else up lt zs i) else xs)"
  have n: "n < length xs" "length ws = length xs" "i \<le> n" using assms(2) by (auto simp: n_def ws_def)
  have h: "\<not> lt (xs ! k) (xs ! par k)" if "0 < k" "k < length xs" for k
    using that assms(1) unfolding is_heap_def heap_from_def by simp
  have res: "x = last zs" "ys = butlast zs"
    using assms(3) by (auto simp: heap_Remove_def Let_def n_def ws_def zs_def)
  have "mset zs = mset xs \<and> length zs = length xs \<and> heap_from lt zs 0 n \<and> zs ! n = xs ! i"
  proof (cases "n = i")
    case True
    then show ?thesis using h n by (auto simp: zs_def heap_from_def)
  next
    case False
    let ?r = "down_loop lt ws i n"
    have wn: "ws ! k = (if k = i then xs ! n else xs ! k)" if "k < n" for k
      using that n by (auto simp: ws_def nth_swap)
    have grand: "\<not> lt (xs ! k) (xs ! par (par k))" if "0 < k" "k < n" "0 < par k" for k
    proof (rule neg_trans [OF h h])
      show "par k < length xs" using that n by arith
    qed (use that n in auto)
    have "\<not> lt (ws ! k) (ws ! par k)" if "0 < k" "k < n" "par k \<noteq> i" "k \<noteq> i" for k
      using that h [of k] n by (simp add: wn)
    moreover have "\<not> lt (ws ! k) (ws ! par i)" if "0 < k" "k < n" "par k = i" "0 < i" for k
    proof -
      have "k \<noteq> i" "par i \<noteq> i" "par i < n" using that n by arith+
      then show ?thesis using that grand [of k] n by (simp add: wn)
    qed
    ultimately have hb: "hole_both lt ws 0 n i" unfolding hole_both_def by blast
    have z: "zs = (if i < snd ?r then fst ?r else up lt (fst ?r) i)"
      using False by (simp add: zs_def down_def split: prod.split)
    have at_n: "fst ?r ! n = xs ! i"
      using down_loop_nth_beyond [of n n ws lt i] n by (simp add: ws_def nth_swap)
    show ?thesis
      using z at_n n False down_loop_perm [of n ws lt i] down_loop_moved [OF hb]
        down_loop_unmoved [OF hb] up_heap [of n ws i] mset_up [of i ws lt] up_nth_above [of i n ws lt]
      by (auto simp: ws_def)
  qed
  moreover have ne: "xs \<noteq> []" using assms(2) by auto
  moreover have "zs \<noteq> []" using calculation by auto
  ultimately show "x = xs ! i" "mset xs = add_mset x (mset ys)" "is_heap lt ys"
    using res n ne drop_last_mset [of zs xs] is_heap_butlast [of zs]
    by (auto simp: last_conv_nth n_def)
qed

lemma init_loop_heap:
  "heap_from lt xs i (length xs) \<Longrightarrow> heap_from lt (init_loop lt xs i) 0 (length (init_loop lt xs i))"
proof (induction i arbitrary: xs)
  case 0
  then show ?case by simp
next
  case (Suc i)
  have "par i < i \<or> i = 0" by auto
  then have "hole_down lt xs i (length xs) i"
    using Suc.prems unfolding hole_down_def heap_from_def by (auto simp: Suc_le_eq)
  then have "heap_from lt (fst (down_loop lt xs i (length xs))) i (length xs)"
    by (rule down_heap [OF order_refl])
  then show ?case using Suc.IH [of "fst (down_loop lt xs i (length xs))"]
    by (simp add: down_loop_perm)
qed

lemma heap_Init_heap: "is_heap lt (heap_Init lt xs)"
proof -
  have "heap_from lt xs (length xs div 2) (length xs)"
    unfolding heap_from_def by (auto simp: div_le_mono)
  then show ?thesis
    using init_loop_heap by (simp add: is_heap_def heap_Init_def)
qed

end

lemma length_heap_Pop: "length (snd (heap_Pop lt xs)) = length xs - 1"
  by (simp add: heap_Pop_def Let_def down_loop_perm)

section \<open>The contract of a heap-backed priority queue\<close>

text \<open>
  A client pushes entries and pops the least one.  \<open>drain\<close> is a run of \<open>n\<close> pops; the contract alone
  gives that it returns its entries in order and that nothing left behind precedes them.
\<close>

primrec drain :: "('q \<Rightarrow> 'e \<times> 'q) \<Rightarrow> nat \<Rightarrow> 'q \<Rightarrow> 'e list \<times> 'q" where
  "drain pop 0 q = ([], q)"
| "drain pop (Suc n) q =
     (case pop q of (e, q') \<Rightarrow> (case drain pop n q' of (es, q'') \<Rightarrow> (e # es, q'')))"

locale prio_queue =
  fixes lt :: "'e \<Rightarrow> 'e \<Rightarrow> bool"
    and elems :: "'q \<Rightarrow> 'e multiset"
    and invar :: "'q \<Rightarrow> bool"
    and push :: "'e \<Rightarrow> 'q \<Rightarrow> 'q"
    and pop :: "'q \<Rightarrow> 'e \<times> 'q"
  assumes push_elems: "invar q \<Longrightarrow> elems (push e q) = add_mset e (elems q)"
    and push_invar: "invar q \<Longrightarrow> invar (push e q)"
    and pop_elems: "invar q \<Longrightarrow> elems q \<noteq> {#} \<Longrightarrow>
      elems q = add_mset (fst (pop q)) (elems (snd (pop q)))"
    and pop_invar: "invar q \<Longrightarrow> elems q \<noteq> {#} \<Longrightarrow> invar (snd (pop q))"
    and pop_least: "invar q \<Longrightarrow> e \<in># elems q \<Longrightarrow> \<not> lt e (fst (pop q))"
begin

lemma drain_ordered:
  assumes "invar q" "n \<le> size (elems q)" "drain pop n q = (es, q')"
  shows "elems q = mset es + elems q' \<and> invar q' \<and> length es = n
    \<and> sorted_wrt (\<lambda>a b. \<not> lt b a) es \<and> (\<forall>a \<in> set es. \<forall>b \<in># elems q'. \<not> lt b a)"
  using assms
proof (induction n arbitrary: q es)
  case 0
  then show ?case by simp
next
  case (Suc n)
  obtain e q1 where p: "pop q = (e, q1)" by fastforce
  obtain es' where d: "drain pop n q1 = (es', q')" and es: "es = e # es'"
    using Suc.prems(3) p by (auto split: prod.splits)
  have ne: "elems q \<noteq> {#}" using Suc.prems(2) by auto
  have split: "elems q = add_mset e (elems q1)" and inv: "invar q1"
    using pop_elems [OF Suc.prems(1) ne] pop_invar [OF Suc.prems(1) ne] p by auto
  have least: "\<not> lt b e" if "b \<in># elems q1" for b
    using pop_least [OF Suc.prems(1), of b] that p split by auto
  have IH: "elems q1 = mset es' + elems q' \<and> invar q' \<and> length es' = n
    \<and> sorted_wrt (\<lambda>a b. \<not> lt b a) es' \<and> (\<forall>a \<in> set es'. \<forall>b \<in># elems q'. \<not> lt b a)"
    using Suc.IH [OF inv _ d] Suc.prems(2) split by simp
  then show ?case using es split least by auto
qed

end

text \<open>A slice kept by \<open>container/heap\<close> meets the contract, for any strict weak order.\<close>

sublocale strict_weak \<subseteq> slice: prio_queue lt mset "is_heap lt" "\<lambda>x xs. heap_Push lt xs x" "heap_Pop lt"
proof unfold_locales
  fix xs :: "'a list" and x
  assume h: "is_heap lt xs"
  show "is_heap lt (heap_Push lt xs x)" using h by (rule heap_Push_heap)
  show "\<not> lt x (fst (heap_Pop lt xs))" if "x \<in># mset xs"
    using that h heap_Pop_correct(4) [OF h, of "fst (heap_Pop lt xs)" "snd (heap_Pop lt xs)" x]
    by (cases xs) auto
next
  fix xs :: "'a list"
  assume h: "is_heap lt xs" and ne: "mset xs \<noteq> {#}"
  then have ne: "xs \<noteq> []" by simp
  note c = heap_Pop_correct [OF h ne, of "fst (heap_Pop lt xs)" "snd (heap_Pop lt xs)"]
  show "mset xs = add_mset (fst (heap_Pop lt xs)) (mset (snd (heap_Pop lt xs)))"
    and "is_heap lt (snd (heap_Pop lt xs))"
    using c(2,3) by simp_all
qed simp

end
