(* ===== verification/Ready_Heap.thy ===== *)
theory Ready_Heap
  imports Go_Heap Types
begin

text \<open>
  \<open>internal/queue/heap.go\<close>: the ready heap, ordered by the cached effective priority (descending) and
  then by the message id times the direction of the queue.  The clock \<open>nowFn\<close> is read once per
  operation, so an operation that reads it takes the reading as an argument; \<open>None\<close> stands for a nil
  \<open>nowFn\<close>.
\<close>

record heapEntry =
  he_msgID :: u64
  he_priority :: u8
  he_indexRef :: u64
  he_enqueuedAtMs :: i64
  he_cachedPri :: i64

record readyHeap =
  rh_entries :: "heapEntry list"
  rh_dir :: i64
  rh_agingMs :: i64

definition newReadyHeap :: "Order \<Rightarrow> i64 \<Rightarrow> readyHeap" where
  "newReadyHeap order agingMs =
     \<lparr>rh_entries = [], rh_dir = (if order = LIFO then -1 else 1), rh_agingMs = agingMs\<rparr>"

definition computePri :: "readyHeap \<Rightarrow> heapEntry \<Rightarrow> i64 \<Rightarrow> i64" where
  "computePri h e now =
     (let p = ucast (he_priority e) :: i64 in
      if 0 < sint (rh_agingMs h) then
        (let age = now - he_enqueuedAtMs e in
         if 0 < sint age then
           (let boost = word_of_int (sint age div sint (rh_agingMs h)); p' = p + boost in
            if 255 < sint p' then 255 else p')
         else p)
      else p)"

definition rh_now :: "i64 option \<Rightarrow> i64" where
  "rh_now nowFn = (case nowFn of None \<Rightarrow> 0 | Some t \<Rightarrow> t)"

text \<open>\<open>Less\<close> on entries; the products are \<open>int64\<close> products and may wrap.\<close>

definition rh_Less :: "i64 \<Rightarrow> heapEntry \<Rightarrow> heapEntry \<Rightarrow> bool" where
  "rh_Less dir a b =
     (if he_cachedPri a \<noteq> he_cachedPri b then sint (he_cachedPri b) < sint (he_cachedPri a)
      else sint (he_msgID a * dir) < sint (he_msgID b * dir))"

definition rh_refresh :: "i64 option \<Rightarrow> readyHeap \<Rightarrow> readyHeap" where
  "rh_refresh nowFn h =
     (if sint (rh_agingMs h) \<le> 0 \<or> rh_entries h = [] then h
      else h\<lparr>rh_entries := heap_Init (rh_Less (rh_dir h))
               (map (\<lambda>e. e\<lparr>he_cachedPri := computePri h e (rh_now nowFn)\<rparr>) (rh_entries h))\<rparr>)"

definition rh_Len :: "readyHeap \<Rightarrow> nat" where
  "rh_Len h = length (rh_entries h)"

text \<open>The raw \<open>heap.Push\<close> and \<open>heap.Pop\<close> on the slice, and the two methods the queue calls.\<close>

definition rh_insert :: "heapEntry \<Rightarrow> readyHeap \<Rightarrow> readyHeap" where
  "rh_insert e h = h\<lparr>rh_entries := heap_Push (rh_Less (rh_dir h)) (rh_entries h) e\<rparr>"

definition rh_push :: "i64 option \<Rightarrow> heapEntry \<Rightarrow> readyHeap \<Rightarrow> readyHeap" where
  "rh_push nowFn e h = rh_insert (e\<lparr>he_cachedPri := computePri h e (rh_now nowFn)\<rparr>) h"

definition rh_pop :: "readyHeap \<Rightarrow> heapEntry \<times> readyHeap" where
  "rh_pop h = (case heap_Pop (rh_Less (rh_dir h)) (rh_entries h) of (x, es) \<Rightarrow> (x, h\<lparr>rh_entries := es\<rparr>))"

definition rh_inv :: "i64 \<Rightarrow> readyHeap \<Rightarrow> bool" where
  "rh_inv dir h \<longleftrightarrow> rh_dir h = dir \<and> is_heap (rh_Less dir) (rh_entries h)"

definition rh_elems :: "readyHeap \<Rightarrow> heapEntry multiset" where
  "rh_elems h = mset (rh_entries h)"

section \<open>The comparator is a strict weak order and the heap a priority queue\<close>

interpretation rh: strict_weak "rh_Less dir" for dir :: i64
proof unfold_locales
  fix x y z :: heapEntry
  show "rh_Less dir x y \<Longrightarrow> \<not> rh_Less dir y x"
    by (auto simp: rh_Less_def split: if_splits)
  show "\<not> rh_Less dir x y \<Longrightarrow> \<not> rh_Less dir y z \<Longrightarrow> \<not> rh_Less dir x z"
    by (auto simp: rh_Less_def not_less split: if_splits dest: signed_word_eqI order_antisym)
qed

interpretation rhq: prio_queue "rh_Less dir" rh_elems "rh_inv dir" rh_insert rh_pop for dir :: i64
proof unfold_locales
  fix q e
  assume q: "rh_inv dir q"
  show "rh_elems (rh_insert e q) = add_mset e (rh_elems q)"
    by (simp add: rh_elems_def rh_insert_def)
  show "rh_inv dir (rh_insert e q)"
    using q rh.heap_Push_heap by (simp add: rh_inv_def rh_insert_def)
  show "\<not> rh_Less dir e (fst (rh_pop q))" if "e \<in># rh_elems q"
    using that q rh.slice.pop_least [of dir "rh_entries q" e]
    by (auto simp: rh_inv_def rh_elems_def rh_pop_def split: prod.splits)
next
  fix q assume q: "rh_inv dir q" and ne: "rh_elems q \<noteq> {#}"
  then show "rh_elems q = add_mset (fst (rh_pop q)) (rh_elems (snd (rh_pop q)))"
    using rh.slice.pop_elems [of dir "rh_entries q"]
    by (auto simp: rh_inv_def rh_elems_def rh_pop_def split: prod.splits)
  show "rh_inv dir (snd (rh_pop q))"
    using q ne rh.slice.pop_invar [of dir "rh_entries q"]
    by (auto simp: rh_inv_def rh_elems_def rh_pop_def split: prod.splits)
qed

lemma rh_inv_new [simp]: "rh_inv (rh_dir (newReadyHeap ord ag)) (newReadyHeap ord ag)"
  by (simp add: rh_inv_def newReadyHeap_def is_heap_def heap_from_def)

lemma rh_inv_push: "rh_inv dir h \<Longrightarrow> rh_inv dir (rh_push now e h)"
  by (simp add: rh_push_def rhq.push_invar)

lemma rh_elems_push:
  "rh_elems (rh_push now e h)
     = add_mset (e\<lparr>he_cachedPri := computePri h e (rh_now now)\<rparr>) (rh_elems h)"
  by (simp add: rh_push_def rh_insert_def rh_elems_def)

lemma rh_inv_refresh: "rh_inv dir h \<Longrightarrow> rh_inv dir (rh_refresh now h)"
  using rh.heap_Init_heap by (auto simp: rh_refresh_def rh_inv_def)

section \<open>What the order means for ids below \<open>2^63\<close>\<close>

text \<open>
  Message ids are handed out by a counter from 1, so below \<open>2^63\<close> they read the same signed and
  unsigned.  There the comparator is the lexicographic order of the design: higher priority first,
  then lower id (FIFO) or higher id (LIFO).
\<close>

definition before :: "Order \<Rightarrow> heapEntry \<Rightarrow> heapEntry \<Rightarrow> bool" where
  "before ord a b \<longleftrightarrow>
     sint (he_cachedPri b) < sint (he_cachedPri a) \<or>
     he_cachedPri a = he_cachedPri b \<and>
       (case ord of FIFO \<Rightarrow> he_msgID a < he_msgID b | LIFO \<Rightarrow> he_msgID b < he_msgID a)"

lemma rh_Less_before:
  assumes "unat (he_msgID a) < 2 ^ 63" "unat (he_msgID b) < 2 ^ 63"
  shows "rh_Less (rh_dir (newReadyHeap ord ag)) a b = before ord a b"
  using assms
  by (cases ord) (auto simp: rh_Less_def before_def newReadyHeap_def i64 word_less_def)

lemma computePri_disabled: "sint (rh_agingMs h) \<le> 0 \<Longrightarrow> computePri h e now = ucast (he_priority e)"
  by (simp add: computePri_def Let_def)

lemma computePri_bounds_aux:
  assumes "0 \<le> sint (he_enqueuedAtMs e)" "0 \<le> sint now" "sint now < 2 ^ 62"
  shows "uint (he_priority e) \<le> sint (computePri h e now)" (is ?lo)
    and "sint (computePri h e now) \<le> 255" (is ?hi)
proof -
  let ?p = "uint (he_priority e)"
  have p: "0 \<le> ?p" "?p \<le> 255" using uint_u8_less [of "he_priority e"] by simp_all
  have age: "sint (now - he_enqueuedAtMs e) = sint now - sint (he_enqueuedAtMs e)"
    using assms sint_i64_range [of "he_enqueuedAtMs e"] by (simp add: i64)
  define b where "b = (sint now - sint (he_enqueuedAtMs e)) div sint (rh_agingMs h)"
  have b: "0 \<le> b" "b < 2 ^ 62" if "0 < sint (rh_agingMs h)" "0 < sint (now - he_enqueuedAtMs e)"
    using that assms age zdiv_mono2 [of "sint now - sint (he_enqueuedAtMs e)" 1 "sint (rh_agingMs h)"]
    by (auto simp: b_def pos_imp_zdiv_nonneg_iff)
  have "sint ((ucast (he_priority e) :: i64) + word_of_int b) = ?p + b" if "0 \<le> b" "b < 2 ^ 62"
  proof -
    have sb: "sint (word_of_int b :: i64) = b" using that by (simp add: i64)
    have "- (2 ^ 63) \<le> ?p + b" by (rule order_trans [of _ 0]) (use that p in simp_all)
    moreover have "?p + b < 2 ^ 63" using that p by simp
    ultimately show ?thesis
      using sint_i64_add [of "ucast (he_priority e)" "word_of_int b"] by (simp add: sb sint_ucast_u8)
  qed
  with b p show ?lo ?hi
    by (auto simp: computePri_def Let_def i64 age b_def)
qed

section \<open>Properties of the ready heap\<close>

text \<open>C22. The ready heap delivers in the order of the design: \<open>n\<close> pops from a heap in its invariant,
  whose ids are below \<open>2^63\<close>, return \<open>n\<close> of its entries sorted by effective priority (descending)
  and then by arrival (FIFO) or reverse arrival (LIFO); no entry that is left precedes one that was
  returned, nothing is lost or duplicated, and the remaining heap is in its invariant.\<close>

theorem ready_heap_delivery_order:
  assumes "rh_inv (rh_dir (newReadyHeap ord ag)) h"
    and "\<forall>e \<in> set (rh_entries h). unat (he_msgID e) < 2 ^ 63"
    and "n \<le> rh_Len h" and "drain rh_pop n h = (es, h')"
  shows "length es = n \<and> mset (rh_entries h) = mset es + mset (rh_entries h')
    \<and> sorted_wrt (\<lambda>a b. \<not> before ord b a) es
    \<and> (\<forall>a \<in> set es. \<forall>b \<in> set (rh_entries h'). \<not> before ord b a)
    \<and> rh_inv (rh_dir (newReadyHeap ord ag)) h'"
proof -
  let ?d = "rh_dir (newReadyHeap ord ag)"
  have "n \<le> size (rh_elems h)" using assms(3) by (simp add: rh_elems_def rh_Len_def)
  note d = rhq.drain_ordered [OF assms(1) this assms(4), unfolded rh_elems_def]
  then have "set_mset (mset (rh_entries h)) = set es \<union> set (rh_entries h')" by simp
  then have ids: "unat (he_msgID a) < 2 ^ 63" if "a \<in> set es \<union> set (rh_entries h')" for a
    using assms(2) that by simp
  have "sorted_wrt (\<lambda>a b. \<not> before ord b a) es"
    using conjunct1 [OF conjunct2 [OF conjunct2 [OF conjunct2 [OF d]]]]
    by (rule sorted_wrt_mono_rel [rotated]) (auto simp: rh_Less_before [OF ids ids])
  moreover have "\<not> before ord b a" if "a \<in> set es" "b \<in> set (rh_entries h')" for a b
    using d that by (auto simp: rh_Less_before [OF ids ids])
  ultimately show ?thesis using d by blast
qed

definition sample_heap :: readyHeap where
  "sample_heap = rh_push None (heapEntry.make 2 9 0 0 0)
     (rh_push None (heapEntry.make 3 1 0 0 0) (rh_push None (heapEntry.make 1 9 0 0 0) (newReadyHeap LIFO 0)))"

lemma rh_inv_sample: "rh_inv (rh_dir (newReadyHeap LIFO 0)) sample_heap"
  unfolding sample_heap_def by (intro rh_inv_push rh_inv_new)

theorem ready_heap_delivery_order_witness:
  "map he_msgID (fst (drain rh_pop 2 sample_heap)) = [2, 1] \<and>
   sorted_wrt (\<lambda>a b. \<not> before LIFO b a) (fst (drain rh_pop 2 sample_heap))"
proof -
  have ids: "\<forall>e \<in> set (rh_entries sample_heap). unat (he_msgID e) < 2 ^ 63"
  proof -
    have "list_all (\<lambda>e. unat (he_msgID e) \<le> 3) (rh_entries sample_heap)" by code_simp
    then show ?thesis by (auto simp: list_all_iff)
  qed
  have n: "2 \<le> rh_Len sample_heap" by code_simp
  have "map he_msgID (fst (drain rh_pop 2 sample_heap)) = [2, 1]" by code_simp
  with ready_heap_delivery_order [OF rh_inv_sample ids n surjective_pairing] show ?thesis by simp
qed

text \<open>C23. Every operation keeps the heap in its invariant, whatever the clock reads: the empty heap of
  \<open>newReadyHeap\<close> is in it, \<open>push\<close> adds exactly its entry with the priority computed at that moment,
  \<open>refresh\<close> keeps the entries up to their recomputed priorities, and \<open>pop\<close> on a non-empty heap removes
  exactly the entry it returns.\<close>

theorem ready_heap_operations_keep_invariant:
  assumes "rh_inv dir h"
  shows "rh_inv (rh_dir (newReadyHeap ord ag)) (newReadyHeap ord ag)
    \<and> rh_inv dir (rh_push now e h)
    \<and> mset (rh_entries (rh_push now e h))
      = add_mset (e\<lparr>he_cachedPri := computePri h e (rh_now now)\<rparr>) (mset (rh_entries h))
    \<and> rh_inv dir (rh_refresh now h)
    \<and> mset (rh_entries (rh_refresh now h))
      = (if 0 < sint (rh_agingMs h)
         then image_mset (\<lambda>e. e\<lparr>he_cachedPri := computePri h e (rh_now now)\<rparr>) (mset (rh_entries h))
         else mset (rh_entries h))
    \<and> (rh_entries h \<noteq> [] \<longrightarrow> rh_inv dir (snd (rh_pop h))
        \<and> mset (rh_entries h) = add_mset (fst (rh_pop h)) (mset (rh_entries (snd (rh_pop h)))))"
proof -
  have pop: "rh_inv dir (snd (rh_pop h)) \<and> mset (rh_entries h) = add_mset (fst (rh_pop h)) (mset (rh_entries (snd (rh_pop h))))"
    if "rh_entries h \<noteq> []"
  proof -
    have "rh_elems h \<noteq> {#}" using that by (simp add: rh_elems_def)
    from rhq.pop_elems [OF assms this] rhq.pop_invar [OF assms this] show ?thesis by (simp add: rh_elems_def)
  qed
  have "mset (rh_entries (rh_refresh now h)) = (if 0 < sint (rh_agingMs h)
    then image_mset (\<lambda>e. e\<lparr>he_cachedPri := computePri h e (rh_now now)\<rparr>) (mset (rh_entries h))
    else mset (rh_entries h))"
    by (simp add: rh_refresh_def not_less)
  with pop rh_inv_push [OF assms] rh_inv_refresh [OF assms] rh_elems_push [of now e h]
  show ?thesis by (simp add: rh_elems_def)
qed

theorem ready_heap_operations_keep_invariant_witness:
  "rh_inv (rh_dir (newReadyHeap LIFO 0)) (snd (rh_pop sample_heap)) \<and>
   rh_entries (rh_push None (heapEntry.make 1 9 0 0 0) (newReadyHeap LIFO 0)) \<noteq> []"
proof -
  have ne: "rh_entries sample_heap \<noteq> []" by code_simp
  have "mset (rh_entries (rh_push None (heapEntry.make 1 9 0 0 0) (newReadyHeap LIFO 0))) \<noteq> {#}"
    using ready_heap_operations_keep_invariant [OF rh_inv_new [of LIFO 0], of LIFO 0 None "heapEntry.make 1 9 0 0 0"] by auto
  then show ?thesis using ready_heap_operations_keep_invariant [OF rh_inv_sample] ne by auto
qed

text \<open>The effective priority lies between the message's own priority and 255, for every non-negative
  arrival time and every clock reading below \<open>2^62\<close> milliseconds: the age boost only raises a
  message, saturates at 255 and does not overflow.\<close>

theorem computePri_bounds:
  assumes "0 \<le> sint (he_enqueuedAtMs e)" "0 \<le> sint now" "sint now < 2 ^ 62"
  shows "uint (he_priority e) \<le> sint (computePri h e now) \<and> sint (computePri h e now) \<le> 255"
  using computePri_bounds_aux [OF assms] by blast

theorem computePri_bounds_witness:
  "computePri (newReadyHeap FIFO 10) (heapEntry.make 1 250 0 1000 0) 1100 = 255 \<and>
   250 \<le> sint (computePri (newReadyHeap FIFO 10) (heapEntry.make 1 250 0 1000 0) 1100)"
proof -
  have h: "0 \<le> sint (he_enqueuedAtMs (heapEntry.make 1 250 0 1000 0))" "0 \<le> sint (1100 :: i64)"
    "sint (1100 :: i64) < 2 ^ 62" by code_simp+
  have "uint (he_priority (heapEntry.make 1 250 0 1000 0)) = 250"
    "computePri (newReadyHeap FIFO 10) (heapEntry.make 1 250 0 1000 0) 1100 = 255" by code_simp+
  with computePri_bounds [OF h, of "newReadyHeap FIFO 10"] show ?thesis by simp
qed

end
