(* ===== verification/Timing_Wheel.thy ===== *)
theory Timing_Wheel
  imports Go_Heap
begin

text \<open>
  \<open>internal/queue/wheel.go\<close>: the timing wheel, a min-heap of entries by deadline, used for delayed
  messages and for the expiry of leases.  The struct holds the slice of entries only, so a wheel is
  that slice.
\<close>

record wheelEntry =
  we_deadline :: i64
  we_msgID :: u64
  we_indexRef :: u64
  we_nonce :: u64

type_synonym timingWheel = "wheelEntry list"

definition tw_Less :: "wheelEntry \<Rightarrow> wheelEntry \<Rightarrow> bool" where
  "tw_Less a b \<longleftrightarrow> sint (we_deadline a) < sint (we_deadline b)"

definition tw_add :: "wheelEntry \<Rightarrow> timingWheel \<Rightarrow> timingWheel" where
  "tw_add e w = heap_Push tw_Less w e"

function tw_popExpired :: "i64 \<Rightarrow> timingWheel \<Rightarrow> wheelEntry list \<times> timingWheel" where
  "tw_popExpired now w =
     (if w \<noteq> [] \<and> sint (we_deadline (w ! 0)) \<le> sint now then
        (case heap_Pop tw_Less w of (e, w') \<Rightarrow>
         (case tw_popExpired now w' of (out, w'') \<Rightarrow> (e # out, w'')))
      else ([], w))"
  by pat_completeness auto
termination
proof (relation "measure (\<lambda>(now, w). length w)", goal_cases)
  case (2 now w e w')
  then have "w \<noteq> []" "length w' = length w - 1"
    using length_heap_Pop [of tw_Less w] by (metis snd_conv)+
  then show ?case by auto
qed simp

declare tw_popExpired.simps [simp del]

text \<open>The index of the first entry with the message id, as the range loop finds it.\<close>

primrec find_msgID :: "u64 \<Rightarrow> timingWheel \<Rightarrow> nat option" where
  "find_msgID m [] = None"
| "find_msgID m (e # w) = (if we_msgID e = m then Some 0 else map_option Suc (find_msgID m w))"

definition tw_remove :: "u64 \<Rightarrow> timingWheel \<Rightarrow> wheelEntry option \<times> timingWheel" where
  "tw_remove m w =
     (case find_msgID m w of
        None \<Rightarrow> (None, w)
      | Some i \<Rightarrow> (Some (w ! i), snd (heap_Remove tw_Less w i)))"

abbreviation tw_inv :: "timingWheel \<Rightarrow> bool" where
  "tw_inv w \<equiv> is_heap tw_Less w"

interpretation tw: strict_weak tw_Less
  by unfold_locales (auto simp: tw_Less_def)

section \<open>Behaviour of the operations\<close>

lemma tw_inv_Nil [simp]: "tw_inv []"
  by (simp add: is_heap_def heap_from_def)

lemma tw_inv_add: "tw_inv w \<Longrightarrow> tw_inv (tw_add e w)"
  unfolding tw_add_def by (rule tw.heap_Push_heap)

lemma mset_tw_add [simp]: "mset (tw_add e w) = add_mset e (mset w)"
  by (simp add: tw_add_def)

lemma set_tw_add [simp]: "set (tw_add e w) = insert e (set w)"
  by (metis mset_tw_add set_mset_add_mset_insert set_mset_mset)

lemma find_msgID_Some:
  "find_msgID m w = Some i \<Longrightarrow> i < length w \<and> we_msgID (w ! i) = m"
  by (induction w arbitrary: i) (auto split: if_splits)

lemma find_msgID_None: "find_msgID m w = None \<longleftrightarrow> m \<notin> we_msgID ` set w"
  by (induction w) auto

lemma tw_remove_Some:
  assumes "tw_inv w" "tw_remove m w = (Some e, w')"
  shows "we_msgID e = m" "mset w = add_mset e (mset w')" "tw_inv w'"
proof -
  from assms(2) obtain i where i: "find_msgID m w = Some i" "e = w ! i" "w' = snd (heap_Remove tw_Less w i)"
    by (auto simp: tw_remove_def split: option.splits)
  note f = find_msgID_Some [OF i(1)]
  show "we_msgID e = m" using f i by simp
  have r: "heap_Remove tw_Less w i = (fst (heap_Remove tw_Less w i), w')" using i by simp
  from tw.heap_Remove_correct [OF assms(1) conjunct1 [OF f] r] i(2)
  show "mset w = add_mset e (mset w')" "tw_inv w'" by auto
qed

lemma tw_remove_None: "tw_remove m w = (None, w') \<Longrightarrow> w' = w \<and> m \<notin> we_msgID ` set w"
  by (auto simp: tw_remove_def find_msgID_None split: option.splits)

lemma tw_popExpired_spec:
  assumes "tw_inv w" "tw_popExpired now w = (out, w')"
  shows "mset out = filter_mset (\<lambda>e. sint (we_deadline e) \<le> sint now) (mset w)
    \<and> mset w' = filter_mset (\<lambda>e. \<not> sint (we_deadline e) \<le> sint now) (mset w)
    \<and> tw_inv w' \<and> sorted_wrt (\<lambda>a b. sint (we_deadline a) \<le> sint (we_deadline b)) out"
  using assms
proof (induction now w arbitrary: out w' rule: tw_popExpired.induct)
  case (1 now w)
  show ?case
  proof (cases "w \<noteq> [] \<and> sint (we_deadline (w ! 0)) \<le> sint now")
    case False
    then have res: "out = []" "w' = w" using "1.prems"(2) by (subst (asm) tw_popExpired.simps, auto)+
    have "\<not> sint (we_deadline e) \<le> sint now" if "e \<in> set w" for e
    proof -
      from that obtain k where k: "k < length w" "e = w ! k" by (metis in_set_conv_nth)
      with "1.prems"(1) have "\<not> tw_Less e (w ! 0)"
        using tw.root_least unfolding is_heap_def by blast
      with k False that show ?thesis by (auto simp: tw_Less_def)
    qed
    then have "filter (\<lambda>e. \<not> sint (we_deadline e) \<le> sint now) w = w"
      "filter (\<lambda>e. sint (we_deadline e) \<le> sint now) w = []"
      by (auto simp: filter_id_conv filter_empty_conv)
    then show ?thesis using res "1.prems"(1) by (simp flip: mset_filter)
  next
    case True
    obtain e w1 where p: "heap_Pop tw_Less w = (e, w1)" by fastforce
    obtain out1 where d: "tw_popExpired now w1 = (out1, w')" and out: "out = e # out1"
      using True p "1.prems"(2) by (subst (asm) tw_popExpired.simps) (auto split: prod.splits)
    from True have ne: "w \<noteq> []" ..
    note c = tw.heap_Pop_correct [OF "1.prems"(1) ne p]
    have IH: "mset out1 = filter_mset (\<lambda>e. sint (we_deadline e) \<le> sint now) (mset w1)
      \<and> mset w' = filter_mset (\<lambda>e. \<not> sint (we_deadline e) \<le> sint now) (mset w1)
      \<and> tw_inv w' \<and> sorted_wrt (\<lambda>a b. sint (we_deadline a) \<le> sint (we_deadline b)) out1"
      using "1.IH" [OF True p [symmetric] c(3) d] .
    have le: "sint (we_deadline e) \<le> sint (we_deadline b)" if "b \<in> set out1" for b
    proof -
      from that IH have "b \<in># mset w1" by (metis mset_subset_eqD multiset_filter_subset set_mset_mset)
      then have "b \<in> set w" using c(2) by (metis insert_iff set_mset_add_mset_insert set_mset_mset)
      with c(4) [of b] show ?thesis by (simp add: tw_Less_def)
    qed
    show ?thesis using IH out c(1,2) True le by auto
  qed
qed

section \<open>Properties of the timing wheel\<close>

text \<open>C24. \<open>popExpired now\<close> on a wheel in its heap shape returns exactly the entries whose deadline is at
  or before \<open>now\<close>, earliest first, leaves exactly the others, and keeps the heap shape; in particular
  the loop ends.\<close>

theorem popExpired_exact:
  assumes "tw_inv w" "tw_popExpired now w = (out, w')"
  shows "mset out = filter_mset (\<lambda>e. sint (we_deadline e) \<le> sint now) (mset w)
    \<and> mset w' = filter_mset (\<lambda>e. sint now < sint (we_deadline e)) (mset w)
    \<and> tw_inv w' \<and> sorted_wrt (\<lambda>a b. sint (we_deadline a) \<le> sint (we_deadline b)) out"
  using tw_popExpired_spec [OF assms] by (simp add: not_le)

definition sample_wheel :: timingWheel where
  "sample_wheel = tw_add (wheelEntry.make 30 1 100 7)
     (tw_add (wheelEntry.make 10 2 200 8) (tw_add (wheelEntry.make 20 3 300 9) []))"

lemma tw_inv_sample: "tw_inv sample_wheel"
  unfolding sample_wheel_def by (intro tw_inv_add tw_inv_Nil)

theorem popExpired_exact_witness:
  "map we_msgID (fst (tw_popExpired 25 sample_wheel)) = [2, 3] \<and>
   tw_inv (snd (tw_popExpired 25 sample_wheel))"
proof -
  have "map we_msgID (fst (tw_popExpired 25 sample_wheel)) = [2, 3]" by code_simp
  with popExpired_exact [OF tw_inv_sample surjective_pairing, of 25] show ?thesis by simp
qed

text \<open>\<open>remove\<close> by message id on a wheel in its heap shape takes out one entry with that id, the one
  it returns, and keeps all others and the heap shape; it reports false, and changes nothing, exactly
  when no entry has the id.\<close>

theorem wheel_remove_exact:
  assumes "tw_inv w" "tw_remove m w = (r, w')"
  shows "tw_inv w' \<and> (case r of
      None \<Rightarrow> w' = w \<and> (\<forall>e \<in> set w. we_msgID e \<noteq> m)
    | Some e \<Rightarrow> we_msgID e = m \<and> mset w = add_mset e (mset w'))"
  using assms tw_remove_Some [OF assms(1), of m] tw_remove_None [of m w w']
  by (auto split: option.split)

theorem wheel_remove_exact_witness:
  "map_option we_nonce (fst (tw_remove 3 sample_wheel)) = Some 9 \<and>
   tw_inv (snd (tw_remove 3 sample_wheel)) \<and> length (snd (tw_remove 3 sample_wheel)) = 2"
proof -
  have "map_option we_nonce (fst (tw_remove 3 sample_wheel)) = Some 9"
    "length (snd (tw_remove 3 sample_wheel)) = 2" by code_simp+
  with wheel_remove_exact [OF tw_inv_sample surjective_pairing, of 3] show ?thesis by simp
qed

end
