(* ===== verification/Apply_Cursor.thy ===== *)
theory Apply_Cursor
  imports Prelude
begin

text \<open>
  \<open>applyCursor\<close> of \<open>internal/queue/queue.go\<close>: the watermark up to which every durable log record has been
  applied to the index.  The set of pending first LSNs is a list; its order stands for the iteration
  order of the Go map.  The cursor is specified by the set of requests begun and finished so far.
\<close>

record applyCursor =
  ac_pending :: "u64 list"
  ac_high :: u64
  ac_contig :: u64

definition cursor_reset :: "u64 \<Rightarrow> applyCursor \<Rightarrow> applyCursor" where
  "cursor_reset lsn c = c\<lparr>ac_pending := [], ac_high := lsn, ac_contig := lsn\<rparr>"

definition recompute :: "applyCursor \<Rightarrow> applyCursor" where
  "recompute c =
    c\<lparr>ac_contig :=
        foldl (\<lambda>contig first. if first = 0 then contig else if first - 1 < contig then first - 1 else contig)
          (ac_high c) (ac_pending c)\<rparr>"

definition cursor_begin :: "u64 \<Rightarrow> u64 \<Rightarrow> applyCursor \<Rightarrow> applyCursor" where
  "cursor_begin first last_lsn c =
    (if last_lsn = 0 then c
     else recompute (c\<lparr>ac_pending := List.insert first (ac_pending c),
                       ac_high := (if ac_high c < last_lsn then last_lsn else ac_high c)\<rparr>))"

definition cursor_finish :: "u64 \<Rightarrow> u64 \<Rightarrow> applyCursor \<Rightarrow> applyCursor" where
  "cursor_finish first last_lsn c =
    (if last_lsn = 0 then c
     else recompute (c\<lparr>ac_pending := removeAll first (ac_pending c)\<rparr>))"

definition applied :: "applyCursor \<Rightarrow> u64" where
  "applied c = ac_contig c"

section \<open>The watermark\<close>

lemma recompute_le:
  "n \<le> foldl (\<lambda>contig first. if first = 0 then contig else if first - 1 < contig then first - 1 else contig) h ps \<longleftrightarrow>
   n \<le> h \<and> (\<forall>f \<in> set ps. f \<noteq> 0 \<longrightarrow> n < (f :: u64))"
proof (induction ps arbitrary: h)
  case (Cons p ps)
  have "n \<le> p - 1 \<longleftrightarrow> n < p" if "p \<noteq> 0"
    using that unat_gt_0 [of p] by (auto simp: word_le_nat_alt word_less_nat_alt unat_minus_one)
  then show ?case using Cons.IH by (auto simp: not_less)
qed simp

lemma recompute_simps [simp]: "ac_pending (recompute c) = ac_pending c" "ac_high (recompute c) = ac_high c"
  by (simp_all add: recompute_def)

lemma applied_recompute:
  "n \<le> applied (recompute c) \<longleftrightarrow> n \<le> ac_high c \<and> (\<forall>f \<in> set (ac_pending c). f \<noteq> 0 \<longrightarrow> n < f)"
  by (simp add: applied_def recompute_def recompute_le)

section \<open>Runs of the committer and the producers\<close>

text \<open>
  The requests \<open>bs\<close> begun after a reset to \<open>l\<close>, in log order, each with its first and last LSN, and the
  set \<open>fs\<close> of those finished.  The committer begins a request with LSNs above those begun before; LSNs that a
  failed append has consumed lie between two requests and belong to none.  Producers finish in any order.
\<close>

inductive cursor_run :: "u64 \<Rightarrow> (u64 \<times> u64) list \<Rightarrow> (u64 \<times> u64) set \<Rightarrow> applyCursor \<Rightarrow> bool" for l where
  reset: "cursor_run l [] {} (cursor_reset l c)"
| begun: "cursor_run l bs fs c \<Longrightarrow> ac_high c < a \<Longrightarrow> a \<le> b \<Longrightarrow> cursor_run l (bs @ [(a, b)]) fs (cursor_begin a b c)"
| finished: "cursor_run l bs fs c \<Longrightarrow> (a, b) \<in> set bs \<Longrightarrow>
    cursor_run l bs (insert (a, b) fs) (cursor_finish a b c)"

definition holds_lsn :: "u64 \<Rightarrow> u64 \<times> u64 \<Rightarrow> bool" where
  "holds_lsn m r \<longleftrightarrow> fst r \<le> m \<and> m \<le> snd r"

definition cursor_inv :: "u64 \<Rightarrow> (u64 \<times> u64) list \<Rightarrow> (u64 \<times> u64) set \<Rightarrow> applyCursor \<Rightarrow> bool" where
  "cursor_inv l bs fs c \<longleftrightarrow> l \<le> ac_high c \<and> fs \<subseteq> set bs \<and>
     (\<forall>r \<in> set bs. l < fst r \<and> fst r \<le> snd r \<and> snd r \<le> ac_high c) \<and>
     (\<forall>r \<in> set bs. \<forall>r' \<in> set bs. fst r = fst r' \<longrightarrow> r' = r) \<and>
     set (ac_pending c) = fst ` (set bs - fs) \<and>
     (\<forall>n. n \<le> applied c \<longleftrightarrow> n \<le> ac_high c \<and> (\<forall>f \<in> set (ac_pending c). n < f))"

lemma cursor_invD:
  assumes "cursor_inv l bs fs c"
  shows "l \<le> ac_high c" "fs \<subseteq> set bs" "r \<in> set bs \<Longrightarrow> l < fst r \<and> fst r \<le> snd r \<and> snd r \<le> ac_high c"
    "r \<in> set bs \<Longrightarrow> r' \<in> set bs \<Longrightarrow> fst r = fst r' \<Longrightarrow> r' = r"
    "set (ac_pending c) = fst ` (set bs - fs)"
    "n \<le> applied c \<longleftrightarrow> n \<le> ac_high c \<and> (\<forall>f \<in> set (ac_pending c). n < f)"
  using assms unfolding cursor_inv_def by blast+

lemma pending_nonzero:
  assumes "cursor_inv l bs fs c" "f \<in> set (ac_pending c)"
  shows "f \<noteq> 0"
proof -
  obtain r where "r \<in> set bs" "f = fst r" using assms(2) cursor_invD(5) [OF assms(1)] by blast
  then show ?thesis using cursor_invD(3) [OF assms(1), of r] by auto
qed

lemma cursor_inv_begin:
  assumes inv: "cursor_inv l bs fs c" and b: "ac_high c < a" "a \<le> b"
  shows "cursor_inv l (bs @ [(a, b)]) fs (cursor_begin a b c)"
proof -
  let ?c = "cursor_begin a b c"
  have nz: "b \<noteq> 0" "a \<noteq> 0" using b by auto
  have hb: "ac_high c < b" using b by simp
  have c: "set (ac_pending ?c) = insert a (set (ac_pending c))" "ac_high ?c = b"
    using nz hb by (auto simp: cursor_begin_def)
  have ap: "n \<le> applied ?c \<longleftrightarrow> n \<le> b \<and> (\<forall>f \<in> set (ac_pending ?c). n < f)" for n
  proof -
    have "f \<noteq> 0" if "f \<in> set (ac_pending ?c)" for f using that c(1) nz pending_nonzero [OF inv] by auto
    then show ?thesis using nz hb by (auto simp: cursor_begin_def applied_recompute)
  qed
  have old: "l < fst r" "fst r \<le> snd r" "snd r < b" "fst r \<noteq> a" if "r \<in> set bs" for r
    using cursor_invD(3) [OF inv that] b by (auto simp: not_less)
  have new: "(a, b) \<notin> set bs" using old(4) [of "(a, b)"] by auto
  show ?thesis unfolding cursor_inv_def c(2)
  proof (intro conjI allI ballI impI)
    show "l \<le> b" "fs \<subseteq> set (bs @ [(a, b)])" using cursor_invD(1,2) [OF inv] hb by auto
  next
    fix r assume "r \<in> set (bs @ [(a, b)])"
    then consider "r \<in> set bs" | "r = (a, b)" by auto
    then show "l < fst r" "fst r \<le> snd r" "snd r \<le> b"
      using old [of r] hb b cursor_invD(1) [OF inv] by (cases; force simp: less_imp_le)+
  next
    fix r r' assume "r \<in> set (bs @ [(a, b)])" "r' \<in> set (bs @ [(a, b)])" "fst r = fst r'"
    then consider "r \<in> set bs" "r' \<in> set bs" "fst r = fst r'" | "r \<in> set bs" "r' = (a, b)" "fst r = a" | "r' \<in> set bs" "fst r' = a" | "r' = r"
      by auto
    then show "r' = r" using cursor_invD(4) [OF inv, of r r'] old(4) by cases simp_all
  next
    have "(a, b) \<notin> fs" using new cursor_invD(2) [OF inv] by blast
    then have "set (bs @ [(a, b)]) - fs = insert (a, b) (set bs - fs)" by auto
    then show "set (ac_pending ?c) = fst ` (set (bs @ [(a, b)]) - fs)"
      using cursor_invD(5) [OF inv] unfolding c(1) by simp
  next
    fix n
    show "n \<le> applied ?c \<longleftrightarrow> n \<le> b \<and> (\<forall>f \<in> set (ac_pending ?c). n < f)" by (rule ap)
  qed
qed

lemma cursor_inv_finish:
  assumes inv: "cursor_inv l bs fs c" and b: "(a, b) \<in> set bs"
  shows "cursor_inv l bs (insert (a, b) fs) (cursor_finish a b c)"
proof -
  let ?c = "cursor_finish a b c"
  have nz: "b \<noteq> 0" using cursor_invD(3) [OF inv b] by auto
  have c: "set (ac_pending ?c) = set (ac_pending c) - {a}" "ac_high ?c = ac_high c"
    using nz by (auto simp: cursor_finish_def)
  have ap: "n \<le> applied ?c \<longleftrightarrow> n \<le> ac_high c \<and> (\<forall>f \<in> set (ac_pending ?c). n < f)" for n
  proof -
    have "f \<noteq> 0" if "f \<in> set (ac_pending ?c)" for f using that c(1) pending_nonzero [OF inv] by auto
    then show ?thesis using nz by (auto simp: cursor_finish_def applied_recompute)
  qed
  have uniq: "r = (a, b)" if "r \<in> set bs" "fst r = a" for r
    using cursor_invD(4) [OF inv b that(1)] that(2) by simp
  have "fst ` (set bs - fs) - {a} = fst ` (set bs - insert (a, b) fs)" using uniq by force
  then have "set (ac_pending ?c) = fst ` (set bs - insert (a, b) fs)" using cursor_invD(5) [OF inv] c(1) by simp
  then show ?thesis using inv b ap unfolding cursor_inv_def c(2) by blast
qed

lemma cursor_run_inv: "cursor_run l bs fs c \<Longrightarrow> cursor_inv l bs fs c"
proof (induction rule: cursor_run.induct)
  case (reset c)
  then show ?case by (auto simp: cursor_inv_def cursor_reset_def applied_def)
qed (simp_all add: cursor_inv_begin cursor_inv_finish)

lemma pending_prefix:
  assumes inv: "cursor_inv l bs fs c"
  shows "(\<forall>f \<in> set (ac_pending c). n < f) \<longleftrightarrow> (\<forall>r \<in> set bs. \<forall>m. m \<le> n \<and> holds_lsn m r \<longrightarrow> r \<in> fs)"
proof (intro iffI allI impI ballI)
  fix r m assume p: "\<forall>f \<in> set (ac_pending c). n < f" and r: "r \<in> set bs" and m: "m \<le> n \<and> holds_lsn m r"
  show "r \<in> fs"
  proof (rule ccontr)
    assume "r \<notin> fs"
    then have "n < fst r" using p r cursor_invD(5) [OF inv] by blast
    then show False using m by (auto simp: holds_lsn_def)
  qed
next
  fix f assume a: "\<forall>r \<in> set bs. \<forall>m. m \<le> n \<and> holds_lsn m r \<longrightarrow> r \<in> fs" and f: "f \<in> set (ac_pending c)"
  then obtain r where r: "r \<in> set bs" "r \<notin> fs" "f = fst r" using cursor_invD(5) [OF inv] by blast
  have "holds_lsn (fst r) r" using cursor_invD(3) [OF inv r(1)] by (simp add: holds_lsn_def)
  then show "n < f" using a r by (metis not_less)
qed

lemma applied_self:
  assumes "cursor_inv l bs fs c"
  shows "applied c \<le> ac_high c" "f \<in> set (ac_pending c) \<Longrightarrow> applied c < f"
  using cursor_invD(6) [OF assms, of "applied c"] by simp_all

lemma applied_finish_mono:
  assumes inv: "cursor_inv l bs fs c" and r: "(a, b) \<in> set bs"
  shows "applied c \<le> applied (cursor_finish a b c)"
proof -
  have "b \<noteq> 0" using cursor_invD(3) [OF inv r] by auto
  then have "set (ac_pending (cursor_finish a b c)) \<subseteq> set (ac_pending c)" "ac_high (cursor_finish a b c) = ac_high c"
    by (auto simp: cursor_finish_def)
  then show ?thesis
    using cursor_invD(6) [OF cursor_inv_finish [OF inv r], of "applied c"] applied_self [OF inv] by auto
qed

lemma applied_begin_mono:
  assumes inv: "cursor_inv l bs fs c" and b: "ac_high c < a" "a \<le> b"
  shows "applied c \<le> applied (cursor_begin a b c)"
proof -
  have nz: "b \<noteq> 0" "ac_high c < b" using b by auto
  then have c: "set (ac_pending (cursor_begin a b c)) = insert a (set (ac_pending c))" "ac_high (cursor_begin a b c) = b"
    by (auto simp: cursor_begin_def)
  have "applied c < a" "applied c \<le> b" using applied_self(1) [OF inv] b(1) nz(2) by auto
  then show ?thesis using cursor_invD(6) [OF cursor_inv_begin [OF inv b], of "applied c"] applied_self(2) [OF inv] unfolding c by auto
qed

section \<open>Property of the cursor\<close>

text \<open>C33. The watermark is exact: after any interleaving of \<open>begin\<close> by the committer, each time with LSNs above
  those begun before (with or without gaps left by failed appends), and \<open>finish\<close> by the producers,
  \<open>applied()\<close> is the largest LSN, up to the highest one begun, such that every request with an LSN at or
  below it has finished.  So a checkpoint at \<open>applied()\<close> never drops a record whose effect is still missing
  from the index, and it drops as much as possible; no step moves the watermark back.\<close>

theorem apply_cursor_exact:
  assumes "cursor_run l bs fs c"
  shows "(\<forall>n. n \<le> applied c \<longleftrightarrow> n \<le> ac_high c \<and> (\<forall>r \<in> set bs. \<forall>m. m \<le> n \<and> holds_lsn m r \<longrightarrow> r \<in> fs))
    \<and> l \<le> applied c
    \<and> (\<forall>a b. (a, b) \<in> set bs \<longrightarrow> applied c \<le> applied (cursor_finish a b c))
    \<and> (\<forall>a b. ac_high c < a \<and> a \<le> b \<longrightarrow> applied c \<le> applied (cursor_begin a b c))"
proof -
  note inv = cursor_run_inv [OF assms]
  have exact: "n \<le> applied c \<longleftrightarrow> n \<le> ac_high c \<and> (\<forall>r \<in> set bs. \<forall>m. m \<le> n \<and> holds_lsn m r \<longrightarrow> r \<in> fs)" for n
    using cursor_invD(6) [OF inv, of n] pending_prefix [OF inv, of n] by blast
  have "\<not> holds_lsn m r" if "r \<in> set bs" "m \<le> l" for m r using cursor_invD(3) [OF inv that(1)] that(2) by (auto simp: holds_lsn_def)
  then have "l \<le> applied c" using exact [of l] cursor_invD(1) [OF inv] by blast
  then show ?thesis using exact applied_finish_mono [OF inv] applied_begin_mono [OF inv] by blast
qed

text \<open>Two requests with the gap 13 between them: LSN 13 counts as applied once the first request has finished.\<close>

theorem apply_cursor_exact_witness:
  "applied (cursor_finish 11 12 (cursor_begin 14 15 (cursor_begin 11 12 (cursor_reset 10 (applyCursor.make [] 0 0))))) = 13 \<and>
   applied (cursor_finish 14 15 (cursor_begin 14 15 (cursor_begin 11 12 (cursor_reset 10 (applyCursor.make [] 0 0))))) = 10 \<and>
   10 \<le> applied (cursor_begin 14 15 (cursor_begin 11 12 (cursor_reset 10 (applyCursor.make [] 0 0))))"
proof -
  let ?c = "cursor_reset 10 (applyCursor.make [] 0 0)" and ?c1 = "cursor_begin 11 12 (cursor_reset 10 (applyCursor.make [] 0 0))"
  have h: "ac_high ?c = 10" "ac_high ?c1 = 12" by code_simp+
  have 1: "cursor_run 10 ([] @ [(11, 12)]) {} ?c1" by (rule cursor_run.begun [OF cursor_run.reset]) (simp_all add: h)
  have "cursor_run 10 (([] @ [(11, 12)]) @ [(14, 15)]) {} (cursor_begin 14 15 ?c1)" by (rule cursor_run.begun [OF 1]) (simp_all add: h)
  moreover have "applied (cursor_finish 11 12 (cursor_begin 14 15 ?c1)) = 13" "applied (cursor_finish 14 15 (cursor_begin 14 15 ?c1)) = 10"
    by code_simp+
  ultimately show ?thesis using apply_cursor_exact by blast
qed

end
