(* ===== verification/Receipt.thy ===== *)
theory Receipt
  imports Prelude
begin

text \<open>
  The lease receipts of \<open>internal/queue/queue.go\<close>: \<open>encodeReceipt\<close> is
  \<open>fmt.Sprintf("%d:%d:%016x", msgID, attempt, nonce)\<close> and \<open>decodeReceipt\<close> reads the same format with
  \<open>fmt.Sscanf\<close>.  The verbs are modelled as \<open>fmt\<close> documents them, on ASCII input: a numeric verb skips
  leading blanks (a newline is an error), needs at least one digit, takes digits greedily up to its
  width and fails when the value does not fit in 64 bits; input after the last verb is ignored.
\<close>

section \<open>Printing\<close>

definition hex_digits :: string where "hex_digits = ''0123456789abcdef''"

function (sequential) print_base :: "nat \<Rightarrow> nat \<Rightarrow> string" where
  "print_base b n = (if b < 2 \<or> n < b then [hex_digits ! n] else print_base b (n div b) @ [hex_digits ! (n mod b)])"
  by pat_completeness auto
termination by (relation "measure (\<lambda>(b, n). n)") (auto simp: not_less)

declare print_base.simps [simp del]

definition pad_zero :: "nat \<Rightarrow> string \<Rightarrow> string" where
  "pad_zero w s = replicate (w - length s) CHR ''0'' @ s"

definition encodeReceipt :: "u64 \<Rightarrow> u16 \<Rightarrow> u64 \<Rightarrow> string" where
  "encodeReceipt msgID attempt nonce =
    print_base 10 (unat msgID) @ '':'' @ print_base 10 (unat attempt) @ '':'' @ pad_zero 16 (print_base 16 (unat nonce))"

section \<open>Scanning\<close>

text \<open>\<open>None\<close> is any error of \<open>Sscanf\<close>.\<close>

definition digit_val :: "nat \<Rightarrow> char \<Rightarrow> nat option" where
  "digit_val b c =
    (let n = of_char c :: nat;
         v = (if 48 \<le> n \<and> n \<le> 57 then Some (n - 48)
              else if 97 \<le> n \<and> n \<le> 102 then Some (n - 87)
              else if 65 \<le> n \<and> n \<le> 70 then Some (n - 55) else None)
     in case v of None \<Rightarrow> None | Some d \<Rightarrow> if d < b then Some d else None)"

fun SkipSpace :: "string \<Rightarrow> string option" where
  "SkipSpace [] = Some []"
| "SkipSpace (c # cs) =
    (let n = of_char c :: nat in
     if n = 10 then None
     else if n = 13 \<and> cs \<noteq> [] \<and> (of_char (hd cs) :: nat) = 10 then None
     else if n \<in> set [9, 11, 12, 13, 32] then SkipSpace cs
     else Some (c # cs))"

text \<open>The digits accepted by \<open>scanNumber\<close> within the width, and the rest.\<close>

fun take_digits :: "nat \<Rightarrow> nat \<Rightarrow> string \<Rightarrow> nat list \<times> string" where
  "take_digits b w [] = ([], [])"
| "take_digits b w (c # cs) =
    (case digit_val b c of
       Some d \<Rightarrow> (if w = 0 then ([], c # cs) else case take_digits b (w - 1) cs of (ds, rest) \<Rightarrow> (d # ds, rest))
     | None \<Rightarrow> ([], c # cs))"

definition value_of :: "nat \<Rightarrow> nat list \<Rightarrow> nat" where
  "value_of b ds = foldl (\<lambda>a d. a * b + d) 0 ds"

definition scanUint :: "nat \<Rightarrow> nat option \<Rightarrow> string \<Rightarrow> (u64 \<times> string) option" where
  "scanUint b width s =
    (case SkipSpace s of
       None \<Rightarrow> None
     | Some s1 \<Rightarrow>
         (case take_digits b (case width of None \<Rightarrow> length s1 | Some w \<Rightarrow> w) s1 of
            (ds, rest) \<Rightarrow>
              if ds = [] \<or> 18446744073709551615 < int (value_of b ds) then None
              else Some (word_of_nat (value_of b ds), rest)))"

definition expect :: "char \<Rightarrow> string \<Rightarrow> string option" where
  "expect c s = (case s of [] \<Rightarrow> None | x # xs \<Rightarrow> if x = c then Some xs else None)"

definition decodeReceipt :: "string \<Rightarrow> (u64 \<times> u16 \<times> u64) option" where
  "decodeReceipt s =
    (case scanUint 10 None s of
       None \<Rightarrow> None
     | Some (msgID, s1) \<Rightarrow>
         (case expect CHR '':'' s1 of
            None \<Rightarrow> None
          | Some s2 \<Rightarrow>
              (case scanUint 10 None s2 of
                 None \<Rightarrow> None
               | Some (att, s3) \<Rightarrow>
                   (case expect CHR '':'' s3 of
                      None \<Rightarrow> None
                    | Some s4 \<Rightarrow>
                        (case scanUint 16 (Some 16) s4 of
                           None \<Rightarrow> None
                         | Some (nonce, _) \<Rightarrow> Some (msgID, ucast att, nonce))))))"

section \<open>Scanning what was printed\<close>

lemma hex_digits_val: "d < 16 \<Longrightarrow> d < b \<Longrightarrow> digit_val b (hex_digits ! d) = Some d"
proof -
  have "list_all (\<lambda>d. of_char (hex_digits ! d) = (if d < 10 then 48 + d else 87 + d)) [0..<16]" by code_simp
  then have "of_char (hex_digits ! d) = (if d < 10 then 48 + d else 87 + d)" if "d < 16" for d
    using that by (simp add: list_all_iff)
  then show "d < 16 \<Longrightarrow> d < b \<Longrightarrow> digit_val b (hex_digits ! d) = Some d"
    by (auto simp: digit_val_def Let_def)
qed

text \<open>The digits of a number, most significant first.\<close>

function digits :: "nat \<Rightarrow> nat \<Rightarrow> nat list" where
  "digits b n = (if b < 2 \<or> n < b then [n] else digits b (n div b) @ [n mod b])"
  by pat_completeness auto
termination by (relation "measure (\<lambda>(b, n). n)") (auto simp: not_less)

declare digits.simps [simp del]

lemma print_base_digits: "print_base b n = map ((!) hex_digits) (digits b n)"
proof (induction b n rule: digits.induct)
  case (1 b n)
  then show ?case by (subst print_base.simps, subst digits.simps) simp
qed

lemma digits_less: "2 \<le> b \<Longrightarrow> d \<in> set (digits b n) \<Longrightarrow> d < b"
proof (induction b n rule: digits.induct)
  case (1 b n)
  then show ?case by (subst (asm) (2) digits.simps) (auto split: if_splits)
qed

lemma value_of_append: "value_of b (xs @ [d]) = value_of b xs * b + d"
  by (simp add: value_of_def)

lemma value_of_digits: "value_of b (digits b n) = n"
proof (induction b n rule: digits.induct)
  case (1 b n)
  have "value_of b [n] = n" by (simp add: value_of_def)
  with 1 show ?case by (subst digits.simps) (auto simp: value_of_append)
qed

lemma digits_nonempty [simp]: "digits b n \<noteq> []"
  by (subst digits.simps) simp

lemma length_digits: "2 \<le> b \<Longrightarrow> n < b ^ k \<Longrightarrow> 0 < k \<Longrightarrow> length (digits b n) \<le> k"
proof (induction b n arbitrary: k rule: digits.induct)
  case (1 b n)
  show ?case
  proof (cases "n < b")
    case False
    then obtain j where k: "k = Suc j" using "1.prems" by (cases k) auto
    have "0 < j" using False "1.prems" k by (cases j) auto
    have "n div b < b ^ j" using "1.prems" k by (simp add: less_mult_imp_div_less mult.commute)
    then have "length (digits b (n div b)) \<le> j" using 1 k False \<open>0 < j\<close> by simp
    then show ?thesis using k False "1.prems" by (subst digits.simps) simp
  qed (use "1.prems" in \<open>subst digits.simps; simp\<close>)
qed

definition stops :: "nat \<Rightarrow> string \<Rightarrow> bool" where
  "stops b rest \<longleftrightarrow> (case rest of [] \<Rightarrow> True | c # _ \<Rightarrow> digit_val b c = None)"

lemma take_digits_map:
  assumes "\<forall>d \<in> set ds. d < b" "b \<le> 16" "length ds \<le> w" "stops b rest \<or> w = length ds"
  shows "take_digits b w (map ((!) hex_digits) ds @ rest) = (ds, rest)"
  using assms
proof (induction ds arbitrary: w)
  case Nil
  then show ?case by (cases rest) (auto simp: stops_def split: option.splits)
next
  case (Cons d ds)
  then show ?case using hex_digits_val [of d b] Cons.IH [of "w - 1"] by auto
qed

lemma SkipSpace_digit:
  assumes "d < 16"
  shows "SkipSpace (hex_digits ! d # cs) = Some (hex_digits ! d # cs)"
proof -
  have "list_all (\<lambda>d. (of_char (hex_digits ! d) :: nat) \<notin> set [9, 10, 11, 12, 13, 32]) [0..<16]" by code_simp
  then have "(of_char (hex_digits ! d) :: nat) \<notin> set [9, 10, 11, 12, 13, 32]" using assms by (simp add: list_all_iff)
  then show ?thesis by (simp add: Let_def)
qed

lemma scanUint_map:
  assumes "ds \<noteq> []" "\<forall>d \<in> set ds. d < b" "b \<le> 16" "value_of b ds < 2 ^ 64"
    and "case width of None \<Rightarrow> stops b rest | Some w \<Rightarrow> length ds = w"
  shows "scanUint b width (map ((!) hex_digits) ds @ rest) = Some (word_of_nat (value_of b ds), rest)"
proof -
  obtain d ds' where ds: "ds = d # ds'" using assms(1) by (cases ds) auto
  then have "SkipSpace (map ((!) hex_digits) ds @ rest) = Some (map ((!) hex_digits) ds @ rest)"
    using SkipSpace_digit [of d] assms(2,3) by simp
  moreover have "take_digits b (case width of None \<Rightarrow> length (map ((!) hex_digits) ds @ rest) | Some w \<Rightarrow> w)
      (map ((!) hex_digits) ds @ rest) = (ds, rest)"
    using assms by (intro take_digits_map) (auto split: option.splits)
  moreover have "\<not> 18446744073709551615 < int (value_of b ds)" using assms(4) by simp
  ultimately show ?thesis using assms(1) by (simp add: scanUint_def)
qed

lemma scan_decimal:
  "n < 2 ^ 64 \<Longrightarrow> scanUint 10 None (print_base 10 n @ '':'' @ rest) = Some (word_of_nat n, '':'' @ rest)"
  using scanUint_map [where ds = "digits 10 n" and b = 10 and width = None and rest = "'':'' @ rest"] digits_less [of 10 _ n]
  by (simp add: print_base_digits value_of_digits stops_def digit_val_def Let_def)

lemma scan_hex:
  assumes "n < 2 ^ 64"
  shows "scanUint 16 (Some 16) (pad_zero 16 (print_base 16 n) @ rest) = Some (word_of_nat n, rest)"
proof -
  let ?ds = "replicate (16 - length (digits 16 n)) 0 @ digits 16 n"
  have "value_of b (replicate k 0 @ ds) = value_of b ds" for b k ds
    by (induction k) (simp_all add: value_of_def)
  moreover have "length ?ds = 16" using length_digits [of 16 n 16] assms by simp
  moreover have "pad_zero 16 (print_base 16 n) = map ((!) hex_digits) ?ds"
    by (simp add: pad_zero_def print_base_digits hex_digits_def)
  moreover have "\<forall>d \<in> set ?ds. d < 16" using digits_less [of 16 _ n] by (auto simp: set_replicate_conv_if)
  ultimately show ?thesis
    using scanUint_map [where ds = ?ds and b = 16 and width = "Some 16" and rest = rest] assms by (simp add: value_of_digits)
qed

lemma decode_encode:
  "decodeReceipt (encodeReceipt msgID attempt nonce @ rest) = Some (msgID, attempt, nonce)"
proof -
  have b: "unat msgID < 2 ^ 64" "unat attempt < 2 ^ 64" "unat nonce < 2 ^ 64"
    using unsigned_less [of msgID] unsigned_less [of attempt, where ?'a = nat] unsigned_less [of nonce] by simp_all
  have "ucast (word_of_nat (unat attempt) :: u64) = attempt"
    by (rule bit_word_eqI) (simp add: bit_simps)
  then show ?thesis
    using scan_decimal [OF b(1)] scan_decimal [OF b(2)] scan_hex [OF b(3), of rest]
    by (simp add: decodeReceipt_def encodeReceipt_def expect_def)
qed

section \<open>Property of the receipts\<close>

text \<open>C36. Receipts round-trip: decoding the receipt of a lease, followed by any further text, gives back the
  message id, the attempt and the nonce, for all values of the three.\<close>

theorem receipt_roundtrip:
  "decodeReceipt (encodeReceipt msgID attempt nonce @ rest) = Some (msgID, attempt, nonce)"
  by (rule decode_encode)

end
