(* ===== verification/Queue.thy ===== *)
theory Queue
  imports Queue_Config Ready_Heap Timing_Wheel Apply_Cursor Receipt
begin

text \<open>
  \<open>internal/queue/queue.go\<close>: the queue itself, on top of the ready heap, the two timing wheels, the index,
  the page store and the log.  The record \<open>Queue\<close> has the fields of the Go struct that carry state; the
  shared page store is the field \<open>q_pages\<close>, and the buffered wake-up channel is the flag \<open>q_notify\<close>.

  A handler is the composition of its critical sections and of the commit between them, in the order
  of the source.  What the environment decides is a parameter: the clock readings (\<open>now\<close> at entry,
  \<open>now2\<close> after the commit; within one critical section the clock does not move), the nonces drawn, and
  the outcomes of system calls (\<open>queue_io\<close>).
\<close>

section \<open>State\<close>

record leaseInfo =
  li_nonce :: u64
  li_attempt :: u16
  li_until :: i64
  li_indexRef :: u64

record Queue =
  q_cfg :: Config
  q_ready :: readyHeap
  q_delayed :: timingWheel
  q_inflight :: timingWheel
  q_receipts :: "(u64 \<times> leaseInfo) list"
  q_dead :: "DeadMessage list"
  q_wal :: WAL
  q_idx :: Index
  q_pages :: Store
  q_nextMsgID :: u64
  q_reserved :: int
  q_statEnqueued :: u64
  q_statDelivered :: u64
  q_statAcked :: u64
  q_statNacked :: u64
  q_statExpired :: u64
  q_statReplayed :: u64
  q_notify :: bool
  q_stopped :: bool
  q_lastCheckpointMs :: i64
  q_apply :: applyCursor

definition walCheckpointBytes :: int where "walCheckpointBytes = 33554432"
definition checkpointIntervalMs :: i64 where "checkpointIntervalMs = 300000"
definition commitBatchSize :: nat where "commitBatchSize = 64"

record commitRequest =
  cq_payloadRefs :: "SlotRef list"
  cq_walRecs :: "Record list"

record commitResult =
  cr_firstLSN :: u64
  cr_lastLSN :: u64
  cr_err :: "queue_error option"

record commit_io =
  ci_fsync :: "u32 \<Rightarrow> bool"
  ci_wal :: wal_io

text \<open>
  Outcomes for one handler call: the page-store calls for the i-th payload slot, the i-th index slot and
  the i-th release, the commit, and, for a handler that commits several times, the i-th commit.
\<close>

record queue_io =
  qi_payload :: "nat \<Rightarrow> page_io"
  qi_index :: "nat \<Rightarrow> page_io"
  qi_release :: "nat \<Rightarrow> page_io"
  qi_commit :: "nat \<Rightarrow> commit_io"

section \<open>The committer\<close>

fun dedup_pages :: "u32 list \<Rightarrow> SlotRef list \<Rightarrow> SlotRef list" where
  "dedup_pages seen [] = []"
| "dedup_pages seen (r # rs) =
    (if PageID r \<in> set seen then dedup_pages seen rs else r # dedup_pages (PageID r # seen) rs)"

text \<open>The loop that registers each request as unapplied and answers it.\<close>

fun answer_loop :: "queue_error option \<Rightarrow> u64 \<Rightarrow> commitRequest list \<Rightarrow> applyCursor \<Rightarrow> commitResult list \<times> applyCursor" where
  "answer_loop err assigned [] c = ([], c)"
| "answer_loop err assigned (r # rs) c =
    (if err = None \<and> cq_walRecs r \<noteq> [] then
       (let first = assigned + 1; last_lsn = assigned + word_of_nat (length (cq_walRecs r)) in
        (case answer_loop err last_lsn rs (cursor_begin first last_lsn c) of
           (res, c') \<Rightarrow> (\<lparr>cr_firstLSN = first, cr_lastLSN = last_lsn, cr_err = err\<rparr> # res, c')))
     else
       (case answer_loop err assigned rs c of
          (res, c') \<Rightarrow> (\<lparr>cr_firstLSN = 0, cr_lastLSN = 0, cr_err = err\<rparr> # res, c')))"

definition commit_flush :: "commit_io \<Rightarrow> commitRequest list \<Rightarrow> Queue \<Rightarrow> commitResult list \<times> Queue" where
  "commit_flush io batch q =
    (if batch = [] then ([], q)
     else
       (let syncRefs = dedup_pages [] (concat (map cq_payloadRefs batch));
            allWalRecs = concat (map cq_walRecs batch);
            synced = store_Sync (ci_fsync io) syncRefs (q_pages q);
            (err, lsn, w) =
              (if \<not> synced then (Some SyncErr, 0, q_wal q)
               else (case AppendBatch (ci_wal io) (q_wal q) allWalRecs of
                       (Inl e, w') \<Rightarrow> (Some (CommitErr e), 0, w')
                     | (Inr l, w') \<Rightarrow> (None, l, w')));
            assigned = (if err = None \<and> allWalRecs \<noteq> [] then lsn - word_of_nat (length allWalRecs) else lsn);
            (res, c) = answer_loop err assigned batch (q_apply q)
        in (res, q\<lparr>q_wal := w, q_apply := c\<rparr>)))"

text \<open>
  \<open>runCommitter\<close> on the sequence of events that its select sees: a request, the lag timer, or the stop
  with the requests that are still waiting.  The outcome of the flush, if there is one, comes with the
  event; the result lists the answers in the order the requests were received.
\<close>

datatype committer_event = ReqEvent commitRequest | TickEvent | StopEvent "commitRequest list"

fun runCommitter :: "(commit_io \<times> committer_event) list \<Rightarrow> commitRequest list \<Rightarrow> Queue \<Rightarrow> commitResult list \<times> commitRequest list \<times> Queue" where
  "runCommitter [] batch q = ([], batch, q)"
| "runCommitter ((io, ReqEvent r) # evs) batch q =
    (let batch' = batch @ [r] in
     if commitBatchSize \<le> length batch' then
       (case commit_flush io batch' q of (res, q1) \<Rightarrow>
        (case runCommitter evs [] q1 of (res', b, q2) \<Rightarrow> (res @ res', b, q2)))
     else runCommitter evs batch' q)"
| "runCommitter ((io, TickEvent) # evs) batch q =
    (case commit_flush io batch q of (res, q1) \<Rightarrow>
     (case runCommitter evs [] q1 of (res', b, q2) \<Rightarrow> (res @ res', b, q2)))"
| "runCommitter ((io, StopEvent rs) # evs) batch q =
    (case commit_flush io (batch @ rs) q of (res, q1) \<Rightarrow> (res, [], q1))"

definition submitCommit :: "commit_io \<Rightarrow> SlotRef list \<Rightarrow> Record list \<Rightarrow> Queue \<Rightarrow> commitResult \<times> Queue" where
  "submitCommit io refs walRecs q =
    (if q_stopped q then (\<lparr>cr_firstLSN = 0, cr_lastLSN = 0, cr_err = Some (CommitErr ErrClosed)\<rparr>, q)
     else (case commit_flush io [\<lparr>cq_payloadRefs = refs, cq_walRecs = walRecs\<rparr>] q of (res, q') \<Rightarrow> (hd res, q')))"

definition finish :: "commitResult \<Rightarrow> Queue \<Rightarrow> Queue" where
  "finish res q = q\<lparr>q_apply := cursor_finish (cr_firstLSN res) (cr_lastLSN res) (q_apply q)\<rparr>"

definition notify :: "Queue \<Rightarrow> Queue" where
  "notify q = q\<lparr>q_notify := True\<rparr>"

section \<open>Small helpers\<close>

definition ready_push :: "i64 \<Rightarrow> Slot \<Rightarrow> u64 \<Rightarrow> Queue \<Rightarrow> Queue" where
  "ready_push now slot ref q =
    q\<lparr>q_ready := rh_push (Some now) \<lparr>he_msgID = s_MsgID slot, he_priority = s_Priority slot, he_indexRef = ref,
        he_enqueuedAtMs = s_EnqueuedAtMs slot, he_cachedPri = 0\<rparr> (q_ready q)\<rparr>"

definition idx_put :: "u64 \<Rightarrow> Slot \<Rightarrow> Queue \<Rightarrow> Queue" where
  "idx_put ref slot q = q\<lparr>q_idx := Put ref slot (q_idx q)\<rparr>"

definition idx_free :: "page_io \<Rightarrow> u64 \<Rightarrow> Queue \<Rightarrow> Queue" where
  "idx_free io ref q = (case FreeSlot io ref (q_idx q) (q_pages q) of (i, p) \<Rightarrow> q\<lparr>q_idx := i, q_pages := p\<rparr>)"

definition page_free :: "page_io \<Rightarrow> SlotRef \<Rightarrow> Queue \<Rightarrow> Queue" where
  "page_free io ref q = q\<lparr>q_pages := snd (Release io ref (q_pages q))\<rparr>"

definition unleased :: "u8 \<Rightarrow> Slot \<Rightarrow> Slot" where
  "unleased st s = s\<lparr>s_State := st, s_LeaseUntilMs := 0, s_LeaseNonce := 0\<rparr>"

fun promote_loop :: "i64 \<Rightarrow> wheelEntry list \<Rightarrow> Queue \<Rightarrow> Queue" where
  "promote_loop now [] q = q"
| "promote_loop now (e # es) q =
    (case GetByRef (we_indexRef e) (q_idx q) of
       None \<Rightarrow> promote_loop now es q
     | Some slot \<Rightarrow>
         (if s_MsgID slot = 0 then promote_loop now es q
          else promote_loop now es
                 (ready_push now slot (we_indexRef e) (idx_put (we_indexRef e) (slot\<lparr>s_State := StateReady\<rparr>) q))))"

definition promoteLocked :: "i64 \<Rightarrow> Queue \<Rightarrow> Queue" where
  "promoteLocked now q =
    (case tw_popExpired now (q_delayed q) of (es, w) \<Rightarrow> promote_loop now es (q\<lparr>q_delayed := w\<rparr>))"

definition deadLetterLocked :: "Slot \<Rightarrow> u64 \<Rightarrow> bytes \<Rightarrow> Queue \<Rightarrow> Queue" where
  "deadLetterLocked slot indexRef payload q =
    (if \<exists>d \<in> set (q_dead q). dm_ID d = s_MsgID slot then idx_put indexRef (unleased StateDead slot) q
     else idx_put indexRef (unleased StateDead slot)
            (q\<lparr>q_dead := q_dead q @ [\<lparr>dm_ID = s_MsgID slot, dm_Payload = payload, dm_Priority = s_Priority slot,
                dm_Attempts = s_Attempts slot, dm_EnqueuedAtMs = s_EnqueuedAtMs slot, dm_indexRef = indexRef,
                dm_payloadRef = s_PayloadRef slot\<rparr>]\<rparr>))"

text \<open>
  The bytes from the offset of a reference to the end of its mapped page: what a slice returned by
  \<open>Read\<close> can be re-sliced to (its capacity).
\<close>

definition slice_cap :: "SlotRef \<Rightarrow> Store \<Rightarrow> bytes" where
  "slice_cap ref s =
    (case (map_of (st_pgs s) (PageID ref), map_of (st_files s) (PageID ref)) of
       (Some pg, Some im) \<Rightarrow> map (image_byte pg im) [unat (Offset ref)..<nat (pg_dataLen pg)]
     | _ \<Rightarrow> [])"

text \<open>\<open>None\<close> is the panic of \<open>data[:slot.PayloadLen]\<close>.\<close>

definition readPayloadLocked :: "Slot \<Rightarrow> Queue \<Rightarrow> bytes option" where
  "readPayloadLocked slot q =
    (if s_MsgID slot = 0 then Some []
     else (case store_Read (s_PayloadRef slot) (q_pages q) of
             Inl _ \<Rightarrow> Some []
           | Inr data \<Rightarrow>
               (let cap = slice_cap (s_PayloadRef slot) (q_pages q); n = unat (s_PayloadLen slot) in
                if n \<le> length cap then Some (take n cap) else None)))"

definition findSlot :: "u64 \<Rightarrow> Queue \<Rightarrow> (u64 \<times> Slot) option" where
  "findSlot msgID q =
    foldl (\<lambda>found (ref, s). if s_MsgID s = msgID then Some (ref, s) else found) None (Scan (q_idx q))"

definition bumpMsgID :: "u64 \<Rightarrow> Queue \<Rightarrow> Queue" where
  "bumpMsgID v q = (if v \<le> q_nextMsgID q then q else q\<lparr>q_nextMsgID := v\<rparr>)"

end
