(* ===== verification/Queue_Ops.thy ===== *)
theory Queue_Ops
  imports Queue
begin

text \<open>
  The operations of \<open>internal/queue/queue.go\<close>: enqueueing, leasing, acknowledging, dead letters and their
  replay, the background tick, checkpoints, recovery and shutdown.
\<close>

section \<open>Enqueue\<close>

record item =
  it_ref :: SlotRef
  it_msgID :: u64
  it_indexRef :: u64
  it_availMs :: i64
  it_prio :: u8

text \<open>Phase 1; the items allocated before a failure are returned with it, for the deferred release.\<close>

definition payload_size :: "EnqueueRequest \<Rightarrow> u32" where
  "payload_size r = (let sz = word_of_nat (length (er_Payload r)) in if sz = 0 then 1 else sz)"

fun alloc_payloads :: "(nat \<Rightarrow> page_io) \<Rightarrow> i64 \<Rightarrow> nat \<Rightarrow> EnqueueRequest list \<Rightarrow> Store \<Rightarrow> queue_error option \<times> item list \<times> Store" where
  "alloc_payloads io now i [] p = (None, [], p)"
| "alloc_payloads io now i (r # rs) p =
    (case Alloc (io i) (payload_size r) p of
       (Inl e, p1) \<Rightarrow> (Some (PageErr e), [], p1)
     | (Inr (ref, lo, hi), p1) \<Rightarrow>
         (let p2 = (if er_Payload r \<noteq> [] then store_copy (PageID ref) (nat lo) (take (nat (hi - lo)) (er_Payload r)) p1
                    else p1);
              availMs = (if 0 < sint (er_DelayMs r) then now + er_DelayMs r else now);
              it = \<lparr>it_ref = ref, it_msgID = 0, it_indexRef = 0, it_availMs = availMs, it_prio = er_Priority r\<rparr>
          in (case alloc_payloads io now (Suc i) rs p2 of (err, its, p3) \<Rightarrow> (err, it # its, p3))))"

text \<open>Phase 2; the items whose index slot was allocated before a failure are returned with it.\<close>

fun assign_ids :: "(nat \<Rightarrow> page_io) \<Rightarrow> nat \<Rightarrow> item list \<Rightarrow> u64 \<Rightarrow> Store \<Rightarrow> queue_error option \<times> item list \<times> u64 \<times> Store" where
  "assign_ids io i [] nextID p = (None, [], nextID, p)"
| "assign_ids io i (it # its) nextID p =
    (let msgID = nextID + 1 in
     (case AllocSlot (io i) p of
        (Inl e, p1) \<Rightarrow> (Some (PageErr e), [], msgID, p1)
      | (Inr indexRef, p1) \<Rightarrow>
          (case assign_ids io (Suc i) its msgID p1 of
             (err, its', n, p2) \<Rightarrow> (err, it\<lparr>it_msgID := msgID, it_indexRef := indexRef\<rparr> # its', n, p2))))"

definition enqueue_rec :: "i64 \<Rightarrow> EnqueueRequest \<Rightarrow> item \<Rightarrow> Record" where
  "enqueue_rec now r it =
    \<lparr>rec_LSN = 0, rec_Op = OpEnqueue, rec_Flags = 0, rec_Body = BEnqueue
      \<lparr>en_MsgID = it_msgID it, en_IndexRef = it_indexRef it, en_PayloadRef = it_ref it,
       en_PayloadLen = word_of_nat (length (er_Payload r)), en_Priority = er_Priority r,
       en_EnqueuedAtMs = now, en_AvailableAtMs = it_availMs it\<rparr>\<rparr>"

definition item_slot :: "i64 \<Rightarrow> EnqueueRequest \<Rightarrow> item \<Rightarrow> Slot" where
  "item_slot now r it =
    \<lparr>s_MsgID = it_msgID it, s_EnqueuedAtMs = now, s_AvailableAtMs = it_availMs it, s_LeaseUntilMs = 0,
     s_PayloadRef = it_ref it, s_PayloadLen = word_of_nat (length (er_Payload r)), s_Priority = it_prio it,
     s_State = (if sint now < sint (it_availMs it) then StateDelayed else StateReady), s_Attempts = 0, s_LeaseNonce = 0\<rparr>"

text \<open>Phase 4: one item enters the index and the ready heap or the delay wheel.\<close>

definition apply_item :: "i64 \<Rightarrow> i64 \<Rightarrow> EnqueueRequest \<Rightarrow> item \<Rightarrow> Queue \<Rightarrow> Queue" where
  "apply_item now now2 r it q =
    (let slot = item_slot now r it; q1 = idx_put (it_indexRef it) slot q in
     if s_State slot = StateReady then ready_push now2 slot (it_indexRef it) q1
     else q1\<lparr>q_delayed := tw_add \<lparr>we_deadline = it_availMs it, we_msgID = it_msgID it, we_indexRef = it_indexRef it, we_nonce = 0\<rparr>
                (q_delayed q1)\<rparr>)"

fun apply_items :: "i64 \<Rightarrow> i64 \<Rightarrow> EnqueueRequest list \<Rightarrow> item list \<Rightarrow> Queue \<Rightarrow> Queue" where
  "apply_items now now2 (r # rs) (it # its) q = apply_items now now2 rs its (apply_item now now2 r it q)"
| "apply_items now now2 _ _ q = q"

text \<open>The deferred clean-up: the payload slots, then the index slots.\<close>

fun release_refs :: "(nat \<Rightarrow> page_io) \<Rightarrow> nat \<Rightarrow> SlotRef list \<Rightarrow> Queue \<Rightarrow> Queue" where
  "release_refs io i [] q = q"
| "release_refs io i (r # rs) q = release_refs io (Suc i) rs (page_free (io i) r q)"

fun free_slots :: "(nat \<Rightarrow> page_io) \<Rightarrow> nat \<Rightarrow> u64 list \<Rightarrow> Queue \<Rightarrow> Queue" where
  "free_slots io i [] q = q"
| "free_slots io i (r # rs) q = free_slots io (Suc i) rs (idx_free (io i) r q)"

definition enqueue_fail :: "queue_io \<Rightarrow> nat \<Rightarrow> item list \<Rightarrow> item list \<Rightarrow> Queue \<Rightarrow> Queue" where
  "enqueue_fail io n its ids q =
    (let q1 = free_slots (qi_release io) (length its) (map it_indexRef ids)
                (release_refs (qi_release io) 0 (map it_ref its) q)
     in q1\<lparr>q_reserved := q_reserved q1 - int n\<rparr>)"

definition over_depth :: "nat \<Rightarrow> Queue \<Rightarrow> bool" where
  "over_depth n q \<longleftrightarrow> 0 < cfg_MaxDepth (q_cfg q) \<and>
     cfg_MaxDepth (q_cfg q) < int (rh_Len (q_ready q)) + int (length (q_delayed q)) + q_reserved q + int n"

text \<open>Phase 3 and 4 for the items \<open>its'\<close>, whose payload slots are those of \<open>its\<close>.\<close>

definition enqueue_commit :: "queue_io \<Rightarrow> i64 \<Rightarrow> i64 \<Rightarrow> EnqueueRequest list \<Rightarrow> item list \<Rightarrow> item list \<Rightarrow> Queue
    \<Rightarrow> (queue_error + u64 list) \<times> Queue" where
  "enqueue_commit io now now2 reqs its its' q =
    (case submitCommit (qi_commit io 0) (map it_ref its') (map2 (enqueue_rec now) reqs its') q of
       (res, q2) \<Rightarrow>
         (case cr_err res of
            Some e \<Rightarrow> (Inl e, enqueue_fail io (length reqs) its its' q2)
          | None \<Rightarrow>
              (let q3 = apply_items now now2 reqs its' q2;
                   q4 = finish res (q3\<lparr>q_reserved := q_reserved q3 - int (length reqs)\<rparr>)
               in (Inr (map it_msgID its'),
                   notify (q4\<lparr>q_statEnqueued := q_statEnqueued q4 + word_of_nat (length reqs)\<rparr>)))))"

definition enqueue_reserved :: "queue_io \<Rightarrow> i64 \<Rightarrow> i64 \<Rightarrow> EnqueueRequest list \<Rightarrow> Queue \<Rightarrow> (queue_error + u64 list) \<times> Queue" where
  "enqueue_reserved io now now2 reqs q =
    (case alloc_payloads (qi_payload io) now 0 reqs (q_pages q) of
       (Some e, its, p) \<Rightarrow> (Inl e, enqueue_fail io (length reqs) its [] (q\<lparr>q_pages := p\<rparr>))
     | (None, its, p) \<Rightarrow>
         (case assign_ids (qi_index io) 0 its (q_nextMsgID q) p of
            (Some e, ids, nid, p') \<Rightarrow>
              (Inl e, enqueue_fail io (length reqs) its ids (q\<lparr>q_pages := p', q_nextMsgID := nid\<rparr>))
          | (None, its', nid, p') \<Rightarrow>
              enqueue_commit io now now2 reqs its its' (q\<lparr>q_pages := p', q_nextMsgID := nid\<rparr>)))"

definition q_Enqueue :: "queue_io \<Rightarrow> i64 \<Rightarrow> i64 \<Rightarrow> EnqueueRequest list \<Rightarrow> Queue \<Rightarrow> (queue_error + u64 list) \<times> Queue" where
  "q_Enqueue io now now2 reqs q =
    (if reqs = [] then (Inr [], q)
     else
       (let maxDel = maxDelayMs (q_cfg q); n = length reqs in
        (case find (\<lambda>r. sint maxDel < sint (er_DelayMs r)) reqs of
           Some r \<Rightarrow> (Inl (ErrDelayTooLong (er_DelayMs r) maxDel), q)
         | None \<Rightarrow>
             (if over_depth n q then (Inl ErrFull, q)
              else enqueue_reserved io now now2 reqs (q\<lparr>q_reserved := q_reserved q + int n\<rparr>)))))"

section \<open>Lease\<close>

text \<open>What the loop collects for one delivery: the delivery, the payload reference and length, the record.\<close>

record leased =
  ls_delivery :: Delivery
  ls_ref :: SlotRef
  ls_len :: u32
  ls_rec :: Record

definition lease_slot :: "i64 \<Rightarrow> u64 \<Rightarrow> Slot \<Rightarrow> Slot" where
  "lease_slot until nonce s =
    s\<lparr>s_Attempts := s_Attempts s + 1, s_State := StateInflight, s_LeaseUntilMs := until, s_LeaseNonce := nonce\<rparr>"

definition lease_one :: "i64 \<Rightarrow> u64 \<Rightarrow> u64 \<Rightarrow> Slot \<Rightarrow> Queue \<Rightarrow> leased \<times> Queue" where
  "lease_one until nonce ref slot0 q =
    (let slot = lease_slot until nonce slot0;
         q1 = idx_put ref slot q;
         q2 = q1\<lparr>q_receipts := AList.update (s_MsgID slot)
                \<lparr>li_nonce = nonce, li_attempt = s_Attempts slot, li_until = until, li_indexRef = ref\<rparr> (q_receipts q1),
                q_inflight := tw_add \<lparr>we_deadline = until, we_msgID = s_MsgID slot, we_indexRef = ref, we_nonce = nonce\<rparr> (q_inflight q1)\<rparr>
     in (\<lparr>ls_delivery = \<lparr>d_ID = s_MsgID slot, d_Payload = [], d_Priority = s_Priority slot, d_Attempt = s_Attempts slot,
                          d_Receipt = encodeReceipt (s_MsgID slot) (s_Attempts slot) nonce, d_LeaseUntilMs = until\<rparr>,
          ls_ref = s_PayloadRef slot, ls_len = s_PayloadLen slot,
          ls_rec = \<lparr>rec_LSN = 0, rec_Op = OpLease, rec_Flags = 0, rec_Body = BLease
             \<lparr>le_MsgID = s_MsgID slot, le_Nonce = nonce, le_Attempt = s_Attempts slot, le_LeaseUntilMs = until\<rparr>\<rparr>\<rparr>, q2))"

lemma rh_Len_pop: "0 < rh_Len h \<Longrightarrow> rh_pop h = (e, h') \<Longrightarrow> rh_Len h' < rh_Len h"
  using length_heap_Pop [of "rh_Less (rh_dir h)" "rh_entries h"]
  by (auto simp: rh_Len_def rh_pop_def split: prod.splits)

lemma lease_one_ready: "lease_one until nonce ref slot q = (l, q2) \<Longrightarrow> q_ready q2 = q_ready q"
  by (auto simp: lease_one_def idx_put_def Let_def)

function lease_loop :: "(nat \<Rightarrow> u64) \<Rightarrow> i64 \<Rightarrow> nat \<Rightarrow> nat \<Rightarrow> Queue \<Rightarrow> leased list \<times> Queue" where
  "lease_loop nonces until i mx q =
    (if i < mx \<and> 0 < rh_Len (q_ready q) then
       (case rh_pop (q_ready q) of
          (e, rdy) \<Rightarrow>
            (let q1 = q\<lparr>q_ready := rdy\<rparr> in
             (case GetByRef (he_indexRef e) (q_idx q1) of
                None \<Rightarrow> lease_loop nonces until i mx q1
              | Some slot \<Rightarrow>
                  (if s_MsgID slot = 0 then lease_loop nonces until i mx q1
                   else (case lease_one until (nonces i) (he_indexRef e) slot q1 of
                           (l, q2) \<Rightarrow> (case lease_loop nonces until (Suc i) mx q2 of
                                         (ls, q3) \<Rightarrow> (l # ls, q3)))))))
     else ([], q))"
  by pat_completeness auto
termination
  by (relation "measure (\<lambda>(nonces, until, i, mx, q). rh_Len (q_ready q))")
    (auto dest!: lease_one_ready [OF sym] dest: rh_Len_pop [OF _ sym])

declare lease_loop.simps [simp del]

fun rollback_loop :: "i64 \<Rightarrow> Delivery list \<Rightarrow> Queue \<Rightarrow> Queue" where
  "rollback_loop now [] q = q"
| "rollback_loop now (d # ds) q =
    (case decodeReceipt (d_Receipt d) of
       None \<Rightarrow> rollback_loop now ds q
     | Some (_, attempt, nonce) \<Rightarrow>
         (case map_of (q_receipts q) (d_ID d) of
            None \<Rightarrow> rollback_loop now ds q
          | Some info \<Rightarrow>
              (if li_nonce info \<noteq> nonce \<or> li_attempt info \<noteq> attempt then rollback_loop now ds q
               else
                 (let q1 = q\<lparr>q_receipts := AList.delete (d_ID d) (q_receipts q),
                             q_inflight := snd (tw_remove (d_ID d) (q_inflight q))\<rparr> in
                  (case GetByRef (li_indexRef info) (q_idx q1) of
                     None \<Rightarrow> rollback_loop now ds q1
                   | Some slot \<Rightarrow>
                       (let s1 = unleased StateReady slot;
                            s2 = (if 0 < s_Attempts s1 then s1\<lparr>s_Attempts := s_Attempts s1 - 1\<rparr> else s1)
                        in rollback_loop now ds (ready_push now s2 (li_indexRef info) (idx_put (li_indexRef info) s2 q1))))))))"

definition rollbackLeases :: "i64 \<Rightarrow> Delivery list \<Rightarrow> Queue \<Rightarrow> Queue" where
  "rollbackLeases now ds q = rollback_loop now ds q"

text \<open>The copy of the payload into a delivery.\<close>

definition fill_payload :: "Store \<Rightarrow> leased \<Rightarrow> Delivery" where
  "fill_payload p l =
    (case store_Read (ls_ref l) p of
       Inl _ \<Rightarrow> ls_delivery l
     | Inr data \<Rightarrow> (if unat (ls_len l) \<le> length data
                     then (ls_delivery l)\<lparr>d_Payload := take (unat (ls_len l)) data\<rparr> else ls_delivery l))"

text \<open>
  \<open>make([]walPkg.Record, 0, max)\<close> panics when the capacity times the element size (32 bytes) exceeds what
  the runtime can address, \<open>2 ^ 48\<close> bytes on 64-bit Linux; the slice of 16-byte payload references made
  before it has twice that limit.  A smaller slice is taken to be allocated.  The panic happens with the
  mutex held and after the promotion.
\<close>

definition leaseCap :: int where "leaseCap = 2 ^ 43"

definition q_Lease :: "queue_io \<Rightarrow> (nat \<Rightarrow> u64) \<Rightarrow> i64 \<Rightarrow> i64 \<Rightarrow> int \<Rightarrow> i64 \<Rightarrow> Queue \<Rightarrow> (queue_error + Delivery list) \<times> Queue" where
  "q_Lease io nonces now now2 mx vis q =
    (let mx' = (if mx \<le> 0 then 1 else nat mx);
         visDur = (if sint vis \<le> 0 then visibilityMs (q_cfg q) else vis);
         until = now + visDur in
     if leaseCap < mx then (Inl Panic, promoteLocked now q)
     else
     (case lease_loop nonces until 0 mx' (promoteLocked now q) of
        (ls, q1) \<Rightarrow>
          (let leaseRecs = (if cfg_DurableLeases (q_cfg q1) then map ls_rec ls else []);
               done = (\<lambda>q'. (Inr (map (fill_payload (q_pages q')) ls),
                             q'\<lparr>q_statDelivered := q_statDelivered q' + word_of_nat (length ls)\<rparr>)) in
           if leaseRecs = [] then done q1
           else (case submitCommit (qi_commit io 0) [] leaseRecs q1 of
                   (res, q2) \<Rightarrow>
                     (case cr_err res of
                        Some e \<Rightarrow> (Inl e, rollbackLeases now2 (map ls_delivery ls) q2)
                      | None \<Rightarrow> done (finish res q2))))))"

text \<open>
  \<open>LeaseWait\<close>: when nothing is ready, \<open>None\<close> is the timeout and \<open>Some env\<close> a wake-up, where \<open>env\<close> is what
  the other goroutines did to the queue while this one was waiting; the wake-up takes the token.
\<close>

definition LeaseWait :: "queue_io \<Rightarrow> (nat \<Rightarrow> u64) \<Rightarrow> i64 \<Rightarrow> i64 \<Rightarrow> int \<Rightarrow> i64 \<Rightarrow>
    ((Queue \<Rightarrow> Queue) \<times> queue_io \<times> (nat \<Rightarrow> u64) \<times> i64 \<times> i64) option \<Rightarrow> Queue \<Rightarrow> (queue_error + Delivery list) \<times> Queue" where
  "LeaseWait io nonces now now2 mx vis wake q =
    (case q_Lease io nonces now now2 mx vis q of
       (Inl e, q1) \<Rightarrow> (Inl e, q1)
     | (Inr ds, q1) \<Rightarrow>
         (if ds \<noteq> [] then (Inr ds, q1)
          else (case wake of
                  None \<Rightarrow> (Inr [], q1)
                | Some (env, io', nonces', now', now2') \<Rightarrow>
                    q_Lease io' nonces' now' now2' mx vis ((env q1)\<lparr>q_notify := False\<rparr>))))"

section \<open>Ack and Nack\<close>

definition restoreLeaseLocked :: "leaseInfo \<Rightarrow> Slot \<Rightarrow> Queue \<Rightarrow> Queue" where
  "restoreLeaseLocked info slot q =
    (if s_MsgID slot = 0 then q
     else if map_of (q_receipts q) (s_MsgID slot) \<noteq> None then q
     else
       (let q1 = idx_put (li_indexRef info)
                   (slot\<lparr>s_State := StateInflight, s_LeaseUntilMs := li_until info, s_LeaseNonce := li_nonce info\<rparr>) q
        in q1\<lparr>q_receipts := AList.update (s_MsgID slot) info (q_receipts q1),
              q_inflight := tw_add \<lparr>we_deadline = li_until info, we_msgID = s_MsgID slot,
                                    we_indexRef = li_indexRef info, we_nonce = li_nonce info\<rparr> (q_inflight q1)\<rparr>))"

text \<open>
  The first critical section of \<open>Ack\<close> and \<open>Nack\<close>: check the receipt against the current lease and take
  the lease out.  A missing slot reads as the zero \<open>Slot\<close>.
\<close>

definition zero_slot :: Slot where
  "zero_slot = Slot.make 0 0 0 0 0 0 0 0 0 0"

definition take_lease :: "string \<Rightarrow> Queue \<Rightarrow> (u64 \<times> leaseInfo \<times> Slot) option \<times> Queue" where
  "take_lease receipt q =
    (case decodeReceipt receipt of
       None \<Rightarrow> (None, q)
     | Some (msgID, attempt, nonce) \<Rightarrow>
         (case map_of (q_receipts q) msgID of
            None \<Rightarrow> (None, q)
          | Some info \<Rightarrow>
              (if li_nonce info \<noteq> nonce \<or> li_attempt info \<noteq> attempt then (None, q)
               else
                 (let q1 = q\<lparr>q_receipts := AList.delete msgID (q_receipts q),
                             q_inflight := snd (tw_remove msgID (q_inflight q))\<rparr>;
                      slot = (case GetByRef (li_indexRef info) (q_idx q1) of None \<Rightarrow> zero_slot | Some s \<Rightarrow> s)
                  in (Some (msgID, info, slot), q1)))))"

definition mk_rec :: "Op \<Rightarrow> Body \<Rightarrow> Record" where
  "mk_rec opc body = \<lparr>rec_LSN = 0, rec_Op = opc, rec_Flags = 0, rec_Body = body\<rparr>"

definition q_Ack :: "queue_io \<Rightarrow> string \<Rightarrow> Queue \<Rightarrow> (queue_error + unit) \<times> Queue" where
  "q_Ack io receipt q =
    (case take_lease receipt q of
       (None, q1) \<Rightarrow> (Inl ErrBadReceipt, q1)
     | (Some (msgID, info, slot), q1) \<Rightarrow>
         (case submitCommit (qi_commit io 0) [] [mk_rec OpAck (BAck \<lparr>ak_MsgID = msgID, ak_Nonce = li_nonce info\<rparr>)] q1 of
            (res, q2) \<Rightarrow>
              (case cr_err res of
                 Some e \<Rightarrow> (Inl e, restoreLeaseLocked info slot q2)
               | None \<Rightarrow>
                   (let q3 = (if s_MsgID slot \<noteq> 0 then page_free (qi_release io 0) (s_PayloadRef slot) q2 else q2);
                        q4 = finish res (idx_free (qi_release io 1) (li_indexRef info) q3)
                    in (Inr (), q4\<lparr>q_statAcked := q_statAcked q4 + 1\<rparr>)))))"

definition to_dead :: "Slot \<Rightarrow> Queue \<Rightarrow> bool" where
  "to_dead slot q \<longleftrightarrow> 0 < cfg_MaxAttempts (q_cfg q) \<and> cfg_MaxAttempts (q_cfg q) \<le> s_Attempts slot"

definition nack_requeue :: "i64 \<Rightarrow> i64 \<Rightarrow> u64 \<Rightarrow> Slot \<Rightarrow> Queue \<Rightarrow> bool \<times> Queue" where
  "nack_requeue now2 requeueAt ref slot q =
    (if sint requeueAt \<le> sint now2 then
       (let s1 = (unleased StateReady slot)\<lparr>s_AvailableAtMs := requeueAt\<rparr>
        in (True, ready_push now2 s1 ref (idx_put ref s1 q)))
     else
       (let s1 = (unleased StateDelayed slot)\<lparr>s_AvailableAtMs := requeueAt\<rparr>; q1 = idx_put ref s1 q
        in (False, q1\<lparr>q_delayed := tw_add \<lparr>we_deadline = requeueAt, we_msgID = s_MsgID s1, we_indexRef = ref, we_nonce = 0\<rparr>
                        (q_delayed q1)\<rparr>)))"

text \<open>A panic in \<open>readPayloadLocked\<close> leaves the state of the moment, with the mutex held.\<close>

definition q_Nack :: "queue_io \<Rightarrow> i64 \<Rightarrow> i64 \<Rightarrow> string \<Rightarrow> i64 \<Rightarrow> Queue \<Rightarrow> (queue_error + unit) \<times> Queue" where
  "q_Nack io now now2 receipt delayMs q =
    (case take_lease receipt q of
       (None, q1) \<Rightarrow> (Inl ErrBadReceipt, q1)
     | (Some (msgID, info, slot), q1) \<Rightarrow>
         (let requeueAt = (if 0 < sint delayMs then now + delayMs else now);
              dead = to_dead slot q1;
              rc = (if dead then mk_rec OpDead (BDead \<lparr>de_MsgID = msgID, de_Reason = 1\<rparr>)
                    else mk_rec OpNack (BNack \<lparr>na_MsgID = msgID, na_Nonce = li_nonce info, na_RequeueAtMs = requeueAt\<rparr>)) in
          (case submitCommit (qi_commit io 0) [] [rc] q1 of
             (res, q2) \<Rightarrow>
               (case cr_err res of
                  Some e \<Rightarrow> (Inl e, restoreLeaseLocked info slot q2)
                | None \<Rightarrow>
                    (case (if dead then map_option (\<lambda>payload. (False, deadLetterLocked slot (li_indexRef info) payload q2)) (readPayloadLocked slot q2)
                           else Some (nack_requeue now2 requeueAt (li_indexRef info) slot q2)) of
                       None \<Rightarrow> (Inl Panic, q2)
                     | Some (promoted, q3) \<Rightarrow>
                         (let q4 = finish res q3; q5 = (if promoted then notify q4 else q4)
                          in (Inr (), q5\<lparr>q_statNacked := q_statNacked q5 + 1\<rparr>)))))))"

section \<open>Dead letters\<close>

definition DeadLetters :: "int \<Rightarrow> Queue \<Rightarrow> DeadMessage list" where
  "DeadLetters limit q =
    (if limit \<le> 0 \<or> int (length (q_dead q)) < limit then q_dead q else take (nat limit) (q_dead q))"

fun free_dead :: "(nat \<Rightarrow> page_io) \<Rightarrow> nat \<Rightarrow> DeadMessage list \<Rightarrow> Queue \<Rightarrow> Queue" where
  "free_dead io i [] q = q"
| "free_dead io i (dm # dms) q =
    (let q1 = (if dm_payloadRef dm \<noteq> 0 then page_free (io (2 * i)) (dm_payloadRef dm) q else q);
         q2 = (if dm_indexRef dm \<noteq> 0 then idx_free (io (2 * i + 1)) (dm_indexRef dm) q1 else q1)
     in free_dead io (Suc i) dms q2)"

text \<open>\<open>fio\<close> gives the outcomes of the releases after the enqueue.\<close>

definition q_Replay :: "queue_io \<Rightarrow> (nat \<Rightarrow> page_io) \<Rightarrow> i64 \<Rightarrow> i64 \<Rightarrow> u64 list \<Rightarrow> i64 \<Rightarrow> Queue \<Rightarrow> (queue_error + u64 list) \<times> Queue" where
  "q_Replay io fio now now2 ids delayMs q =
    (let sel = (\<lambda>dm. ids = [] \<or> dm_ID dm \<in> set ids);
         toReplay = filter sel (q_dead q); remaining = filter (\<lambda>dm. \<not> sel dm) (q_dead q);
         q1 = q\<lparr>q_dead := remaining\<rparr> in
     if toReplay = [] then (Inr [], q1)
     else
       (case q_Enqueue io now now2 (map (\<lambda>dm. \<lparr>er_Payload = dm_Payload dm, er_Priority = dm_Priority dm, er_DelayMs = delayMs\<rparr>) toReplay) q1 of
          (Inl e, q2) \<Rightarrow> (Inl e, q2\<lparr>q_dead := q_dead q2 @ toReplay\<rparr>)
        | (Inr newIDs, q2) \<Rightarrow>
            (let q3 = free_dead fio 0 toReplay q2
             in (Inr newIDs, q3\<lparr>q_statReplayed := q_statReplayed q3 + word_of_nat (length newIDs)\<rparr>))))"

section \<open>Checkpoint, statistics, shutdown\<close>

definition checkpoint_lsn :: "Queue \<Rightarrow> u64" where
  "checkpoint_lsn q =
    (if applied (q_apply q) < w_durableLSN (q_wal q) then applied (q_apply q) else w_durableLSN (q_wal q))"

definition q_Checkpoint :: "index_io \<Rightarrow> (u64 \<Rightarrow> bool) \<Rightarrow> Queue \<Rightarrow> bool \<times> Queue" where
  "q_Checkpoint xio rm q =
    (let lsn = checkpoint_lsn q in
     (case index_Checkpoint xio lsn (q_idx q) of
        (False, idx) \<Rightarrow> (False, q\<lparr>q_idx := idx\<rparr>)
      | (True, idx) \<Rightarrow>
          (case TruncatePrefix rm lsn (q_wal q) of (ok, w) \<Rightarrow> (ok, q\<lparr>q_idx := idx, q_wal := w\<rparr>))))"

definition q_Stats :: "Queue \<Rightarrow> Stats" where
  "q_Stats q =
    \<lparr>sta_Ready = rh_Len (q_ready q), sta_Delayed = length (q_delayed q), sta_Inflight = length (q_receipts q),
     sta_Dead = length (q_dead q), sta_Enqueued = q_statEnqueued q, sta_Delivered = q_statDelivered q,
     sta_Acked = q_statAcked q, sta_Nacked = q_statNacked q, sta_Expired = q_statExpired q,
     sta_Replayed = q_statReplayed q\<rparr>"

definition q_Close :: "index_io \<Rightarrow> (u64 \<Rightarrow> bool) \<Rightarrow> wal_io \<Rightarrow> Queue \<Rightarrow> Queue" where
  "q_Close xio rm wio q =
    (let q1 = snd (q_Checkpoint xio rm (q\<lparr>q_stopped := True\<rparr>)) in q1\<lparr>q_wal := wal_Close wio [] (q_wal q1)\<rparr>)"

definition closeWithoutCheckpoint :: "wal_io \<Rightarrow> Queue \<Rightarrow> Queue" where
  "closeWithoutCheckpoint wio q = q\<lparr>q_stopped := True, q_wal := wal_Close wio [] (q_wal q)\<rparr>"

section \<open>The background tick\<close>

record expiredEntry =
  ee_msgID :: u64
  ee_nonce :: u64
  ee_toDead :: bool
  ee_indexRef :: u64
  ee_slot :: Slot
  ee_info :: leaseInfo

definition zero_info :: leaseInfo where
  "zero_info = leaseInfo.make 0 0 0 0"

text \<open>The loop over the expired leases; the flag is \<open>promoted\<close>.\<close>

fun expire_loop :: "i64 \<Rightarrow> wheelEntry list \<Rightarrow> Queue \<Rightarrow> expiredEntry list \<times> bool \<times> Queue" where
  "expire_loop now [] q = ([], False, q)"
| "expire_loop now (e # es) q =
    (case map_of (q_receipts q) (we_msgID e) of
       None \<Rightarrow> expire_loop now es q
     | Some info \<Rightarrow>
         (if li_nonce info \<noteq> we_nonce e then expire_loop now es q
          else
            (let q1 = q\<lparr>q_receipts := AList.delete (we_msgID e) (q_receipts q)\<rparr> in
             (case GetByRef (we_indexRef e) (q_idx q1) of
                None \<Rightarrow> expire_loop now es q1
              | Some slot \<Rightarrow>
                  (let q2 = q1\<lparr>q_statExpired := q_statExpired q1 + 1\<rparr> in
                   if to_dead slot q2 then
                     (case expire_loop now es q2 of
                        (xs, pr, q3) \<Rightarrow> (\<lparr>ee_msgID = we_msgID e, ee_nonce = we_nonce e, ee_toDead = True,
                                         ee_indexRef = we_indexRef e, ee_slot = slot, ee_info = info\<rparr> # xs, pr, q3))
                   else
                     (case expire_loop now es (ready_push now slot (we_indexRef e) (idx_put (we_indexRef e) (unleased StateReady slot) q2)) of
                        (xs, _, q3) \<Rightarrow> (\<lparr>ee_msgID = we_msgID e, ee_nonce = we_nonce e, ee_toDead = False,
                                        ee_indexRef = 0, ee_slot = zero_slot, ee_info = zero_info\<rparr> # xs, True, q3)))))))"

text \<open>The commits of the expired entries, one after another; \<open>False\<close> is a panic.\<close>

fun expire_commits :: "(nat \<Rightarrow> commit_io) \<Rightarrow> nat \<Rightarrow> expiredEntry list \<Rightarrow> Queue \<Rightarrow> bool \<times> Queue" where
  "expire_commits io i [] q = (True, q)"
| "expire_commits io i (e # es) q =
    (if ee_toDead e then
       (case submitCommit (io i) [] [mk_rec OpDead (BDead \<lparr>de_MsgID = ee_msgID e, de_Reason = 2\<rparr>)] q of
          (res, q1) \<Rightarrow>
            (case cr_err res of
               Some _ \<Rightarrow> expire_commits io (Suc i) es (restoreLeaseLocked (ee_info e) (ee_slot e) q1)
             | None \<Rightarrow>
                 (case readPayloadLocked (ee_slot e) q1 of
                    None \<Rightarrow> (False, q1)
                  | Some payload \<Rightarrow>
                      expire_commits io (Suc i) es (finish res (deadLetterLocked (ee_slot e) (ee_indexRef e) payload q1)))))
     else
       (case submitCommit (io i) [] [mk_rec OpExpire (BExpire \<lparr>ex_MsgID = ee_msgID e, ex_Nonce = ee_nonce e\<rparr>)] q of
          (res, q1) \<Rightarrow> expire_commits io (Suc i) es (if cr_err res = None then finish res q1 else q1)))"

definition tick_locked :: "i64 \<Rightarrow> Queue \<Rightarrow> expiredEntry list \<times> bool \<times> Queue" where
  "tick_locked now q =
    (let q1 = (if 0 < sint (cfg_AgeBoostMs (q_cfg q)) then q\<lparr>q_ready := rh_refresh (Some now) (q_ready q)\<rparr> else q);
         before = rh_Len (q_ready q1);
         q2 = promoteLocked now q1;
         promoted = (before < rh_Len (q_ready q2)) in
     (case tw_popExpired now (q_inflight q2) of
        (es, w) \<Rightarrow> (case expire_loop now es (q2\<lparr>q_inflight := w\<rparr>) of (xs, pr, q3) \<Rightarrow> (xs, promoted \<or> pr, q3))))"

definition tick_checkpoint :: "index_io \<Rightarrow> (u64 \<Rightarrow> bool) \<Rightarrow> i64 \<Rightarrow> Queue \<Rightarrow> Queue" where
  "tick_checkpoint xio rm now q =
    (if walCheckpointBytes \<le> wal_Size (q_wal q) \<or> sint checkpointIntervalMs \<le> sint (now - q_lastCheckpointMs q)
     then (case q_Checkpoint xio rm q of (ok, q1) \<Rightarrow> if ok then q1\<lparr>q_lastCheckpointMs := now\<rparr> else q1)
     else q)"

definition tick :: "queue_io \<Rightarrow> index_io \<Rightarrow> (u64 \<Rightarrow> bool) \<Rightarrow> i64 \<Rightarrow> Queue \<Rightarrow> bool \<times> Queue" where
  "tick io xio rm now q =
    (case tick_locked now q of
       (xs, promoted, q1) \<Rightarrow>
         (case expire_commits (qi_commit io) 0 xs q1 of
            (False, q2) \<Rightarrow> (False, q2)
          | (True, q2) \<Rightarrow> (True, tick_checkpoint xio rm now (if promoted then notify q2 else q2))))"

section \<open>Recovery\<close>

text \<open>
  The callback of the log replay; \<open>None\<close> is a panic (of a type assertion or of \<open>readPayloadLocked\<close>).
  \<open>io\<close> gives the outcomes of the two releases of an acknowledgement.
\<close>

definition replay_record :: "page_io \<times> page_io \<Rightarrow> i64 \<Rightarrow> Record \<Rightarrow> Queue \<Rightarrow> Queue option" where
  "replay_record io now rc q =
    (if rec_Op rc = OpEnqueue then
       (case rec_Body rc of
          BEnqueue e \<Rightarrow>
            Some (idx_put (en_IndexRef e)
              \<lparr>s_MsgID = en_MsgID e, s_EnqueuedAtMs = en_EnqueuedAtMs e, s_AvailableAtMs = en_AvailableAtMs e,
               s_LeaseUntilMs = 0, s_PayloadRef = en_PayloadRef e, s_PayloadLen = en_PayloadLen e,
               s_Priority = en_Priority e,
               s_State = (if sint now < sint (en_AvailableAtMs e) then StateDelayed else StateReady),
               s_Attempts = 0, s_LeaseNonce = 0\<rparr> (bumpMsgID (en_MsgID e) q))
        | _ \<Rightarrow> None)
     else if rec_Op rc = OpLease then
       (case rec_Body rc of
          BLease l \<Rightarrow>
            Some (case findSlot (le_MsgID l) q of
               None \<Rightarrow> q
             | Some (ref, slot) \<Rightarrow>
                 idx_put ref (slot\<lparr>s_State := StateInflight, s_Attempts := le_Attempt l,
                                   s_LeaseUntilMs := le_LeaseUntilMs l, s_LeaseNonce := le_Nonce l\<rparr>) q)
        | _ \<Rightarrow> None)
     else if rec_Op rc = OpAck then
       (case rec_Body rc of
          BAck a \<Rightarrow>
            Some (case findSlot (ak_MsgID a) q of
               None \<Rightarrow> q
             | Some (ref, slot) \<Rightarrow>
                 (let q1 = idx_free (snd io) ref (page_free (fst io) (s_PayloadRef slot) q)
                  in q1\<lparr>q_statAcked := q_statAcked q1 + 1\<rparr>))
        | _ \<Rightarrow> None)
     else if rec_Op rc = OpNack then
       (case rec_Body rc of
          BNack n \<Rightarrow>
            Some (case findSlot (na_MsgID n) q of
               None \<Rightarrow> q
             | Some (ref, slot) \<Rightarrow>
                 idx_put ref ((unleased StateDelayed slot)\<lparr>s_AvailableAtMs := na_RequeueAtMs n\<rparr>) q)
        | _ \<Rightarrow> None)
     else if rec_Op rc = OpExpire then
       (case rec_Body rc of
          BExpire e \<Rightarrow>
            Some (case findSlot (ex_MsgID e) q of
               None \<Rightarrow> q
             | Some (ref, slot) \<Rightarrow> (if s_State slot = StateInflight then idx_put ref (unleased StateReady slot) q else q))
        | _ \<Rightarrow> None)
     else if rec_Op rc = OpDead then
       (case rec_Body rc of
          BDead d \<Rightarrow>
            (case findSlot (de_MsgID d) q of
               None \<Rightarrow> Some q
             | Some (ref, slot) \<Rightarrow>
                 map_option (\<lambda>payload. deadLetterLocked slot ref payload q) (readPayloadLocked slot q))
        | _ \<Rightarrow> None)
     else Some q)"

fun replay_records :: "(nat \<Rightarrow> page_io \<times> page_io) \<Rightarrow> nat \<Rightarrow> i64 \<Rightarrow> Record list \<Rightarrow> Queue \<Rightarrow> Queue option" where
  "replay_records io i now [] q = Some q"
| "replay_records io i now (rc # rs) q =
    (case replay_record (io i) now rc q of None \<Rightarrow> None | Some q' \<Rightarrow> replay_records io (Suc i) now rs q')"

text \<open>The two passes over a snapshot of the index.\<close>

fun demote_loop :: "i64 \<Rightarrow> (u64 \<times> Slot) list \<Rightarrow> Queue \<Rightarrow> Queue" where
  "demote_loop now [] q = q"
| "demote_loop now ((ref, s) # es) q =
    (if s_State s \<noteq> StateInflight then demote_loop now es q
     else if cfg_DurableLeases (q_cfg q) \<and> sint now < sint (s_LeaseUntilMs s) \<and> s_LeaseNonce s \<noteq> 0
       then demote_loop now es q
     else demote_loop now es (idx_put ref (unleased StateReady s) q))"

definition restore_one :: "i64 \<Rightarrow> u64 \<Rightarrow> Slot \<Rightarrow> Queue \<Rightarrow> Queue option" where
  "restore_one now ref s q =
    (if s_State s = StateReady then Some (ready_push now s ref q)
     else if s_State s = StateDelayed then
       Some (q\<lparr>q_delayed := tw_add \<lparr>we_deadline = s_AvailableAtMs s, we_msgID = s_MsgID s, we_indexRef = ref, we_nonce = 0\<rparr> (q_delayed q)\<rparr>)
     else if s_State s = StateInflight then
       Some (q\<lparr>q_receipts := AList.update (s_MsgID s)
                 \<lparr>li_nonce = s_LeaseNonce s, li_attempt = s_Attempts s, li_until = s_LeaseUntilMs s, li_indexRef = ref\<rparr> (q_receipts q),
               q_inflight := tw_add \<lparr>we_deadline = s_LeaseUntilMs s, we_msgID = s_MsgID s, we_indexRef = ref, we_nonce = s_LeaseNonce s\<rparr>
                 (q_inflight q)\<rparr>)
     else if s_State s = StateDead then
       map_option (\<lambda>payload. deadLetterLocked s ref payload q) (readPayloadLocked s q)
     else Some q)"

fun restore_loop :: "i64 \<Rightarrow> (u64 \<times> Slot) list \<Rightarrow> Queue \<Rightarrow> Queue option" where
  "restore_loop now [] q = Some q"
| "restore_loop now ((ref, s) # es) q =
    (case restore_one now ref s (bumpMsgID (s_MsgID s) q) of None \<Rightarrow> None | Some q' \<Rightarrow> restore_loop now es q')"

text \<open>
  \<open>recover\<close> also returns the queue when it fails: the store is shared, and a release that was replayed
  before the failure stays done.
\<close>

definition recover :: "(nat \<Rightarrow> page_io \<times> page_io) \<Rightarrow> i64 \<Rightarrow> Queue \<Rightarrow> queue_error option \<times> Queue" where
  "recover io now q =
    (let cp = CheckpointLSN (q_idx q); start = (if 0 < cp then cp + 1 else cp) in
     (case wal_Replay (q_wal q) start of
        (recs, err) \<Rightarrow>
          (case replay_records io 0 now recs q of
             None \<Rightarrow> (Some Panic, q)
           | Some q1 \<Rightarrow>
               (case err of
                  Some e \<Rightarrow> (Some (ReplayErr e), q1)
                | None \<Rightarrow>
                    (let q2 = demote_loop now (Scan (q_idx q1)) q1 in
                     (case restore_loop now (Scan (q_idx q2)) q2 of
                        None \<Rightarrow> (Some Panic, q2)
                      | Some q3 \<Rightarrow>
                          (let d = w_durableLSN (q_wal q3); c = CheckpointLSN (q_idx q3)
                           in (None, q3\<lparr>q_apply := cursor_reset (if d < c then c else d) (q_apply q3)\<rparr>))))))))"

text \<open>The queue that \<open>openQueue\<close> builds around the opened log and index, before it recovers.\<close>

definition new_queue :: "i64 \<Rightarrow> Config \<Rightarrow> WAL \<Rightarrow> Index \<Rightarrow> Store \<Rightarrow> Queue" where
  "new_queue now cfg w idx pages =
    \<lparr>q_cfg = cfg, q_ready = newReadyHeap (cfg_Order cfg) (cfg_AgeBoostMs cfg), q_delayed = [], q_inflight = [],
     q_receipts = [], q_dead = [], q_wal = w, q_idx = idx, q_pages = pages, q_nextMsgID = 0, q_reserved = 0,
     q_statEnqueued = 0, q_statDelivered = 0, q_statAcked = 0, q_statNacked = 0, q_statExpired = 0,
     q_statReplayed = 0, q_notify = False, q_stopped = False, q_lastCheckpointMs = now,
     q_apply = \<lparr>ac_pending = [], ac_high = 0, ac_contig = 0\<rparr>\<rparr>"

text \<open>The second component is the shared store after the call.\<close>

definition openQueue :: "(nat \<Rightarrow> page_io \<times> page_io) \<Rightarrow> i64 \<Rightarrow> Config \<Rightarrow> (u64 \<times> bytes) list \<Rightarrow> file_read \<Rightarrow> Store \<Rightarrow>
    (queue_error + Queue) \<times> Store" where
  "openQueue io now cfg walFiles indexFile pages =
    (case index_Open indexFile of
       None \<Rightarrow> (Inl IndexErr, pages)
     | Some idx \<Rightarrow>
         (case recover io now (new_queue now cfg (wal_Open walFiles) idx pages) of
            (None, q) \<Rightarrow> (Inr q, q_pages q)
          | (Some e, q) \<Rightarrow> (Inl e, q_pages q)))"

end
