(* ===== verification/Queue_Inv.thy ===== *)
theory Queue_Inv
  imports Queue_Ops
begin

text \<open>
  The invariant that ties the volatile structures of a queue to its index: every live message is in
  exactly one of the ready heap, the delay wheel, the in-flight wheel (with its receipt) and the dead
  list, according to the state in its index slot, with the data the slot records.

  A critical section of a handler can take messages out of a structure and put them back later.  What
  is in hand is a parameter of the invariant: popped entries of the delay wheel (\<open>D\<close>) and of the
  in-flight wheel (\<open>P\<close>), message ids whose receipt was withdrawn (\<open>T\<close>), and dead letters taken for
  replay (\<open>X\<close>).
\<close>

section \<open>Structures that track the slots in one state\<close>

lemma ex_update:
  assumes "\<And>s. f r = Some s \<Longrightarrow> \<not> Q r s" "\<And>s. v = Some s \<Longrightarrow> \<not> Q r s"
  shows "(\<exists>x s. (f(r := v)) x = Some s \<and> Q x s) \<longleftrightarrow> (\<exists>x s. f x = Some s \<and> Q x s)"
  using assms by (metis fun_upd_apply)

definition tracks :: "(u64 \<Rightarrow> Slot \<Rightarrow> 'k) \<Rightarrow> u8 \<Rightarrow> 'k multiset \<Rightarrow> (u64 \<rightharpoonup> Slot) \<Rightarrow> bool" where
  "tracks key st M sl \<longleftrightarrow>
    (\<forall>k. count M k = (if \<exists>r s. sl r = Some s \<and> s_State s = st \<and> key r s = k then 1 else 0))"

locale tracker =
  fixes key :: "u64 \<Rightarrow> Slot \<Rightarrow> 'k" and st :: u8
  assumes key_ref: "key r s = key r' s' \<Longrightarrow> r = r'"
begin

lemma member: "tracks key st M sl \<Longrightarrow> k \<in># M \<longleftrightarrow> (\<exists>r s. sl r = Some s \<and> s_State s = st \<and> key r s = k)"
  unfolding tracks_def by (metis count_eq_zero_iff zero_neq_one)

lemma enter:
  assumes t: "tracks key st M sl" and out: "\<And>s. sl r = Some s \<Longrightarrow> s_State s \<noteq> st" and s': "s_State s' = st"
  shows "tracks key st (add_mset (key r s') M) (sl(r \<mapsto> s'))"
  unfolding tracks_def
proof
  fix k
  show "count (add_mset (key r s') M) k =
      (if \<exists>x s. (sl(r \<mapsto> s')) x = Some s \<and> s_State s = st \<and> key x s = k then 1 else 0)"
  proof (cases "k = key r s'")
    case True
    have "\<not> (\<exists>x s. sl x = Some s \<and> s_State s = st \<and> key x s = k)"
      using True out key_ref by metis
    then have "count M k = 0" using t unfolding tracks_def by metis
    moreover have "\<exists>x s. (sl(r \<mapsto> s')) x = Some s \<and> s_State s = st \<and> key x s = k"
      using True s' by (intro exI [of _ r] exI [of _ s']) simp
    ultimately show ?thesis using True by simp
  next
    case False
    then have "(\<exists>x s. (sl(r \<mapsto> s')) x = Some s \<and> s_State s = st \<and> key x s = k) \<longleftrightarrow>
        (\<exists>x s. sl x = Some s \<and> s_State s = st \<and> key x s = k)"
      using out by (metis fun_upd_apply option.inject)
    then show ?thesis using t False unfolding tracks_def by simp
  qed
qed

lemma leave_aux:
  assumes t: "tracks key st M sl" and s: "sl r = Some s" "s_State s = st"
    and sl': "\<And>x. x \<noteq> r \<Longrightarrow> sl' x = sl x" "\<And>s'. sl' r = Some s' \<Longrightarrow> s_State s' \<noteq> st"
  shows "tracks key st (M - {#key r s#}) sl'"
  unfolding tracks_def
proof
  fix k
  show "count (M - {#key r s#}) k = (if \<exists>x s. sl' x = Some s \<and> s_State s = st \<and> key x s = k then 1 else 0)"
  proof (cases "k = key r s")
    case True
    then have "count M k = 1" using t s unfolding tracks_def by auto
    moreover have "\<not> (\<exists>x s. sl' x = Some s \<and> s_State s = st \<and> key x s = k)"
      using True sl' key_ref by metis
    ultimately show ?thesis using True by simp
  next
    case False
    then have "(\<exists>x s. sl' x = Some s \<and> s_State s = st \<and> key x s = k) \<longleftrightarrow>
        (\<exists>x s. sl x = Some s \<and> s_State s = st \<and> key x s = k)"
      using sl' s by (metis option.inject)
    then show ?thesis using t False unfolding tracks_def by simp
  qed
qed

lemma leave:
  assumes "tracks key st (add_mset (key r s) M) sl" "sl r = Some s" "s_State s = st" "s_State s' \<noteq> st"
  shows "tracks key st M (sl(r \<mapsto> s'))"
  using leave_aux [OF assms(1-3), of "sl(r \<mapsto> s')"] assms(4) by simp

lemma leave_none:
  assumes "tracks key st (add_mset (key r s) M) sl" "sl r = Some s" "s_State s = st"
  shows "tracks key st M (sl(r := None))"
  using leave_aux [OF assms(1-3), of "sl(r := None)"] by simp

lemma stay:
  assumes "tracks key st M sl" "\<And>s. sl r = Some s \<Longrightarrow> s_State s \<noteq> st" "\<And>s. v = Some s \<Longrightarrow> s_State s \<noteq> st"
  shows "tracks key st M (sl(r := v))"
proof -
  have "(\<exists>x s. (sl(r := v)) x = Some s \<and> s_State s = st \<and> key x s = k) \<longleftrightarrow>
      (\<exists>x s. sl x = Some s \<and> s_State s = st \<and> key x s = k)" for k
    using assms(2,3) by (metis fun_upd_apply)
  then show ?thesis using assms(1) unfolding tracks_def by simp
qed

lemma absent:
  assumes "tracks key st M sl" "sl r = None" "s_State s \<noteq> st"
  shows "tracks key st M (sl(r \<mapsto> s))"
  using assms(2,3) by (intro stay [OF assms(1)]) auto

lemma unique:
  assumes "tracks key st (add_mset k M) sl"
  shows "k \<notin># M"
  using assms unfolding tracks_def by (metis count_add_mset count_eq_zero_iff Suc_inject One_nat_def nat.simps(3))

end

section \<open>The four views of the index\<close>

definition ready_key :: "u64 \<Rightarrow> Slot \<Rightarrow> heapEntry" where
  "ready_key r s = \<lparr>he_msgID = s_MsgID s, he_priority = s_Priority s, he_indexRef = r,
     he_enqueuedAtMs = s_EnqueuedAtMs s, he_cachedPri = 0\<rparr>"

definition delayed_key :: "u64 \<Rightarrow> Slot \<Rightarrow> wheelEntry" where
  "delayed_key r s = \<lparr>we_deadline = s_AvailableAtMs s, we_msgID = s_MsgID s, we_indexRef = r, we_nonce = 0\<rparr>"

definition lease_key :: "u64 \<Rightarrow> Slot \<Rightarrow> wheelEntry" where
  "lease_key r s = \<lparr>we_deadline = s_LeaseUntilMs s, we_msgID = s_MsgID s, we_indexRef = r, we_nonce = s_LeaseNonce s\<rparr>"

definition dead_key :: "u64 \<Rightarrow> Slot \<Rightarrow> DeadMessage" where
  "dead_key r s = \<lparr>dm_ID = s_MsgID s, dm_Payload = [], dm_Priority = s_Priority s, dm_Attempts = s_Attempts s,
     dm_EnqueuedAtMs = s_EnqueuedAtMs s, dm_indexRef = r, dm_payloadRef = s_PayloadRef s\<rparr>"

lemmas key_defs = ready_key_def delayed_key_def lease_key_def dead_key_def

interpretation rt: tracker ready_key StateReady by unfold_locales (simp add: ready_key_def)
interpretation dt: tracker delayed_key StateDelayed by unfold_locales (simp add: delayed_key_def)
interpretation it: tracker lease_key StateInflight by unfold_locales (simp add: lease_key_def)
interpretation xt: tracker dead_key StateDead by unfold_locales (simp add: dead_key_def)

definition lease_of :: "u64 \<Rightarrow> Slot \<Rightarrow> leaseInfo" where
  "lease_of r s = \<lparr>li_nonce = s_LeaseNonce s, li_attempt = s_Attempts s, li_until = s_LeaseUntilMs s, li_indexRef = r\<rparr>"

definition ready_view :: "Queue \<Rightarrow> heapEntry multiset" where
  "ready_view q = image_mset (\<lambda>e. e\<lparr>he_cachedPri := 0\<rparr>) (mset (rh_entries (q_ready q)))"

definition dead_view :: "Queue \<Rightarrow> DeadMessage multiset" where
  "dead_view q = image_mset (\<lambda>d. d\<lparr>dm_Payload := []\<rparr>) (mset (q_dead q))"

abbreviation q_slots :: "Queue \<Rightarrow> u64 \<rightharpoonup> Slot" where
  "q_slots q \<equiv> slots (q_idx q)"

section \<open>The invariant\<close>

definition ids_ok :: "u64 \<Rightarrow> (u64 \<rightharpoonup> Slot) \<Rightarrow> bool" where
  "ids_ok next sl \<longleftrightarrow>
    (\<forall>r s. sl r = Some s \<longrightarrow> s_MsgID s \<noteq> 0 \<and> s_MsgID s \<le> next \<and>
       s_State s \<in> {StateReady, StateDelayed, StateInflight, StateDead}) \<and>
    (\<forall>r s r' s'. sl r = Some s \<and> sl r' = Some s' \<and> s_MsgID s = s_MsgID s' \<longrightarrow> r = r')"

definition receipts_ok :: "u64 set \<Rightarrow> (u64 \<rightharpoonup> leaseInfo) \<Rightarrow> (u64 \<rightharpoonup> Slot) \<Rightarrow> bool" where
  "receipts_ok T R sl \<longleftrightarrow>
    (\<forall>m info. R m = Some info \<longleftrightarrow>
       m \<notin> T \<and> (\<exists>r s. sl r = Some s \<and> s_MsgID s = m \<and> s_State s = StateInflight \<and> info = lease_of r s))"

definition q_dir :: "Queue \<Rightarrow> i64" where
  "q_dir q = rh_dir (newReadyHeap (cfg_Order (q_cfg q)) (cfg_AgeBoostMs (q_cfg q)))"

definition shape_inv :: "Queue \<Rightarrow> bool" where
  "shape_inv q \<longleftrightarrow> index_inv (q_idx q) \<and> rh_inv (q_dir q) (q_ready q) \<and> tw_inv (q_delayed q) \<and>
     tw_inv (q_inflight q) \<and> distinct (map fst (q_receipts q))"

text \<open>The invariant over an explicit slot map \<open>sl\<close>, with the entries in hand.\<close>

definition core_inv :: "heapEntry multiset \<Rightarrow> wheelEntry multiset \<Rightarrow> wheelEntry multiset \<Rightarrow> u64 set \<Rightarrow> DeadMessage multiset
    \<Rightarrow> (u64 \<rightharpoonup> Slot) \<Rightarrow> Queue \<Rightarrow> bool" where
  "core_inv H D P T X sl q \<longleftrightarrow> shape_inv q \<and> ids_ok (q_nextMsgID q) sl \<and>
     tracks ready_key StateReady (ready_view q + H) sl \<and>
     tracks delayed_key StateDelayed (mset (q_delayed q) + D) sl \<and>
     tracks lease_key StateInflight (mset (q_inflight q) + P) sl \<and>
     tracks dead_key StateDead (dead_view q + X) sl \<and>
     receipts_ok T (map_of (q_receipts q)) sl"

abbreviation place_inv :: "heapEntry multiset \<Rightarrow> wheelEntry multiset \<Rightarrow> wheelEntry multiset \<Rightarrow> u64 set \<Rightarrow> DeadMessage multiset \<Rightarrow> Queue \<Rightarrow> bool" where
  "place_inv H D P T X q \<equiv> core_inv H D P T X (q_slots q) q"

text \<open>Between handlers nothing is in hand.\<close>

abbreviation queue_inv :: "Queue \<Rightarrow> bool" where
  "queue_inv q \<equiv> place_inv {#} {#} {#} {} {#} q"

lemma core_invD:
  assumes "core_inv H D P T X sl q"
  shows "shape_inv q" "ids_ok (q_nextMsgID q) sl"
    "tracks ready_key StateReady (ready_view q + H) sl"
    "tracks delayed_key StateDelayed (mset (q_delayed q) + D) sl"
    "tracks lease_key StateInflight (mset (q_inflight q) + P) sl"
    "tracks dead_key StateDead (dead_view q + X) sl"
    "receipts_ok T (map_of (q_receipts q)) sl"
  using assms by (simp_all add: core_inv_def)

lemma ids_okD:
  assumes "ids_ok next sl" "sl r = Some s"
  shows "s_MsgID s \<noteq> 0" "s_MsgID s \<le> next" "s_State s \<in> {StateReady, StateDelayed, StateInflight, StateDead}"
    "sl r' = Some s' \<Longrightarrow> s_MsgID s' = s_MsgID s \<Longrightarrow> r' = r"
  using assms unfolding ids_ok_def by blast+

lemma ids_okI:
  assumes "\<And>r s. sl r = Some s \<Longrightarrow> s_MsgID s \<noteq> 0 \<and> s_MsgID s \<le> next \<and>
      s_State s \<in> {StateReady, StateDelayed, StateInflight, StateDead}"
    "\<And>r s r' s'. sl r = Some s \<Longrightarrow> sl r' = Some s' \<Longrightarrow> s_MsgID s = s_MsgID s' \<Longrightarrow> r = r'"
  shows "ids_ok next sl"
  using assms unfolding ids_ok_def by blast

lemma ids_ok_update:
  assumes "ids_ok next sl" "sl r = Some s" "s_MsgID s' = s_MsgID s"
    "s_State s' \<in> {StateReady, StateDelayed, StateInflight, StateDead}"
  shows "ids_ok next (sl(r \<mapsto> s'))"
  using assms unfolding ids_ok_def by (auto split: if_splits)

lemma ids_ok_delete: "ids_ok next sl \<Longrightarrow> ids_ok next (sl(r := None))"
  unfolding ids_ok_def by (auto split: if_splits)

lemma ids_ok_insert:
  assumes "ids_ok next sl" "next < m" "s_MsgID s = m" "s_State s \<in> {StateReady, StateDelayed, StateInflight, StateDead}"
  shows "ids_ok m (sl(r \<mapsto> s))"
proof -
  have old: "s_MsgID x < m" if "sl y = Some x" for x y
    using ids_okD(2) [OF assms(1) that] assms(2) by simp
  show ?thesis
  proof (rule ids_okI)
    fix y x assume y: "(sl(r \<mapsto> s)) y = Some x"
    show "s_MsgID x \<noteq> 0 \<and> s_MsgID x \<le> m \<and> s_State x \<in> {StateReady, StateDelayed, StateInflight, StateDead}"
    proof (cases "y = r")
      case True
      then have "x = s" using y by simp
      then show ?thesis using assms(2-4) by auto
    next
      case False
      then have "sl y = Some x" using y by simp
      then show ?thesis using ids_okD(1,3) [OF assms(1)] old [of y x] by (metis order_less_imp_le)
    qed
    fix y' x' assume y': "(sl(r \<mapsto> s)) y' = Some x'" and eq: "s_MsgID x = s_MsgID x'"
    consider "y = r" "y' = r" | "y = r" "y' \<noteq> r" | "y \<noteq> r" "y' = r" | "y \<noteq> r" "y' \<noteq> r" by blast
    then show "y = y'"
      using y y' eq old [of y x] old [of y' x'] ids_okD(4) [OF assms(1), of y' x' y x] assms(3)
      by cases simp_all
  qed
qed

text \<open>Receipts when one slot changes.\<close>

lemma receipts_okD:
  "receipts_ok T R sl \<Longrightarrow> R m = Some info \<longleftrightarrow>
     m \<notin> T \<and> (\<exists>r s. sl r = Some s \<and> s_MsgID s = m \<and> s_State s = StateInflight \<and> info = lease_of r s)"
  by (simp add: receipts_ok_def)

lemma receipts_stay:
  assumes "receipts_ok T R sl" "\<And>s. sl r = Some s \<Longrightarrow> s_State s \<noteq> StateInflight \<or> s_MsgID s \<in> T"
    "\<And>s. v = Some s \<Longrightarrow> s_State s \<noteq> StateInflight \<or> s_MsgID s \<in> T"
  shows "receipts_ok T R (sl(r := v))"
  unfolding receipts_ok_def
proof (intro allI)
  fix m info
  have "(\<exists>x s. (sl(r := v)) x = Some s \<and> s_MsgID s = m \<and> s_State s = StateInflight \<and> info = lease_of x s) \<longleftrightarrow>
      (\<exists>x s. sl x = Some s \<and> s_MsgID s = m \<and> s_State s = StateInflight \<and> info = lease_of x s)" if "m \<notin> T"
    using assms(2,3) that by (intro ex_update) auto
  then show "R m = Some info \<longleftrightarrow> m \<notin> T \<and>
      (\<exists>x s. (sl(r := v)) x = Some s \<and> s_MsgID s = m \<and> s_State s = StateInflight \<and> info = lease_of x s)"
    using receipts_okD [OF assms(1), of m info] by (cases "m \<in> T") simp_all
qed

lemma receipts_absent:
  assumes "receipts_ok T R sl" "sl r = None" "s_State s \<noteq> StateInflight"
  shows "receipts_ok T R (sl(r \<mapsto> s))"
  using assms(2,3) by (intro receipts_stay [OF assms(1)]) auto

lemma receipts_grant:
  assumes ok: "receipts_ok T R sl" and ids: "ids_ok next (sl(r \<mapsto> s'))" and s': "s_State s' = StateInflight" "s_MsgID s' = m"
    and free: "\<And>s. sl r = Some s \<Longrightarrow> s_State s \<noteq> StateInflight \<or> s_MsgID s = m"
  shows "receipts_ok (T - {m}) (R(m \<mapsto> lease_of r s')) (sl(r \<mapsto> s'))"
  unfolding receipts_ok_def
proof (intro allI)
  fix n info
  show "(R(m \<mapsto> lease_of r s')) n = Some info \<longleftrightarrow> n \<notin> T - {m} \<and>
      (\<exists>x s. (sl(r \<mapsto> s')) x = Some s \<and> s_MsgID s = n \<and> s_State s = StateInflight \<and> info = lease_of x s)"
  proof (cases "n = m")
    case True
    have xr: "x = r" if "(sl(r \<mapsto> s')) x = Some s" "s_MsgID s = m" for x s
      by (rule ids_okD(4) [OF ids _ that(1)]) (simp, metis s'(2) that(2))
    have "(\<exists>x s. (sl(r \<mapsto> s')) x = Some s \<and> s_MsgID s = m \<and> s_State s = StateInflight \<and> info = lease_of x s) \<longleftrightarrow>
        info = lease_of r s'"
    proof
      assume "\<exists>x s. (sl(r \<mapsto> s')) x = Some s \<and> s_MsgID s = m \<and> s_State s = StateInflight \<and> info = lease_of x s"
      then obtain x s where x: "(sl(r \<mapsto> s')) x = Some s" "s_MsgID s = m" "info = lease_of x s" by blast
      with xr [OF x(1,2)] show "info = lease_of r s'" by simp
    next
      assume "info = lease_of r s'"
      then show "\<exists>x s. (sl(r \<mapsto> s')) x = Some s \<and> s_MsgID s = m \<and> s_State s = StateInflight \<and> info = lease_of x s"
        using s' by (intro exI [of _ r] exI [of _ s']) simp
    qed
    then show ?thesis using True by (simp add: eq_commute)
  next
    case False
    then have "(\<exists>x s. (sl(r \<mapsto> s')) x = Some s \<and> s_MsgID s = n \<and> s_State s = StateInflight \<and> info = lease_of x s) \<longleftrightarrow>
        (\<exists>x s. sl x = Some s \<and> s_MsgID s = n \<and> s_State s = StateInflight \<and> info = lease_of x s)"
      using free s' by (intro ex_update) auto
    then show ?thesis using receipts_okD [OF ok, of n info] False by simp
  qed
qed

lemma receipts_withdraw:
  assumes "receipts_ok T R sl"
  shows "receipts_ok (insert m T) (R(m := None)) sl"
  unfolding receipts_ok_def using receipts_okD [OF assms] by (auto simp del: not_None_eq)

lemma receipts_settle:
  assumes ok: "receipts_ok T R sl" and none: "\<And>r s. sl r = Some s \<Longrightarrow> s_State s = StateInflight \<Longrightarrow> s_MsgID s \<noteq> m"
    and R: "m \<in> T"
  shows "receipts_ok (T - {m}) R sl"
  unfolding receipts_ok_def
proof (intro allI)
  fix n info
  show "R n = Some info \<longleftrightarrow> n \<notin> T - {m} \<and>
      (\<exists>r s. sl r = Some s \<and> s_MsgID s = n \<and> s_State s = StateInflight \<and> info = lease_of r s)"
    using receipts_okD [OF ok, of n info] none R by (cases "n = m") auto
qed

section \<open>Taking one message out\<close>

text \<open>Without the message at \<open>r\<close>; its id is then free.\<close>

lemma remove_ready:
  assumes "core_inv (add_mset (ready_key r s) H) D P T X sl q" "sl r = Some s" "s_State s = StateReady"
  shows "core_inv H D P T X (sl(r := None)) q"
  unfolding core_inv_def
proof (intro conjI)
  note c = core_invD [OF assms(1)]
  have st: "\<And>s'. sl r = Some s' \<Longrightarrow> s_State s' = StateReady" using assms(2,3) by simp
  show "tracks ready_key StateReady (ready_view q + H) (sl(r := None))"
    using c(3) assms(2,3) by (intro rt.leave_none [where s = s]) simp_all
  show "tracks delayed_key StateDelayed (mset (q_delayed q) + D) (sl(r := None))" using st by (intro dt.stay c(4)) simp_all
  show "tracks lease_key StateInflight (mset (q_inflight q) + P) (sl(r := None))" using st by (intro it.stay c(5)) simp_all
  show "tracks dead_key StateDead (dead_view q + X) (sl(r := None))" using st by (intro xt.stay c(6)) simp_all
  show "receipts_ok T (map_of (q_receipts q)) (sl(r := None))" using st by (intro receipts_stay c(7)) simp_all
qed (use core_invD [OF assms(1)] in \<open>simp_all add: ids_ok_delete\<close>)

lemma remove_delayed:
  assumes "core_inv H (add_mset (delayed_key r s) D) P T X sl q" "sl r = Some s" "s_State s = StateDelayed"
  shows "core_inv H D P T X (sl(r := None)) q"
  unfolding core_inv_def
proof (intro conjI)
  note c = core_invD [OF assms(1)]
  have st: "\<And>s'. sl r = Some s' \<Longrightarrow> s_State s' = StateDelayed" using assms(2,3) by simp
  show "tracks delayed_key StateDelayed (mset (q_delayed q) + D) (sl(r := None))"
    using c(4) assms(2,3) by (intro dt.leave_none [where s = s]) simp_all
  show "tracks ready_key StateReady (ready_view q + H) (sl(r := None))" using st by (intro rt.stay c(3)) simp_all
  show "tracks lease_key StateInflight (mset (q_inflight q) + P) (sl(r := None))" using st by (intro it.stay c(5)) simp_all
  show "tracks dead_key StateDead (dead_view q + X) (sl(r := None))" using st by (intro xt.stay c(6)) simp_all
  show "receipts_ok T (map_of (q_receipts q)) (sl(r := None))" using st by (intro receipts_stay c(7)) simp_all
qed (use core_invD [OF assms(1)] in \<open>simp_all add: ids_ok_delete\<close>)

lemma remove_lease:
  assumes "core_inv H D (add_mset (lease_key r s) P) T X sl q" "sl r = Some s" "s_State s = StateInflight" "s_MsgID s \<in> T"
  shows "core_inv H D P (T - {s_MsgID s}) X (sl(r := None)) q"
  unfolding core_inv_def
proof (intro conjI)
  note c = core_invD [OF assms(1)]
  have st: "\<And>s'. sl r = Some s' \<Longrightarrow> s_State s' = StateInflight" using assms(2,3) by simp
  show "tracks lease_key StateInflight (mset (q_inflight q) + P) (sl(r := None))"
    using c(5) assms(2,3) by (intro it.leave_none [where s = s]) simp_all
  show "tracks ready_key StateReady (ready_view q + H) (sl(r := None))" using st by (intro rt.stay c(3)) simp_all
  show "tracks delayed_key StateDelayed (mset (q_delayed q) + D) (sl(r := None))" using st by (intro dt.stay c(4)) simp_all
  show "tracks dead_key StateDead (dead_view q + X) (sl(r := None))" using st by (intro xt.stay c(6)) simp_all
  have "receipts_ok T (map_of (q_receipts q)) (sl(r := None))" using assms(2,4) by (intro receipts_stay c(7)) simp_all
  then show "receipts_ok (T - {s_MsgID s}) (map_of (q_receipts q)) (sl(r := None))"
  proof (rule receipts_settle)
    fix x y assume "(sl(r := None)) x = Some y"
    then show "s_MsgID y \<noteq> s_MsgID s" using ids_okD(4) [OF c(2) assms(2), of x y] by (auto split: if_splits)
  qed (rule assms(4))
qed (use core_invD [OF assms(1)] in \<open>simp_all add: ids_ok_delete\<close>)

lemma remove_dead:
  assumes "core_inv H D P T (add_mset (dead_key r s) X) sl q" "sl r = Some s" "s_State s = StateDead"
  shows "core_inv H D P T X (sl(r := None)) q"
  unfolding core_inv_def
proof (intro conjI)
  note c = core_invD [OF assms(1)]
  have st: "\<And>s'. sl r = Some s' \<Longrightarrow> s_State s' = StateDead" using assms(2,3) by simp
  show "tracks dead_key StateDead (dead_view q + X) (sl(r := None))"
    using c(6) assms(2,3) by (intro xt.leave_none [where s = s]) simp_all
  show "tracks ready_key StateReady (ready_view q + H) (sl(r := None))" using st by (intro rt.stay c(3)) simp_all
  show "tracks delayed_key StateDelayed (mset (q_delayed q) + D) (sl(r := None))" using st by (intro dt.stay c(4)) simp_all
  show "tracks lease_key StateInflight (mset (q_inflight q) + P) (sl(r := None))" using st by (intro it.stay c(5)) simp_all
  show "receipts_ok T (map_of (q_receipts q)) (sl(r := None))" using st by (intro receipts_stay c(7)) simp_all
qed (use core_invD [OF assms(1)] in \<open>simp_all add: ids_ok_delete\<close>)

lemma removed_id:
  assumes "core_inv H D P T X sl q" "sl r = Some s" "(sl(r := None)) x = Some y"
  shows "s_MsgID y \<noteq> s_MsgID s"
  using ids_okD(4) [OF core_invD(2) [OF assms(1)] assms(2), of x y] assms(3) by (auto split: if_splits)

section \<open>Putting one message in\<close>

text \<open>An id that can be given to the free reference \<open>r\<close>.\<close>

definition fresh_id :: "u64 \<Rightarrow> (u64 \<rightharpoonup> Slot) \<Rightarrow> u64 \<Rightarrow> Queue \<Rightarrow> bool" where
  "fresh_id r sl m q \<longleftrightarrow> sl r = None \<and> m \<noteq> 0 \<and> m \<le> q_nextMsgID q \<and> (\<forall>x y. sl x = Some y \<longrightarrow> s_MsgID y \<noteq> m)"

lemma fresh_removed:
  assumes "core_inv H D P T X sl q" "sl r = Some s" "q_nextMsgID q' = q_nextMsgID q"
  shows "fresh_id r (sl(r := None)) (s_MsgID s) q'"
  unfolding fresh_id_def
  using removed_id [OF assms(1,2)] ids_okD(1,2) [OF core_invD(2) [OF assms(1)] assms(2)] assms(3) by simp

lemma ids_ok_fresh:
  assumes "ids_ok (q_nextMsgID q) sl" "fresh_id r sl (s_MsgID s) q" "s_State s \<in> {StateReady, StateDelayed, StateInflight, StateDead}"
  shows "ids_ok (q_nextMsgID q) (sl(r \<mapsto> s))"
proof (rule ids_okI)
  fix y x assume y: "(sl(r \<mapsto> s)) y = Some x"
  show "s_MsgID x \<noteq> 0 \<and> s_MsgID x \<le> q_nextMsgID q \<and> s_State x \<in> {StateReady, StateDelayed, StateInflight, StateDead}"
  proof (cases "y = r")
    case True
    then have "x = s" using y by simp
    then show ?thesis using assms(2,3) by (simp add: fresh_id_def)
  next
    case False
    then show ?thesis using y ids_okD(1-3) [OF assms(1), of y x] by simp
  qed
  fix y' x' assume y': "(sl(r \<mapsto> s)) y' = Some x'" and eq: "s_MsgID x = s_MsgID x'"
  have fr: "\<And>x y. sl x = Some y \<Longrightarrow> s_MsgID y \<noteq> s_MsgID s" using assms(2) by (simp add: fresh_id_def)
  consider "y = r" "y' = r" | "y = r" "y' \<noteq> r" | "y \<noteq> r" "y' = r" | "y \<noteq> r" "y' \<noteq> r" by blast
  then show "y = y'"
    using y y' eq fr [of y x] fr [of y' x'] ids_okD(4) [OF assms(1), of y' x' y x] by cases simp_all
qed

lemma ready_view_push [simp]: "ready_view (ready_push now s r q) = add_mset (ready_key r s) (ready_view q)"
  using rh_elems_push [of "Some now" "ready_key r s" "q_ready q"]
  by (simp add: ready_view_def ready_push_def rh_elems_def ready_key_def)

lemma ready_push_fields [simp]:
  "q_cfg (ready_push now s r q) = q_cfg q" "q_delayed (ready_push now s r q) = q_delayed q"
  "q_inflight (ready_push now s r q) = q_inflight q" "q_receipts (ready_push now s r q) = q_receipts q"
  "q_dead (ready_push now s r q) = q_dead q" "q_wal (ready_push now s r q) = q_wal q"
  "q_idx (ready_push now s r q) = q_idx q" "q_pages (ready_push now s r q) = q_pages q"
  "q_nextMsgID (ready_push now s r q) = q_nextMsgID q" "q_reserved (ready_push now s r q) = q_reserved q"
  "q_apply (ready_push now s r q) = q_apply q" "q_stopped (ready_push now s r q) = q_stopped q"
  by (simp_all add: ready_push_def)

lemma idx_put_fields [simp]:
  "q_cfg (idx_put r s q) = q_cfg q" "q_delayed (idx_put r s q) = q_delayed q" "q_ready (idx_put r s q) = q_ready q"
  "q_inflight (idx_put r s q) = q_inflight q" "q_receipts (idx_put r s q) = q_receipts q"
  "q_dead (idx_put r s q) = q_dead q" "q_wal (idx_put r s q) = q_wal q"
  "q_slots (idx_put r s q) = (q_slots q)(r \<mapsto> s)" "q_pages (idx_put r s q) = q_pages q"
  "q_nextMsgID (idx_put r s q) = q_nextMsgID q" "q_reserved (idx_put r s q) = q_reserved q"
  "q_apply (idx_put r s q) = q_apply q" "q_stopped (idx_put r s q) = q_stopped q"
  by (simp_all add: idx_put_def)

text \<open>The parts of the state that the invariant does not look at.\<close>

lemma core_inv_cong:
  assumes "q_cfg q' = q_cfg q" "q_ready q' = q_ready q" "q_delayed q' = q_delayed q" "q_inflight q' = q_inflight q"
    "q_receipts q' = q_receipts q" "q_dead q' = q_dead q" "q_nextMsgID q' = q_nextMsgID q"
    "index_inv (q_idx q) \<Longrightarrow> index_inv (q_idx q')" "core_inv H D P T X sl q"
  shows "core_inv H D P T X sl q'"
  using assms by (simp add: core_inv_def shape_inv_def q_dir_def ready_view_def dead_view_def)

lemma core_idx_put: "core_inv H D P T X sl q \<Longrightarrow> core_inv H D P T X sl (idx_put r s q)"
  by (rule core_inv_cong [where q = q]) (simp_all add: idx_put_def index_inv_Put)

lemma insert_ready:
  assumes "core_inv H D P T X sl q" "fresh_id r sl (s_MsgID s) q" "s_State s = StateReady"
    "s_MsgID s2 = s_MsgID s" "s_Priority s2 = s_Priority s" "s_EnqueuedAtMs s2 = s_EnqueuedAtMs s"
  shows "core_inv H D P T X (sl(r \<mapsto> s)) (ready_push now s2 r q)"
proof -
  note c = core_invD [OF assms(1)]
  have out: "sl r = None" using assms(2) by (simp add: fresh_id_def)
  have k: "ready_key r s2 = ready_key r s" using assms(4-6) by (simp add: ready_key_def)
  show ?thesis
    unfolding core_inv_def
  proof (intro conjI)
    show "shape_inv (ready_push now s2 r q)"
      using c(1) by (simp add: shape_inv_def q_dir_def ready_push_def rh_inv_push)
    show "ids_ok (q_nextMsgID (ready_push now s2 r q)) (sl(r \<mapsto> s))" using ids_ok_fresh [OF c(2) assms(2)] assms(3) by simp
    show "tracks ready_key StateReady (ready_view (ready_push now s2 r q) + H) (sl(r \<mapsto> s))"
      using rt.enter [OF c(3), of r s] out assms(3) by (simp add: k)
    show "tracks delayed_key StateDelayed (mset (q_delayed (ready_push now s2 r q)) + D) (sl(r \<mapsto> s))"
      using dt.absent [OF c(4) out, of s] assms(3) by simp
    show "tracks lease_key StateInflight (mset (q_inflight (ready_push now s2 r q)) + P) (sl(r \<mapsto> s))"
      using it.absent [OF c(5) out, of s] assms(3) by simp
    show "tracks dead_key StateDead (dead_view (ready_push now s2 r q) + X) (sl(r \<mapsto> s))"
      using xt.absent [OF c(6) out, of s] assms(3) by (simp add: dead_view_def)
    show "receipts_ok T (map_of (q_receipts (ready_push now s2 r q))) (sl(r \<mapsto> s))"
      using receipts_absent [OF c(7) out, of s] assms(3) by simp
  qed
qed

lemma insert_delayed:
  assumes "core_inv H D P T X sl q" "fresh_id r sl (s_MsgID s) q" "s_State s = StateDelayed"
  shows "core_inv H D P T X (sl(r \<mapsto> s)) (q\<lparr>q_delayed := tw_add (delayed_key r s) (q_delayed q)\<rparr>)" (is "core_inv _ _ _ _ _ _ ?q")
proof -
  note c = core_invD [OF assms(1)]
  have out: "sl r = None" using assms(2) by (simp add: fresh_id_def)
  show ?thesis
    unfolding core_inv_def
  proof (intro conjI)
    show "shape_inv ?q" using c(1) by (simp add: shape_inv_def q_dir_def tw_inv_add)
    show "ids_ok (q_nextMsgID ?q) (sl(r \<mapsto> s))" using ids_ok_fresh [OF c(2) assms(2)] assms(3) by simp
    show "tracks ready_key StateReady (ready_view ?q + H) (sl(r \<mapsto> s))"
      using rt.absent [OF c(3) out, of s] assms(3) by (simp add: ready_view_def)
    show "tracks delayed_key StateDelayed (mset (q_delayed ?q) + D) (sl(r \<mapsto> s))"
      using dt.enter [OF c(4), of r s] out assms(3) by simp
    show "tracks lease_key StateInflight (mset (q_inflight ?q) + P) (sl(r \<mapsto> s))"
      using it.absent [OF c(5) out, of s] assms(3) by simp
    show "tracks dead_key StateDead (dead_view ?q + X) (sl(r \<mapsto> s))"
      using xt.absent [OF c(6) out, of s] assms(3) by (simp add: dead_view_def)
    show "receipts_ok T (map_of (q_receipts ?q)) (sl(r \<mapsto> s))" using receipts_absent [OF c(7) out, of s] assms(3) by simp
  qed
qed

lemma insert_lease:
  assumes "core_inv H D P T X sl q" "fresh_id r sl (s_MsgID s) q" "s_State s = StateInflight"
  shows "core_inv H D P (T - {s_MsgID s}) X (sl(r \<mapsto> s))
    (q\<lparr>q_receipts := AList.update (s_MsgID s) (lease_of r s) (q_receipts q), q_inflight := tw_add (lease_key r s) (q_inflight q)\<rparr>)"
    (is "core_inv _ _ _ _ _ _ ?q")
proof -
  note c = core_invD [OF assms(1)]
  have out: "sl r = None" using assms(2) by (simp add: fresh_id_def)
  have ids: "ids_ok (q_nextMsgID q) (sl(r \<mapsto> s))" using ids_ok_fresh [OF c(2) assms(2)] assms(3) by simp
  show ?thesis
    unfolding core_inv_def
  proof (intro conjI)
    show "shape_inv ?q" using c(1) by (simp add: shape_inv_def q_dir_def tw_inv_add)
    show "ids_ok (q_nextMsgID ?q) (sl(r \<mapsto> s))" using ids by simp
    show "tracks ready_key StateReady (ready_view ?q + H) (sl(r \<mapsto> s))"
      using rt.absent [OF c(3) out, of s] assms(3) by (simp add: ready_view_def)
    show "tracks delayed_key StateDelayed (mset (q_delayed ?q) + D) (sl(r \<mapsto> s))"
      using dt.absent [OF c(4) out, of s] assms(3) by simp
    show "tracks lease_key StateInflight (mset (q_inflight ?q) + P) (sl(r \<mapsto> s))"
      using it.enter [OF c(5), of r s] out assms(3) by simp
    show "tracks dead_key StateDead (dead_view ?q + X) (sl(r \<mapsto> s))"
      using xt.absent [OF c(6) out, of s] assms(3) by (simp add: dead_view_def)
    show "receipts_ok (T - {s_MsgID s}) (map_of (q_receipts ?q)) (sl(r \<mapsto> s))"
      using receipts_grant [OF c(7) ids assms(3)] out by simp
  qed
qed

lemma insert_dead:
  assumes "core_inv H D P T X sl q" "fresh_id r sl (s_MsgID s) q" "s_State s = StateDead" "dm\<lparr>dm_Payload := []\<rparr> = dead_key r s"
  shows "core_inv H D P T X (sl(r \<mapsto> s)) (q\<lparr>q_dead := q_dead q @ [dm]\<rparr>)" (is "core_inv _ _ _ _ _ _ ?q")
proof -
  note c = core_invD [OF assms(1)]
  have out: "sl r = None" using assms(2) by (simp add: fresh_id_def)
  show ?thesis
    unfolding core_inv_def
  proof (intro conjI)
    show "shape_inv ?q" using c(1) by (simp add: shape_inv_def q_dir_def)
    show "ids_ok (q_nextMsgID ?q) (sl(r \<mapsto> s))" using ids_ok_fresh [OF c(2) assms(2)] assms(3) by simp
    show "tracks ready_key StateReady (ready_view ?q + H) (sl(r \<mapsto> s))"
      using rt.absent [OF c(3) out, of s] assms(3) by (simp add: ready_view_def)
    show "tracks delayed_key StateDelayed (mset (q_delayed ?q) + D) (sl(r \<mapsto> s))"
      using dt.absent [OF c(4) out, of s] assms(3) by simp
    show "tracks lease_key StateInflight (mset (q_inflight ?q) + P) (sl(r \<mapsto> s))"
      using it.absent [OF c(5) out, of s] assms(3) by simp
    show "tracks dead_key StateDead (dead_view ?q + X) (sl(r \<mapsto> s))"
      using xt.enter [OF c(6), of r s] out assms(3,4) by (simp add: dead_view_def)
    show "receipts_ok T (map_of (q_receipts ?q)) (sl(r \<mapsto> s))" using receipts_absent [OF c(7) out, of s] assms(3) by simp
  qed
qed

end
