(* ===== verification/Queue_Steps.thy ===== *)
theory Queue_Steps
  imports Queue_Inv
begin

text \<open>
  The building blocks of the handlers keep the invariant: popping the heap and the wheels, withdrawing a
  lease, promotion of due messages, granting and rolling back leases, expiry, requeueing and dead-lettering.
\<close>

section \<open>Taking entries in hand\<close>

lemma pop_ready:
  assumes "core_inv H D P T X sl q" "0 < rh_Len (q_ready q)" "rh_pop (q_ready q) = (e, rdy)"
  shows "core_inv (add_mset (e\<lparr>he_cachedPri := 0\<rparr>) H) D P T X sl (q\<lparr>q_ready := rdy\<rparr>)"
proof -
  note c = core_invD [OF assms(1)]
  have rh: "rh_inv (q_dir q) (q_ready q)" "rh_elems (q_ready q) \<noteq> {#}"
    using c(1) assms(2) by (simp_all add: shape_inv_def rh_elems_def rh_Len_def)
  have p: "mset (rh_entries (q_ready q)) = add_mset e (mset (rh_entries rdy))" "rh_inv (q_dir q) rdy"
    using rhq.pop_elems [OF rh] rhq.pop_invar [OF rh] assms(3) by (simp_all add: rh_elems_def)
  then have v: "ready_view q = add_mset (e\<lparr>he_cachedPri := 0\<rparr>) (ready_view (q\<lparr>q_ready := rdy\<rparr>))"
    by (simp add: ready_view_def)
  then have "tracks ready_key StateReady (ready_view (q\<lparr>q_ready := rdy\<rparr>) + add_mset (e\<lparr>he_cachedPri := 0\<rparr>) H) sl"
    using c(3) by simp
  then show ?thesis
    using c p(2) by (simp add: core_inv_def shape_inv_def q_dir_def dead_view_def)
qed

lemma pop_delayed:
  assumes "core_inv H D P T X sl q" "tw_popExpired now (q_delayed q) = (es, w)"
  shows "core_inv H (mset es + D) P T X sl (q\<lparr>q_delayed := w\<rparr>)"
    "\<forall>e \<in> set es. sint (we_deadline e) \<le> sint now" "\<forall>e \<in> set w. sint now < sint (we_deadline e)"
proof -
  note c = core_invD [OF assms(1)]
  have tw: "tw_inv (q_delayed q)" using c(1) by (simp add: shape_inv_def)
  note p = tw_popExpired_spec [OF tw assms(2)]
  have es: "mset es + mset w = mset (q_delayed q)"
    using p by (simp add: multiset_partition [symmetric])
  have "set_mset (mset es) = {e. e \<in># mset (q_delayed q) \<and> sint (we_deadline e) \<le> sint now}"
    "set_mset (mset w) = {e. e \<in># mset (q_delayed q) \<and> \<not> sint (we_deadline e) \<le> sint now}" using p by auto
  then show "\<forall>e \<in> set es. sint (we_deadline e) \<le> sint now" "\<forall>e \<in> set w. sint now < sint (we_deadline e)" by auto
  have "tracks delayed_key StateDelayed (mset w + (mset es + D)) sl"
    using c(4) unfolding es [symmetric] by (simp add: ac_simps)
  then show "core_inv H (mset es + D) P T X sl (q\<lparr>q_delayed := w\<rparr>)"
    using c p by (simp add: core_inv_def shape_inv_def q_dir_def ready_view_def dead_view_def)
qed

lemma pop_inflight:
  assumes "core_inv H D P T X sl q" "tw_popExpired now (q_inflight q) = (es, w)"
  shows "core_inv H D (mset es + P) T X sl (q\<lparr>q_inflight := w\<rparr>)"
    "\<forall>e \<in> set es. sint (we_deadline e) \<le> sint now" "\<forall>e \<in> set w. sint now < sint (we_deadline e)"
proof -
  note c = core_invD [OF assms(1)]
  have tw: "tw_inv (q_inflight q)" using c(1) by (simp add: shape_inv_def)
  note p = tw_popExpired_spec [OF tw assms(2)]
  have es: "mset es + mset w = mset (q_inflight q)"
    using p by (simp add: multiset_partition [symmetric])
  have "set_mset (mset es) = {e. e \<in># mset (q_inflight q) \<and> sint (we_deadline e) \<le> sint now}"
    "set_mset (mset w) = {e. e \<in># mset (q_inflight q) \<and> \<not> sint (we_deadline e) \<le> sint now}" using p by auto
  then show "\<forall>e \<in> set es. sint (we_deadline e) \<le> sint now" "\<forall>e \<in> set w. sint now < sint (we_deadline e)" by auto
  have "tracks lease_key StateInflight (mset w + (mset es + P)) sl"
    using c(5) unfolding es [symmetric] by (simp add: ac_simps)
  then show "core_inv H D (mset es + P) T X sl (q\<lparr>q_inflight := w\<rparr>)"
    using c p by (simp add: core_inv_def shape_inv_def q_dir_def ready_view_def dead_view_def)
qed

text \<open>Withdrawing a lease: the receipt and its entry in the in-flight wheel go together.\<close>

definition drop_lease :: "u64 \<Rightarrow> Queue \<Rightarrow> Queue" where
  "drop_lease m q = q\<lparr>q_receipts := AList.delete m (q_receipts q), q_inflight := snd (tw_remove m (q_inflight q))\<rparr>"

lemma receipt_slot:
  assumes "core_inv H D P T X sl q" "map_of (q_receipts q) m = Some info"
  obtains s where "sl (li_indexRef info) = Some s" "s_MsgID s = m" "s_State s = StateInflight"
    "info = lease_of (li_indexRef info) s" "m \<notin> T"
proof -
  obtain r s where "sl r = Some s" "s_MsgID s = m" "s_State s = StateInflight" "info = lease_of r s" "m \<notin> T"
    using receipts_okD [OF core_invD(7) [OF assms(1)], of m info] assms(2) by blast
  then show ?thesis using that by (simp add: lease_of_def)
qed

lemma drop_lease_core:
  assumes c: "core_inv H D P T X sl q" and s: "sl r = Some s" "s_State s = StateInflight" "s_MsgID s = m"
    and P: "\<forall>e \<in># P. we_msgID e \<noteq> m"
  shows "core_inv H D (add_mset (lease_key r s) P) (insert m T) X sl (drop_lease m q)"
proof -
  note ci = core_invD [OF c]
  have tw: "tw_inv (q_inflight q)" using ci(1) by (simp add: shape_inv_def)
  have "lease_key r s \<in># mset (q_inflight q) + P" using it.member [OF ci(5)] s by blast
  moreover have "lease_key r s \<notin># P" using P s(3) by (auto simp: lease_key_def)
  ultimately have "lease_key r s \<in> set (q_inflight q)" by simp
  then have "m \<in> we_msgID ` set (q_inflight q)" using s(3) by (force simp: lease_key_def)
  then obtain e w where rem: "tw_remove m (q_inflight q) = (Some e, w)"
    using tw_remove_None [of m "q_inflight q"] by (metis option.exhaust prod.exhaust)
  note r = tw_remove_Some [OF tw rem]
  have "e \<in># mset (q_inflight q) + P" by (simp add: r(2) del: mset_add)
  then obtain x y where x: "sl x = Some y" "s_State y = StateInflight" "lease_key x y = e"
    using it.member [OF ci(5)] by blast
  then have "s_MsgID y = m" using r(1) by (auto simp: lease_key_def)
  then have "x = r" using ids_okD(4) [OF ci(2) s(1) x(1)] s(3) by simp
  then have e: "e = lease_key r s" using x s(1) by simp
  have "tracks lease_key StateInflight (mset w + add_mset (lease_key r s) P) sl"
    using ci(5) r(2) e by simp
  moreover have "receipts_ok (insert m T) (map_of (AList.delete m (q_receipts q))) sl"
    using receipts_withdraw [OF ci(7), of m] by simp
  ultimately show ?thesis
    using ci r(3) rem
    by (simp add: core_inv_def shape_inv_def q_dir_def drop_lease_def ready_view_def dead_view_def)
qed

section \<open>Moving one message\<close>

text \<open>
  The message at \<open>r\<close> has been taken out (the map is \<open>q_slots\<close> without \<open>r\<close>); the operation writes its new
  slot and enters it into the structure of its new state.
\<close>

abbreviation without :: "u64 \<Rightarrow> Queue \<Rightarrow> u64 \<rightharpoonup> Slot" where
  "without r q \<equiv> (q_slots q)(r := None)"

lemma fresh_idx_put [simp]: "fresh_id r sl m (idx_put x s q) = fresh_id r sl m q"
  by (simp add: fresh_id_def)

lemma put_ready:
  assumes "core_inv H D P T X (without r q) q" "fresh_id r (without r q) (s_MsgID s) q" "s_State s = StateReady"
    "s_MsgID s2 = s_MsgID s" "s_Priority s2 = s_Priority s" "s_EnqueuedAtMs s2 = s_EnqueuedAtMs s"
  shows "place_inv H D P T X (ready_push now s2 r (idx_put r s q))"
proof -
  have "fresh_id r (without r q) (s_MsgID s) (idx_put r s q)" using assms(2) by simp
  from insert_ready [OF core_idx_put [OF assms(1), of r s] this assms(3-6), of now] show ?thesis by simp
qed

lemma put_delayed:
  assumes "core_inv H D P T X (without r q) q" "fresh_id r (without r q) (s_MsgID s) q" "s_State s = StateDelayed"
  shows "place_inv H D P T X ((idx_put r s q)\<lparr>q_delayed := tw_add (delayed_key r s) (q_delayed q)\<rparr>)"
proof -
  have "fresh_id r (without r q) (s_MsgID s) (idx_put r s q)" using assms(2) by simp
  from insert_delayed [OF core_idx_put [OF assms(1), of r s] this assms(3)] show ?thesis by simp
qed

lemma put_lease:
  assumes "core_inv H D P T X (without r q) q" "fresh_id r (without r q) (s_MsgID s) q" "s_State s = StateInflight"
  shows "place_inv H D P (T - {s_MsgID s}) X
    ((idx_put r s q)\<lparr>q_receipts := AList.update (s_MsgID s) (lease_of r s) (q_receipts q), q_inflight := tw_add (lease_key r s) (q_inflight q)\<rparr>)"
proof -
  have "fresh_id r (without r q) (s_MsgID s) (idx_put r s q)" using assms(2) by simp
  from insert_lease [OF core_idx_put [OF assms(1), of r s] this assms(3)] show ?thesis by simp
qed

lemma dead_ids:
  assumes "core_inv H D P T X sl q" "d \<in> set (q_dead q)"
  obtains r s where "sl r = Some s" "s_State s = StateDead" "dead_key r s = d\<lparr>dm_Payload := []\<rparr>" "s_MsgID s = dm_ID d"
proof -
  have "d\<lparr>dm_Payload := []\<rparr> \<in># dead_view q + X" using assms(2) by (simp add: dead_view_def)
  then obtain r s where rs: "sl r = Some s" "s_State s = StateDead" "dead_key r s = d\<lparr>dm_Payload := []\<rparr>"
    using xt.member [OF core_invD(6) [OF assms(1)]] by blast
  moreover from arg_cong [OF rs(3), of dm_ID] have "s_MsgID s = dm_ID d" by (simp add: dead_key_def)
  ultimately show ?thesis using that by blast
qed

lemma put_dead:
  assumes c: "core_inv H D P T X (without r q) q" and f: "fresh_id r (without r q) (s_MsgID s) q"
  shows "place_inv H D P T X (deadLetterLocked s r payload q)"
    "q_slots (deadLetterLocked s r payload q) = (q_slots q)(r \<mapsto> unleased StateDead s)"
    "q_dead (deadLetterLocked s r payload q) = q_dead q @ [(dead_key r s)\<lparr>dm_Payload := payload\<rparr>]"
proof -
  have new: "dm_ID d \<noteq> s_MsgID s" if d: "d \<in> set (q_dead q)" for d
  proof -
    obtain x y where "(without r q) x = Some y" "s_MsgID y = dm_ID d" by (rule dead_ids [OF c d])
    then show ?thesis using f by (metis fresh_id_def)
  qed
  let ?s = "unleased StateDead s" and ?dm = "(dead_key r s)\<lparr>dm_Payload := payload\<rparr>"
  have dl: "deadLetterLocked s r payload q = idx_put r ?s (q\<lparr>q_dead := q_dead q @ [?dm]\<rparr>)"
    using new by (auto simp: deadLetterLocked_def dead_key_def)
  have "core_inv H D P T X ((without r q)(r \<mapsto> ?s)) (q\<lparr>q_dead := q_dead q @ [?dm]\<rparr>)"
    by (rule insert_dead [OF c]) (use f in \<open>simp_all add: unleased_def dead_key_def\<close>)
  then show "place_inv H D P T X (deadLetterLocked s r payload q)"
    unfolding dl using core_idx_put by simp
  show "q_slots (deadLetterLocked s r payload q) = (q_slots q)(r \<mapsto> ?s)" "q_dead (deadLetterLocked s r payload q) = q_dead q @ [?dm]"
    unfolding dl by simp_all
qed

section \<open>Promotion of due messages\<close>

definition promoted :: "u64 set \<Rightarrow> (u64 \<rightharpoonup> Slot) \<Rightarrow> u64 \<rightharpoonup> Slot" where
  "promoted refs sl = (\<lambda>r. map_option (\<lambda>s. if r \<in> refs then s\<lparr>s_State := StateReady\<rparr> else s) (sl r))"

lemma promoted_insert:
  "sl r = Some s \<Longrightarrow> promoted refs (sl(r \<mapsto> s\<lparr>s_State := StateReady\<rparr>)) = promoted (insert r refs) sl"
  by (rule ext) (auto simp: promoted_def)

lemma promote_loop_inv:
  assumes "core_inv H (mset es + D) P T X (q_slots q) q"
  shows "place_inv H D P T X (promote_loop now es q) \<and>
    q_slots (promote_loop now es q) = promoted (we_indexRef ` set es) (q_slots q)"
  using assms
proof (induction es arbitrary: q)
  case Nil
  then show ?case by (simp add: promoted_def map_option.identity)
next
  case (Cons e es)
  let ?r = "we_indexRef e"
  note c = core_invD [OF Cons.prems]
  have "e \<in># mset (q_delayed q) + (mset (e # es) + D)" by simp
  then obtain r s where rs: "q_slots q r = Some s" "s_State s = StateDelayed" "delayed_key r s = e"
    using dt.member [OF c(4)] by blast
  have r: "r = ?r" using rs(3) by (auto simp: delayed_key_def)
  have id: "s_MsgID s \<noteq> 0" using ids_okD(1) [OF c(2) rs(1)] .
  have "core_inv H (add_mset (delayed_key r s) (mset es + D)) P T X (q_slots q) q" using Cons.prems rs(3) by simp
  note rem = remove_delayed [OF this rs(1,2)]
  let ?s = "s\<lparr>s_State := StateReady\<rparr>"
  have "place_inv H (mset es + D) P T X (ready_push now s r (idx_put r ?s q))"
    by (rule put_ready [OF rem]) (simp_all add: fresh_removed [OF Cons.prems rs(1), of q])
  note IH = Cons.IH [OF this]
  have eq: "promote_loop now (e # es) q = promote_loop now es (ready_push now s r (idx_put r ?s q))"
    using rs(1) id by (simp add: GetByRef_slots flip: r)
  have "q_slots (promote_loop now (e # es) q) = promoted (we_indexRef ` set (e # es)) (q_slots q)"
    unfolding eq conjunct2 [OF IH] using promoted_insert [of "q_slots q" r s] rs(1) r by simp
  then show ?case using conjunct1 [OF IH] unfolding eq by blast
qed

lemma promote_loop_fields [simp]:
  "q_cfg (promote_loop now es q) = q_cfg q" "q_delayed (promote_loop now es q) = q_delayed q"
  "q_inflight (promote_loop now es q) = q_inflight q" "q_receipts (promote_loop now es q) = q_receipts q"
  "q_dead (promote_loop now es q) = q_dead q" "q_wal (promote_loop now es q) = q_wal q"
  "q_pages (promote_loop now es q) = q_pages q" "q_nextMsgID (promote_loop now es q) = q_nextMsgID q"
  "q_reserved (promote_loop now es q) = q_reserved q" "q_apply (promote_loop now es q) = q_apply q"
  "q_stopped (promote_loop now es q) = q_stopped q"
  by (induction es arbitrary: q) (auto split: option.split)

lemma promoteLocked_fields [simp]:
  "q_cfg (promoteLocked now q) = q_cfg q"
  "q_inflight (promoteLocked now q) = q_inflight q" "q_receipts (promoteLocked now q) = q_receipts q"
  "q_dead (promoteLocked now q) = q_dead q" "q_wal (promoteLocked now q) = q_wal q"
  "q_pages (promoteLocked now q) = q_pages q" "q_nextMsgID (promoteLocked now q) = q_nextMsgID q"
  "q_reserved (promoteLocked now q) = q_reserved q" "q_apply (promoteLocked now q) = q_apply q"
  "q_stopped (promoteLocked now q) = q_stopped q"
  by (simp_all add: promoteLocked_def split: prod.split)

text \<open>The messages that are due: delayed ones whose time has come.\<close>

definition due :: "i64 \<Rightarrow> Slot \<Rightarrow> bool" where
  "due now s \<longleftrightarrow> s_State s = StateDelayed \<and> sint (s_AvailableAtMs s) \<le> sint now"

definition promote_due :: "i64 \<Rightarrow> Slot \<Rightarrow> Slot" where
  "promote_due now s = (if due now s then s\<lparr>s_State := StateReady\<rparr> else s)"

lemma promoteLocked_inv:
  assumes "place_inv H {#} P T X q"
  shows "place_inv H {#} P T X (promoteLocked now q)"
    "q_slots (promoteLocked now q) = (\<lambda>r. map_option (promote_due now) (q_slots q r))"
proof -
  obtain es w where p: "tw_popExpired now (q_delayed q) = (es, w)" by force
  note pd = pop_delayed [OF assms p]
  have eq: "promoteLocked now q = promote_loop now es (q\<lparr>q_delayed := w\<rparr>)" by (simp add: promoteLocked_def p)
  have "core_inv H (mset es + {#}) P T X (q_slots (q\<lparr>q_delayed := w\<rparr>)) (q\<lparr>q_delayed := w\<rparr>)" using pd(1) by simp
  note pl = promote_loop_inv [OF this, of now, folded eq]
  show "place_inv H {#} P T X (promoteLocked now q)" by (rule conjunct1 [OF pl])
  note c = core_invD [OF pd(1)]
  have "r \<in> we_indexRef ` set es \<longleftrightarrow> due now s" if s: "q_slots q r = Some s" for r s
  proof
    assume "r \<in> we_indexRef ` set es"
    then obtain e where e: "e \<in> set es" "we_indexRef e = r" by blast
    then have "e \<in># mset (q_delayed (q\<lparr>q_delayed := w\<rparr>)) + (mset es + {#})" by simp
    then obtain x y where x: "q_slots q x = Some y" "s_State y = StateDelayed" "delayed_key x y = e"
      using dt.member [OF c(4)] by blast
    then have "x = r" "s_AvailableAtMs y = we_deadline e" using e(2) by (auto simp: delayed_key_def)
    then show "due now s" using x s e(1) pd(2) by (simp add: due_def)
  next
    assume d: "due now s"
    then have "delayed_key r s \<in># mset (q_delayed (q\<lparr>q_delayed := w\<rparr>)) + (mset es + {#})"
      using dt.member [OF c(4)] s unfolding due_def by blast
    moreover have "delayed_key r s \<notin> set w" using d pd(3) by (auto simp: due_def delayed_key_def)
    ultimately have "delayed_key r s \<in> set es" by simp
    then show "r \<in> we_indexRef ` set es" by (force simp: delayed_key_def)
  qed
  then show "q_slots (promoteLocked now q) = (\<lambda>r. map_option (promote_due now) (q_slots q r))"
    unfolding conjunct2 [OF pl]
    by (intro ext, case_tac "q_slots q r") (simp_all add: promoted_def promote_due_def)
qed

section \<open>Granting leases\<close>

definition mk_leased :: "i64 \<Rightarrow> u64 \<Rightarrow> Slot \<Rightarrow> leased" where
  "mk_leased until nonce s =
    \<lparr>ls_delivery = \<lparr>d_ID = s_MsgID s, d_Payload = [], d_Priority = s_Priority s, d_Attempt = s_Attempts s + 1,
       d_Receipt = encodeReceipt (s_MsgID s) (s_Attempts s + 1) nonce, d_LeaseUntilMs = until\<rparr>,
     ls_ref = s_PayloadRef s, ls_len = s_PayloadLen s,
     ls_rec = \<lparr>rec_LSN = 0, rec_Op = OpLease, rec_Flags = 0, rec_Body = BLease
       \<lparr>le_MsgID = s_MsgID s, le_Nonce = nonce, le_Attempt = s_Attempts s + 1, le_LeaseUntilMs = until\<rparr>\<rparr>\<rparr>"

definition grant_lease :: "u64 \<Rightarrow> Slot \<Rightarrow> Queue \<Rightarrow> Queue" where
  "grant_lease r s q =
    (idx_put r s q)\<lparr>q_receipts := AList.update (s_MsgID s) (lease_of r s) (q_receipts q), q_inflight := tw_add (lease_key r s) (q_inflight q)\<rparr>"

lemma grant_lease_fields [simp]:
  "q_cfg (grant_lease r s q) = q_cfg q" "q_delayed (grant_lease r s q) = q_delayed q" "q_ready (grant_lease r s q) = q_ready q"
  "q_dead (grant_lease r s q) = q_dead q" "q_wal (grant_lease r s q) = q_wal q"
  "q_slots (grant_lease r s q) = (q_slots q)(r \<mapsto> s)" "q_pages (grant_lease r s q) = q_pages q"
  "q_nextMsgID (grant_lease r s q) = q_nextMsgID q" "q_reserved (grant_lease r s q) = q_reserved q"
  "q_apply (grant_lease r s q) = q_apply q" "q_stopped (grant_lease r s q) = q_stopped q"
  by (simp_all add: grant_lease_def)

lemma lease_slot_fields [simp]:
  "s_MsgID (lease_slot until nonce s) = s_MsgID s" "s_State (lease_slot until nonce s) = StateInflight"
  "s_Priority (lease_slot until nonce s) = s_Priority s" "s_EnqueuedAtMs (lease_slot until nonce s) = s_EnqueuedAtMs s"
  "s_PayloadRef (lease_slot until nonce s) = s_PayloadRef s" "s_PayloadLen (lease_slot until nonce s) = s_PayloadLen s"
  "s_Attempts (lease_slot until nonce s) = s_Attempts s + 1" "s_LeaseNonce (lease_slot until nonce s) = nonce"
  "s_LeaseUntilMs (lease_slot until nonce s) = until" "s_AvailableAtMs (lease_slot until nonce s) = s_AvailableAtMs s"
  by (simp_all add: lease_slot_def)

lemma lease_one_eq: "lease_one until nonce r s q = (mk_leased until nonce s, grant_lease r (lease_slot until nonce s) q)"
  by (simp add: lease_one_def mk_leased_def grant_lease_def lease_of_def lease_key_def Let_def)

lemma grant_lease_inv:
  assumes "core_inv (add_mset (ready_key r s) H) D P T X (q_slots q) q" "q_slots q r = Some s" "s_State s = StateReady"
    "s_MsgID s' = s_MsgID s" "s_State s' = StateInflight"
  shows "place_inv H D P (T - {s_MsgID s}) X (grant_lease r s' q)"
  using put_lease [OF remove_ready [OF assms(1-3)] _ assms(5)] fresh_removed [OF assms(1,2), of q] assms(4)
  by (simp add: grant_lease_def)

text \<open>The slots and the deliveries that the loop makes of the messages it takes.\<close>

fun granted :: "(nat \<Rightarrow> u64) \<Rightarrow> i64 \<Rightarrow> nat \<Rightarrow> (u64 \<times> Slot) list \<Rightarrow> (u64 \<times> Slot) list" where
  "granted nonces until i [] = []"
| "granted nonces until i ((r, s) # g) = (r, lease_slot until (nonces i) s) # granted nonces until (Suc i) g"

fun leases :: "(nat \<Rightarrow> u64) \<Rightarrow> i64 \<Rightarrow> nat \<Rightarrow> (u64 \<times> Slot) list \<Rightarrow> leased list" where
  "leases nonces until i [] = []"
| "leases nonces until i ((r, s) # g) = mk_leased until (nonces i) s # leases nonces until (Suc i) g"

lemma dom_granted [simp]: "map fst (granted nonces until i g) = map fst g"
  by (induction nonces until i g rule: granted.induct) auto

definition same_base :: "Queue \<Rightarrow> Queue \<Rightarrow> bool" where
  "same_base q q' \<longleftrightarrow> q_cfg q' = q_cfg q \<and> q_delayed q' = q_delayed q \<and> q_dead q' = q_dead q \<and> q_wal q' = q_wal q \<and>
     q_pages q' = q_pages q \<and> q_nextMsgID q' = q_nextMsgID q \<and> q_reserved q' = q_reserved q \<and> q_apply q' = q_apply q \<and>
     q_stopped q' = q_stopped q"

lemma lease_loop_spec:
  assumes "place_inv {#} D P {} X q" "lease_loop nonces until i mx q = (ls, q')"
  shows "\<exists>g. length g = min (mx - i) (rh_Len (q_ready q)) \<and> distinct (map fst g) \<and>
    (\<forall>(r, s) \<in> set g. q_slots q r = Some s \<and> s_State s = StateReady) \<and>
    map fst g = map he_indexRef (fst (drain rh_pop (length g) (q_ready q))) \<and>
    ls = leases nonces until i g \<and> q_slots q' = q_slots q ++ map_of (granted nonces until i g) \<and>
    place_inv {#} D P {} X q' \<and> same_base q q'"
  using assms
proof (induction nonces until i mx q arbitrary: ls q' rule: lease_loop.induct)
  case (1 nonces until i mx q)
  show ?case
  proof (cases "i < mx \<and> 0 < rh_Len (q_ready q)")
    case False
    then have "ls = []" "q' = q" using "1.prems"(2) by (subst (asm) lease_loop.simps, auto)+
    then show ?thesis using "1.prems"(1) False by (intro exI [of _ "[]"]) (auto simp: same_base_def)
  next
    case True
    obtain e rdy where pop: "rh_pop (q_ready q) = (e, rdy)" by force
    let ?q1 = "q\<lparr>q_ready := rdy\<rparr>" and ?r = "he_indexRef e"
    have c1: "core_inv (add_mset (e\<lparr>he_cachedPri := 0\<rparr>) {#}) D P {} X (q_slots q) ?q1"
      using pop_ready [OF "1.prems"(1) _ pop] True by simp
    have "e\<lparr>he_cachedPri := 0\<rparr> \<in># ready_view ?q1 + {#e\<lparr>he_cachedPri := 0\<rparr>#}" by simp
    then obtain r s where rs: "q_slots q r = Some s" "s_State s = StateReady" "ready_key r s = e\<lparr>he_cachedPri := 0\<rparr>"
      using rt.member [OF core_invD(3) [OF c1]] by blast
    have r: "r = ?r" using arg_cong [OF rs(3), of he_indexRef] by (simp add: ready_key_def)
    have id: "s_MsgID s \<noteq> 0" using ids_okD(1) [OF core_invD(2) [OF c1] rs(1)] .
    let ?s = "lease_slot until (nonces i) s"
    let ?q2 = "grant_lease r ?s ?q1"
    have inv2: "place_inv {#} D P {} X ?q2"
      using grant_lease_inv [of r s "{#}" D P "{}" X ?q1 ?s] c1 rs by simp
    obtain ls' where rest: "lease_loop nonces until (Suc i) mx ?q2 = (ls', q')"
      and ls: "ls = mk_leased until (nonces i) s # ls'"
      using "1.prems"(2) True pop rs(1) id
      by (subst (asm) lease_loop.simps) (auto simp: GetByRef_slots lease_one_eq r [symmetric] split: prod.splits)
    have get: "GetByRef ?r (q_idx ?q1) = Some s" using rs(1) r by (simp add: GetByRef_slots)
    have one: "lease_one until (nonces i) ?r s ?q1 = (mk_leased until (nonces i) s, ?q2)" by (simp add: lease_one_eq r)
    obtain g where g: "length g = min (mx - Suc i) (rh_Len (q_ready ?q2))" "distinct (map fst g)"
      "\<forall>(r, s) \<in> set g. q_slots ?q2 r = Some s \<and> s_State s = StateReady"
      "map fst g = map he_indexRef (fst (drain rh_pop (length g) (q_ready ?q2)))"
      "ls' = leases nonces until (Suc i) g" "q_slots q' = q_slots ?q2 ++ map_of (granted nonces until (Suc i) g)"
      "place_inv {#} D P {} X q'" "same_base ?q2 q'"
      using "1.IH"(3) [OF True pop [symmetric] refl get id one [symmetric] inv2 rest] by blast
    have nr: "r \<notin> fst ` set g" using g(3) by force
    have dom: "r \<notin> dom (map_of (granted nonces until (Suc i) g))"
      using nr dom_granted [of nonces until "Suc i" g] by (metis dom_map_of_conv_image_fst list.set_map)
    have sl: "q_slots q' = q_slots q ++ map_of (granted nonces until i ((r, s) # g))"
      unfolding g(6) using dom by (simp add: map_add_upd_left)
    have "rh_Len (q_ready q) = Suc (rh_Len rdy)"
      using length_heap_Pop [of "rh_Less (rh_dir (q_ready q))" "rh_entries (q_ready q)"] pop True
      by (auto simp: rh_Len_def rh_pop_def split: prod.splits)
    then have len: "length ((r, s) # g) = min (mx - i) (rh_Len (q_ready q))" using g(1) True by auto
    have "q_slots q r' = Some s' \<and> s_State s' = StateReady" if "(r', s') \<in> set g" for r' s'
    proof -
      have "r' \<noteq> r" using nr that by force
      then show ?thesis using g(3) that by fastforce
    qed
    then have got: "\<forall>(r', s') \<in> set ((r, s) # g). q_slots q r' = Some s' \<and> s_State s' = StateReady" using rs by auto
    have order: "map fst ((r, s) # g) = map he_indexRef (fst (drain rh_pop (length ((r, s) # g)) (q_ready q)))"
      using g(4) r by (simp add: pop split: prod.splits)
    have dist: "distinct (map fst ((r, s) # g))" using g(2) nr by simp
    have out: "ls = leases nonces until i ((r, s) # g)" using ls g(5) by simp
    have base: "same_base q q'" using g(8) by (simp add: same_base_def)
    show ?thesis using len dist got order out sl g(7) base by blast
  qed
qed

end
