(* ===== verification/Store_Props.thy ===== *)
theory Store_Props
  imports Store
begin

text \<open>
  Correctness of the page store: the invariant that ties pages, files and hints together, the set of
  live references, and what \<open>Alloc\<close>, \<open>Release\<close> and payload writes do to them.
\<close>

section \<open>Geometry of a page in the store\<close>

definition class_page :: "nat \<Rightarrow> page \<Rightarrow> bool" where
  "class_page c pg \<longleftrightarrow> c < 14 \<and> \<not> pg_jumbo pg \<and> pg_sizeClass pg = SizeClasses ! c \<and>
     slabLayout (SizeClasses ! c) = (pg_capacity pg, pg_slotsStart pg) \<and> pg_dataLen pg = 2 ^ 20"

lemma class_page_cong:
  "pg_jumbo q = pg_jumbo pg \<Longrightarrow> pg_sizeClass q = pg_sizeClass pg \<Longrightarrow> pg_capacity q = pg_capacity pg \<Longrightarrow>
   pg_slotsStart q = pg_slotsStart pg \<Longrightarrow> pg_dataLen q = pg_dataLen pg \<Longrightarrow> class_page c q = class_page c pg"
  by (simp add: class_page_def)

lemma class_page_slab:
  assumes "class_page c pg"
  shows "slab_page pg"
proof -
  note l = layout_class [of c "pg_capacity pg" "pg_slotsStart pg"]
  have "unat (pg_capacity pg) * 64 \<le> unat (pg_capacity pg) * unat (SizeClasses ! c)"
    using assms l(4) by (intro mult_le_mono2) (simp add: class_page_def)
  moreover have "unat (pg_slotsStart pg) + unat (pg_capacity pg) * unat (SizeClasses ! c) \<le> 2 ^ 20"
    using assms l(3) by (simp add: class_page_def)
  ultimately have "unat (pg_capacity pg) \<le> 2 ^ 20" by linarith
  then show ?thesis using assms l(1) by (auto simp: slab_page_def class_page_def word_less_nat_alt)
qed

lemma class_offset:
  assumes "class_page c pg" "i < unat (pg_capacity pg)"
  defines "off \<equiv> slotOffset pg (word_of_nat i)"
  shows "unat off = unat (pg_slotsStart pg) + i * unat (pg_sizeClass pg)"
    "unat off + unat (pg_sizeClass pg) \<le> 2 ^ 20" "32 + 8 * numWords pg \<le> unat off" "0 < unat (pg_sizeClass pg)"
    "off < PageSize"
proof -
  have c: "c < 14" "slabLayout (SizeClasses ! c) = (pg_capacity pg, pg_slotsStart pg)" "pg_sizeClass pg = SizeClasses ! c"
    using assms(1) by (simp_all add: class_page_def)
  note l = layout_class [OF c(1,2), folded c(3)]
  show sc: "0 < unat (pg_sizeClass pg)" using l(4) by simp
  have "Suc i * unat (pg_sizeClass pg) \<le> unat (pg_capacity pg) * unat (pg_sizeClass pg)"
    using assms(2) by (intro mult_le_mono1) simp
  then have b: "unat (pg_slotsStart pg) + i * unat (pg_sizeClass pg) + unat (pg_sizeClass pg) \<le> 2 ^ 20"
    using l(3) by simp
  have ui: "unat (word_of_nat i :: u32) = i"
    using assms(2) unsigned_less [of "pg_capacity pg", where 'a = nat] by (intro unat_of_nat_u32) simp
  have "unat (word_of_nat i * pg_sizeClass pg) = i * unat (pg_sizeClass pg)"
    unfolding unat_mult_lem [THEN iffD1] using b ui by (simp add: unat_word_ariths)
  then show off: "unat off = unat (pg_slotsStart pg) + i * unat (pg_sizeClass pg)"
    using b unfolding off_def slotOffset_def by (simp add: unat_word_ariths(1))
  show "unat off + unat (pg_sizeClass pg) \<le> 2 ^ 20" using off b by simp
  then show "off < PageSize" using sc by (simp add: PageSize_def word_less_nat_alt)
  show "32 + 8 * numWords pg \<le> unat off" using off l(2) by (simp add: numWords_def)
qed

lemma ref_slot_Pack:
  assumes "class_page c pg" "i < unat (pg_capacity pg)"
  shows "unat (ref_slot (Pack k (slotOffset pg (word_of_nat i))) pg) = i"
proof -
  note o = class_offset [OF assms]
  have "slotOffset pg (word_of_nat i) - pg_slotsStart pg = word_of_nat i * pg_sizeClass pg"
    by (simp add: slotOffset_def)
  moreover have "unat (word_of_nat i :: u32) = i"
    using assms(2) unsigned_less [of "pg_capacity pg", where 'a = nat] by (intro unat_of_nat_u32) simp
  moreover have "i * unat (pg_sizeClass pg) < 2 ^ 32" using o(1,2) by simp
  ultimately show ?thesis
    using o(4) by (simp add: ref_slot_def Offset_Pack [OF o(5)] unat_div unat_word_ariths(2))
qed

lemma class_offset_inj:
  assumes "class_page c pg" "i < unat (pg_capacity pg)" "j < unat (pg_capacity pg)"
    "Pack k (slotOffset pg (word_of_nat i)) = Pack k (slotOffset pg (word_of_nat j))"
  shows "i = j"
proof -
  have "i = unat (ref_slot (Pack k (slotOffset pg (word_of_nat i))) pg)"
    by (rule ref_slot_Pack [OF assms(1,2), symmetric])
  also have "\<dots> = j" unfolding assms(4) by (rule ref_slot_Pack [OF assms(1,3)])
  finally show ?thesis .
qed

section \<open>Live references\<close>

definition slots_of :: "u32 \<Rightarrow> page \<Rightarrow> image \<Rightarrow> SlotRef set" where
  "slots_of k pg im =
    (if pg_jumbo pg then {Pack k HeaderSize} else (\<lambda>i. Pack k (slotOffset pg (word_of_nat i))) ` used pg im)"

definition live :: "Store \<Rightarrow> SlotRef set" where
  "live s = {r. \<exists>pg im. map_of (st_pgs s) (PageID r) = Some pg \<and> map_of (st_files s) (PageID r) = Some im \<and>
                        r \<in> slots_of (PageID r) pg im}"

text \<open>The geometry of a page, whatever its bitmap, and the references that name a slot of it.\<close>

definition page_shape :: "page \<Rightarrow> bool" where
  "page_shape pg \<longleftrightarrow>
    (if pg_jumbo pg then pg_slotsStart pg = HeaderSize \<and> 32 < pg_dataLen pg \<and> pg_dataLen pg < 2 ^ 32
     else (\<exists>c. class_page c pg))"

definition slot_ref :: "u32 \<Rightarrow> page \<Rightarrow> SlotRef \<Rightarrow> bool" where
  "slot_ref k pg r \<longleftrightarrow>
    (if pg_jumbo pg then r = Pack k HeaderSize
     else \<exists>i < unat (pg_capacity pg). r = Pack k (slotOffset pg (word_of_nat i)))"

lemma slots_of_slot_ref: "r \<in> slots_of k pg im \<Longrightarrow> slot_ref k pg r"
  by (auto simp: slots_of_def slot_ref_def used_def)

definition page_ok :: "page \<Rightarrow> image \<Rightarrow> bool" where
  "page_ok pg im \<longleftrightarrow>
    (if pg_jumbo pg then pg_slotsStart pg = HeaderSize \<and> 32 < pg_dataLen pg \<and> pg_dataLen pg < 2 ^ 32
     else (\<exists>c. class_page c pg) \<and> page_inv pg im)"

lemma page_ok_shape: "page_ok pg im \<Longrightarrow> page_shape pg"
  by (auto simp: page_ok_def page_shape_def)

definition store_inv :: "Store \<Rightarrow> bool" where
  "store_inv s \<longleftrightarrow>
     distinct (map fst (st_pgs s)) \<and> distinct (map fst (st_files s)) \<and> length (st_active s) = 14 \<and>
     0 < st_nextID s \<and> (\<forall>k. map_of (st_files s) k \<noteq> None \<longrightarrow> k < st_nextID s) \<and>
     (\<forall>k pg. map_of (st_pgs s) k = Some pg \<longrightarrow>
        k \<noteq> 0 \<and> (\<exists>im. map_of (st_files s) k = Some im \<and> page_ok pg im)) \<and>
     (\<forall>c < 14. st_active s ! c \<noteq> 0 \<longrightarrow> (\<exists>pg. map_of (st_pgs s) (st_active s ! c) = Some pg \<and> class_page c pg))"

lemma slots_of_PageID: "page_ok pg im \<Longrightarrow> r \<in> slots_of k pg im \<Longrightarrow> PageID r = k"
proof (cases "pg_jumbo pg")
  case True
  assume "r \<in> slots_of k pg im"
  then have "r = Pack k HeaderSize" using True by (simp add: slots_of_def)
  then show ?thesis using PageID_Pack [of HeaderSize k] by (simp add: HeaderSize_def PageSize_def)
next
  case False
  assume "page_ok pg im" "r \<in> slots_of k pg im"
  then obtain c i where "class_page c pg" "i \<in> used pg im" "r = Pack k (slotOffset pg (word_of_nat i))"
    using False by (auto simp: slots_of_def page_ok_def)
  moreover from this have "i < unat (pg_capacity pg)" by (simp add: used_def)
  ultimately show ?thesis using class_offset(5) PageID_Pack by metis
qed

lemma live_put_page:
  assumes "page_ok pg im"
  shows "live (put_page k pg im s) = {r \<in> live s. PageID r \<noteq> k} \<union> slots_of k pg im"
proof (rule set_eqI)
  fix r
  show "r \<in> live (put_page k pg im s) \<longleftrightarrow> r \<in> {r \<in> live s. PageID r \<noteq> k} \<union> slots_of k pg im"
    using slots_of_PageID [OF assms, of r k] by (cases "PageID r = k") (auto simp: live_def put_page_def)
qed

lemma live_on_page:
  assumes "map_of (st_pgs s) k = Some pg" "map_of (st_files s) k = Some im" "page_ok pg im"
  shows "{r \<in> live s. PageID r = k} = slots_of k pg im"
proof (rule set_eqI)
  fix r
  show "r \<in> {r \<in> live s. PageID r = k} \<longleftrightarrow> r \<in> slots_of k pg im"
    using slots_of_PageID [OF assms(3), of r k] assms(1,2) by (cases "PageID r = k") (auto simp: live_def)
qed

lemma live_no_page: "map_of (st_pgs s) k = None \<Longrightarrow> {r \<in> live s. PageID r = k} = {}"
  by (auto simp: live_def)

lemma live_cong: "st_pgs s' = st_pgs s \<Longrightarrow> st_files s' = st_files s \<Longrightarrow> live s' = live s"
  by (simp add: live_def)

lemma live_split: "live s = {r \<in> live s. PageID r \<noteq> k} \<union> {r \<in> live s. PageID r = k}"
  by blast

lemma slots_of_insert:
  fixes k
  assumes "class_page c pg" "i < unat (pg_capacity pg)" "i \<notin> used pg im"
    and q: "\<not> pg_jumbo q" "\<And>j. slotOffset q j = slotOffset pg j" "used q im' = insert i (used pg im)"
  defines "r \<equiv> Pack k (slotOffset pg (word_of_nat i))"
  shows "slots_of k q im' = insert r (slots_of k pg im)" "r \<notin> slots_of k pg im"
proof -
  have j: "\<not> pg_jumbo pg" using assms(1) by (simp add: class_page_def)
  show "slots_of k q im' = insert r (slots_of k pg im)" by (simp add: slots_of_def q j r_def)
  show "r \<notin> slots_of k pg im"
  proof
    assume "r \<in> slots_of k pg im"
    then obtain i' where i': "i' \<in> used pg im" "r = Pack k (slotOffset pg (word_of_nat i'))"
      using j by (auto simp: slots_of_def)
    then have "i' < unat (pg_capacity pg)" by (simp add: used_def)
    then have "i = i'" by (rule class_offset_inj [OF assms(1,2) _ i'(2) [unfolded r_def]])
    with i' assms(3) show False by simp
  qed
qed


section \<open>The invariant\<close>

lemma store_invD:
  assumes "store_inv s"
  shows "distinct (map fst (st_pgs s))" "distinct (map fst (st_files s))" "length (st_active s) = 14"
    "map_of (st_files s) k = Some im \<Longrightarrow> k < st_nextID s"
    "map_of (st_pgs s) k = Some pg \<Longrightarrow> k \<noteq> 0 \<and> (\<exists>im. map_of (st_files s) k = Some im \<and> page_ok pg im)"
    "c < 14 \<Longrightarrow> st_active s ! c \<noteq> 0 \<Longrightarrow> \<exists>pg. map_of (st_pgs s) (st_active s ! c) = Some pg \<and> class_page c pg"
  using assms unfolding store_inv_def by auto

lemma store_invI:
  assumes "distinct (map fst (st_pgs s))" "distinct (map fst (st_files s))" "length (st_active s) = 14" "0 < st_nextID s"
    "\<And>k. map_of (st_files s) k \<noteq> None \<Longrightarrow> k < st_nextID s"
    "\<And>k pg. map_of (st_pgs s) k = Some pg \<Longrightarrow> k \<noteq> 0 \<and> (\<exists>im. map_of (st_files s) k = Some im \<and> page_ok pg im)"
    "\<And>c. c < 14 \<Longrightarrow> st_active s ! c \<noteq> 0 \<Longrightarrow>
       \<exists>pg. map_of (st_pgs s) (st_active s ! c) = Some pg \<and> class_page c pg"
  shows "store_inv s"
  using assms unfolding store_inv_def by blast

lemma store_inv_page:
  assumes "store_inv s" "map_of (st_pgs s) k = Some pg"
  obtains im where "map_of (st_files s) k = Some im" "page_ok pg im" "k \<noteq> 0" "k < st_nextID s"
  using store_invD(4,5) [OF assms(1)] assms(2) by blast

lemma store_inv_put_page:
  assumes inv: "store_inv s" and k: "k \<noteq> 0" "k < st_nextID s" and ok: "page_ok pg im"
    and act: "\<And>c. c < 14 \<Longrightarrow> st_active s ! c = k \<Longrightarrow> class_page c pg"
  shows "store_inv (put_page k pg im s)"
proof -
  have a: "\<exists>pg'. map_of (st_pgs (put_page k pg im s)) (st_active s ! c) = Some pg' \<and> class_page c pg'"
    if "c < 14" "st_active s ! c \<noteq> 0" for c
    using store_invD(6) [OF inv that] act [OF that(1)] by (cases "st_active s ! c = k") (auto simp: put_page_def)
  have p: "k' \<noteq> 0 \<and> (\<exists>im'. map_of (st_files (put_page k pg im s)) k' = Some im' \<and> page_ok pg' im')"
    if "map_of (st_pgs (put_page k pg im s)) k' = Some pg'" for k' pg'
    using that store_invD(5) [OF inv, of k'] k(1) ok by (cases "k' = k") (auto simp: put_page_def)
  have f: "k' < st_nextID s" if "map_of (st_files (put_page k pg im s)) k' \<noteq> None" for k'
    using that store_invD(4) [OF inv, of k'] k(2) by (cases "k' = k") (auto simp: put_page_def)
  show ?thesis
    unfolding store_inv_def
    using inv a p f by (simp add: store_inv_def put_page_def)
qed

lemma store_inv_active:
  assumes "store_inv s" "c < 14" "k \<noteq> 0 \<Longrightarrow> \<exists>pg. map_of (st_pgs s) k = Some pg \<and> class_page c pg"
  shows "store_inv (s\<lparr>st_active := (st_active s)[c := k]\<rparr>)"
  using assms unfolding store_inv_def by (auto simp: nth_list_update)

text \<open>What stays in place when a page is neither freed nor moved.\<close>

definition same_page :: "page \<Rightarrow> page \<Rightarrow> bool" where
  "same_page p q \<longleftrightarrow> pg_jumbo q = pg_jumbo p \<and> pg_sizeClass q = pg_sizeClass p \<and> pg_capacity q = pg_capacity p \<and>
     pg_slotsStart q = pg_slotsStart p \<and> pg_dataLen q = pg_dataLen p"

lemma same_page_class: "same_page p q \<Longrightarrow> class_page c q = class_page c p"
  by (simp add: same_page_def class_page_def)

lemma same_page_offset: "same_page p q \<Longrightarrow> slotOffset q i = slotOffset p i"
  by (simp add: same_page_def slotOffset_def)

section \<open>Reading a live payload\<close>

definition page_end :: "SlotRef \<Rightarrow> page \<Rightarrow> nat" where
  "page_end r pg = (if pg_jumbo pg then nat (pg_dataLen pg) else unat (Offset r) + unat (pg_sizeClass pg))"

lemma live_slab:
  assumes "store_inv s" "map_of (st_pgs s) (PageID r) = Some pg" "map_of (st_files s) (PageID r) = Some im"
    "r \<in> slots_of (PageID r) pg im" "\<not> pg_jumbo pg"
  obtains c i where "class_page c pg" "page_inv pg im" "i \<in> used pg im" "i < unat (pg_capacity pg)"
    "r = Pack (PageID r) (slotOffset pg (word_of_nat i))" "Offset r = slotOffset pg (word_of_nat i)"
proof -
  obtain c where c: "class_page c pg" "page_inv pg im"
    using store_invD(5) [OF assms(1,2)] assms(3,5) by (auto simp: page_ok_def)
  obtain i where i: "i \<in> used pg im" "r = Pack (PageID r) (slotOffset pg (word_of_nat i))"
    using assms(4,5) by (auto simp: slots_of_def)
  then have b: "i < unat (pg_capacity pg)" by (simp add: used_def)
  have "Offset r = slotOffset pg (word_of_nat i)"
    using Offset_Pack [OF class_offset(5) [OF c(1) b], of "PageID r"] i(2) by metis
  then show ?thesis using that c i b by blast
qed

lemma HeaderSize_less: "HeaderSize < PageSize" "unat HeaderSize = 32"
  by (simp_all add: HeaderSize_def PageSize_def)

lemma unat_word_of_int_u32: "0 \<le> x \<Longrightarrow> x < 2 ^ 32 \<Longrightarrow> unat (word_of_int x :: u32) = nat x"
  by (simp add: unsigned_of_int take_bit_int_eq_self)

lemma image_byte_mem:
  "32 \<le> i \<Longrightarrow> pg_jumbo pg \<or> 32 + 8 * numWords pg \<le> i \<Longrightarrow> image_byte pg im i = im_mem im i"
  by (auto simp: image_byte_def)

lemma map_image_byte:
  "32 \<le> lo \<Longrightarrow> pg_jumbo pg \<or> 32 + 8 * numWords pg \<le> lo \<Longrightarrow>
   map (image_byte pg im) [lo..<hi] = map (im_mem im) [lo..<hi]"
  by (auto simp: image_byte_mem)

lemma store_Read_eq:
  "map_of (st_pgs s) (PageID r) = Some pg \<Longrightarrow> map_of (st_files s) (PageID r) = Some im \<Longrightarrow>
   store_Read r s =
    (let len = word_of_int (pg_dataLen pg) :: u32;
         hi = (if pg_jumbo pg then len else Offset r + pg_sizeClass pg) in
     if len < hi then Inl (OutOfBounds (Offset r)) else Inr (map (image_byte pg im) [unat (Offset r)..<unat hi]))"
  by (simp add: store_Read_def Let_def)

lemma read_shape_jumbo:
  assumes pg: "map_of (st_pgs s) (PageID r) = Some pg" and im: "map_of (st_files s) (PageID r) = Some im"
    and sh: "page_shape pg" and r: "slot_ref (PageID r) pg r" and j: "pg_jumbo pg"
  shows "store_Read r s = Inr (map (im_mem im) [unat (Offset r)..<page_end r pg])"
    "32 \<le> unat (Offset r)" "unat (Offset r) < page_end r pg"
proof -
  have d: "32 < pg_dataLen pg" "pg_dataLen pg < 2 ^ 32" using sh j by (auto simp: page_shape_def)
  have "r = Pack (PageID r) HeaderSize" using r j by (simp add: slot_ref_def)
  then have "Offset r = HeaderSize" using Offset_Pack [OF HeaderSize_less(1), of "PageID r"] by metis
  then have o: "unat (Offset r) = 32" using HeaderSize_less by simp
  then show "32 \<le> unat (Offset r)" "unat (Offset r) < page_end r pg" using d j by (simp_all add: page_end_def)
  have "unat (word_of_int (pg_dataLen pg) :: u32) = nat (pg_dataLen pg)"
    using d by (intro unat_word_of_int_u32) simp_all
  then show "store_Read r s = Inr (map (im_mem im) [unat (Offset r)..<page_end r pg])"
    using o j by (simp add: store_Read_eq [OF pg im] page_end_def Let_def map_image_byte)
qed

lemma read_shape_slab:
  assumes pg: "map_of (st_pgs s) (PageID r) = Some pg" and im: "map_of (st_files s) (PageID r) = Some im"
    and sh: "page_shape pg" and r: "slot_ref (PageID r) pg r" and j: "\<not> pg_jumbo pg"
  shows "store_Read r s = Inr (map (im_mem im) [unat (Offset r)..<page_end r pg])"
    "32 \<le> unat (Offset r)" "unat (Offset r) < page_end r pg"
proof -
  obtain c where c: "class_page c pg" using sh j by (auto simp: page_shape_def)
  obtain i where i: "i < unat (pg_capacity pg)" "r = Pack (PageID r) (slotOffset pg (word_of_nat i))"
    using r j by (auto simp: slot_ref_def)
  have "Offset r = slotOffset pg (word_of_nat i)"
    using Offset_Pack [OF class_offset(5) [OF c i(1)], of "PageID r"] i(2) by metis
  note o = class_offset [OF c i(1), folded this]
  have u: "unat (Offset r + pg_sizeClass pg) = unat (Offset r) + unat (pg_sizeClass pg)"
    using o(2) by (simp add: unat_word_ariths(1))
  have "unat (word_of_int (pg_dataLen pg) :: u32) = 2 ^ 20"
    using c unat_word_of_int_u32 [of "2 ^ 20"] by (simp add: class_page_def)
  then have "\<not> (word_of_int (pg_dataLen pg) :: u32) < Offset r + pg_sizeClass pg"
    unfolding word_less_nat_alt u using o(2) by linarith
  then show "store_Read r s = Inr (map (im_mem im) [unat (Offset r)..<page_end r pg])"
    using o(3) j by (simp add: store_Read_eq [OF pg im] page_end_def Let_def u map_image_byte)
  show "32 \<le> unat (Offset r)" "unat (Offset r) < page_end r pg" using o(3,4) j by (simp_all add: page_end_def)
qed

lemma read_shape:
  assumes "map_of (st_pgs s) (PageID r) = Some pg" "map_of (st_files s) (PageID r) = Some im"
    "page_shape pg" "slot_ref (PageID r) pg r"
  shows "store_Read r s = Inr (map (im_mem im) [unat (Offset r)..<page_end r pg])"
    "32 \<le> unat (Offset r)" "unat (Offset r) < page_end r pg"
  using read_shape_jumbo [OF assms] read_shape_slab [OF assms] by (cases "pg_jumbo pg"; simp)+

lemma read_live:
  assumes "store_inv s" "map_of (st_pgs s) (PageID r) = Some pg"
    "map_of (st_files s) (PageID r) = Some im" "r \<in> slots_of (PageID r) pg im"
  shows "store_Read r s = Inr (map (im_mem im) [unat (Offset r)..<page_end r pg])"
    "32 \<le> unat (Offset r)" "unat (Offset r) < page_end r pg"
proof -
  have "page_shape pg" using store_invD(5) [OF assms(1,2)] page_ok_shape by blast
  note rs = read_shape [OF assms(2,3) this slots_of_slot_ref [OF assms(4)]]
  then show "store_Read r s = Inr (map (im_mem im) [unat (Offset r)..<page_end r pg])"
    "32 \<le> unat (Offset r)" "unat (Offset r) < page_end r pg" by blast+
qed

lemma live_lookup:
  assumes "r \<in> live s"
  obtains pg im where "map_of (st_pgs s) (PageID r) = Some pg" "map_of (st_files s) (PageID r) = Some im"
    "r \<in> slots_of (PageID r) pg im"
  using assms by (auto simp: live_def)

text \<open>A live payload reads the same in two stores that agree on its page.\<close>

lemma read_same:
  assumes "store_inv s" "store_inv s'" "r \<in> live s" "r \<in> live s'"
    and "\<And>pg im. map_of (st_pgs s) (PageID r) = Some pg \<Longrightarrow> map_of (st_files s) (PageID r) = Some im \<Longrightarrow>
      \<exists>q im'. map_of (st_pgs s') (PageID r) = Some q \<and> map_of (st_files s') (PageID r) = Some im' \<and>
        same_page pg q \<and> im_mem im' = im_mem im"
  shows "store_Read r s' = store_Read r s"
proof -
  obtain pg im where p: "map_of (st_pgs s) (PageID r) = Some pg" "map_of (st_files s) (PageID r) = Some im"
    "r \<in> slots_of (PageID r) pg im" by (rule live_lookup [OF assms(3)])
  obtain q im' where q: "map_of (st_pgs s') (PageID r) = Some q" "map_of (st_files s') (PageID r) = Some im'"
    "same_page pg q" "im_mem im' = im_mem im" using assms(5) [OF p(1,2)] by blast
  have "r \<in> slots_of (PageID r) q im'" using assms(4) q(1,2) by (auto simp: live_def)
  then show ?thesis
    using read_live(1) [OF assms(1) p] read_live(1) [OF assms(2) q(1,2)] q(3,4)
    by (simp add: page_end_def same_page_def)
qed


section \<open>Writing a payload\<close>

lemma live_disjoint:
  assumes inv: "store_inv s" and pg: "map_of (st_pgs s) k = Some pg" and im: "map_of (st_files s) k = Some im"
    and r: "r \<in> slots_of k pg im" "PageID r = k" and r': "r' \<in> slots_of k pg im" "PageID r' = k" and ne: "r \<noteq> r'"
  shows "page_end r pg \<le> unat (Offset r') \<or> page_end r' pg \<le> unat (Offset r)"
proof -
  have j: "\<not> pg_jumbo pg" using r r' ne by (auto simp: slots_of_def)
  obtain c i where c: "class_page c pg" "i < unat (pg_capacity pg)" "r = Pack (PageID r) (slotOffset pg (word_of_nat i))"
    "Offset r = slotOffset pg (word_of_nat i)"
    using live_slab [of s r pg im] inv pg im r j by metis
  obtain c' i' where c': "i' < unat (pg_capacity pg)" "r' = Pack (PageID r') (slotOffset pg (word_of_nat i'))"
    "Offset r' = slotOffset pg (word_of_nat i')"
    using live_slab [of s r' pg im] inv pg im r' j by metis
  have ne': "i \<noteq> i'" using c(3) c'(2) r(2) r'(2) ne by auto
  note o = class_offset(1) [OF c(1,2), folded c(4)] class_offset(1) [OF c(1) c'(1), folded c'(3)]
  have "Suc i * unat (pg_sizeClass pg) \<le> i' * unat (pg_sizeClass pg) \<or> Suc i' * unat (pg_sizeClass pg) \<le> i * unat (pg_sizeClass pg)"
    using ne' by (metis Suc_leI mult_le_mono1 nat_neq_iff)
  then show ?thesis using o j by (auto simp: page_end_def)
qed

lemma store_copy_frame:
  assumes "map_of (st_files s) k = Some im"
  obtains m where "st_files (store_copy k off bs s) = AList.update k (im\<lparr>im_mem := m\<rparr>) (st_files s)"
    "st_pgs (store_copy k off bs s) = st_pgs s" "st_nextID (store_copy k off bs s) = st_nextID s"
    "st_active (store_copy k off bs s) = st_active s"
    "m = (\<lambda>i. if off \<le> i \<and> i < off + length bs then bs ! (i - off) else im_mem im i)"
  using assms by (simp add: store_copy_def)

lemma used_mem [simp]: "used pg (im\<lparr>im_mem := m\<rparr>) = used pg im"
  by (simp add: used_def)

lemma slots_of_mem [simp]: "slots_of k pg (im\<lparr>im_mem := m\<rparr>) = slots_of k pg im"
  by (simp add: slots_of_def)

lemma page_ok_mem [simp]: "page_ok pg (im\<lparr>im_mem := m\<rparr>) = page_ok pg im"
  by (simp add: page_ok_def page_inv_def)

lemma store_copy_inv:
  assumes inv: "store_inv s" and im: "map_of (st_files s) k = Some im"
  shows "store_inv (store_copy k off bs s)" "live (store_copy k off bs s) = live s"
proof -
  obtain m where f: "st_files (store_copy k off bs s) = AList.update k (im\<lparr>im_mem := m\<rparr>) (st_files s)"
    "st_pgs (store_copy k off bs s) = st_pgs s" "st_nextID (store_copy k off bs s) = st_nextID s"
    "st_active (store_copy k off bs s) = st_active s" by (rule store_copy_frame [OF im])
  have l: "map_of (st_files (store_copy k off bs s)) k' =
      (if k' = k then Some (im\<lparr>im_mem := m\<rparr>) else map_of (st_files s) k')" for k'
    by (simp add: f)
  have p: "k' \<noteq> 0 \<and> (\<exists>im'. map_of (st_files (store_copy k off bs s)) k' = Some im' \<and> page_ok pg im')"
    if "map_of (st_pgs s) k' = Some pg" for k' pg
    using store_invD(5) [OF inv that] im unfolding l by (cases "k' = k") auto
  have n: "k' < st_nextID s" if "map_of (st_files (store_copy k off bs s)) k' \<noteq> None" for k'
    using that store_invD(4) [OF inv, of k'] im unfolding l by (cases "k' = k") auto
  show "store_inv (store_copy k off bs s)"
    using inv p n store_invD [OF inv] by (intro store_invI) (simp_all add: f store_inv_def)
  show "live (store_copy k off bs s) = live s"
  proof (rule set_eqI)
    fix r
    show "r \<in> live (store_copy k off bs s) \<longleftrightarrow> r \<in> live s"
      unfolding live_def mem_Collect_eq f(2) l using im by (cases "PageID r = k") simp_all
  qed
qed

lemma map_upt_write:
  assumes "off + length bs \<le> hi"
  shows "map (\<lambda>i. if off \<le> i \<and> i < off + length bs then bs ! (i - off) else m i) [off..<hi] =
    bs @ map m [off + length bs..<hi]"
proof -
  have "[off..<hi] = [off..<off + length bs] @ [off + length bs..<hi]"
    using upt_add_eq_append [of off "off + length bs" "hi - (off + length bs)"] assms by simp
  moreover have "map (\<lambda>i. if off \<le> i \<and> i < off + length bs then bs ! (i - off) else m i) [off..<off + length bs] = bs"
    by (rule nth_equalityI) simp_all
  ultimately show ?thesis by simp
qed

lemma write_read:
  assumes inv: "store_inv s" and r: "r \<in> live s" and b: "store_Read r s = Inr old" "length bs \<le> length old"
  defines "s' \<equiv> store_copy (PageID r) (unat (Offset r)) bs s"
  shows "store_Read r s' = Inr (bs @ drop (length bs) old)"
    "r' \<in> live s \<Longrightarrow> r' \<noteq> r \<Longrightarrow> store_Read r' s' = store_Read r' s"
proof -
  obtain pg im where p: "map_of (st_pgs s) (PageID r) = Some pg" "map_of (st_files s) (PageID r) = Some im"
    "r \<in> slots_of (PageID r) pg im" by (rule live_lookup [OF r])
  obtain m where f: "st_files s' = AList.update (PageID r) (im\<lparr>im_mem := m\<rparr>) (st_files s)"
    "st_pgs s' = st_pgs s" and m: "m = (\<lambda>i. if unat (Offset r) \<le> i \<and> i < unat (Offset r) + length bs
        then bs ! (i - unat (Offset r)) else im_mem im i)"
    unfolding s'_def by (rule store_copy_frame [OF p(2)])
  note inv' = store_copy_inv [OF inv p(2), of "unat (Offset r)" bs, folded s'_def]
  note rd = read_live [OF inv p]
  have old: "old = map (im_mem im) [unat (Offset r)..<page_end r pg]" using rd(1) b(1) by simp
  have len: "unat (Offset r) + length bs \<le> page_end r pg" using b(2) rd(3) unfolding old by simp
  have "store_Read r s' = Inr (map m [unat (Offset r)..<page_end r pg])"
    using read_live(1) [OF inv'(1), where r = r and pg = pg and im = "im\<lparr>im_mem := m\<rparr>"] p f by simp
  then show "store_Read r s' = Inr (bs @ drop (length bs) old)"
    unfolding m map_upt_write [OF len] old by (simp add: drop_map)
  assume r': "r' \<in> live s" "r' \<noteq> r"
  obtain pg' im' where p': "map_of (st_pgs s) (PageID r') = Some pg'" "map_of (st_files s) (PageID r') = Some im'"
    "r' \<in> slots_of (PageID r') pg' im'" by (rule live_lookup [OF r'(1)])
  show "store_Read r' s' = store_Read r' s"
  proof (cases "PageID r' = PageID r")
    case False
    then show ?thesis
      using p' f inv' r' by (intro read_same [OF inv inv'(1)]) (auto simp: same_page_def)
  next
    case True
    then have eq: "pg' = pg" "im' = im" using p p' by auto
    have d: "page_end r pg \<le> unat (Offset r') \<or> page_end r' pg \<le> unat (Offset r)"
      using live_disjoint [OF inv p(1,2)] p(3) p'(3) True eq r'(2) by auto
    have "store_Read r' s' = Inr (map m [unat (Offset r')..<page_end r' pg])"
      using read_live(1) [OF inv'(1), where r = r' and pg = pg and im = "im\<lparr>im_mem := m\<rparr>"] p' True eq f by simp
    also have "map m [unat (Offset r')..<page_end r' pg] = map (im_mem im) [unat (Offset r')..<page_end r' pg]"
      using d len unfolding m by auto
    also have "Inr \<dots> = store_Read r' s" using read_live(1) [OF inv p'] eq by simp
    finally show ?thesis .
  qed
qed


section \<open>Allocation\<close>

text \<open>\<open>grows s ref s'\<close>: the step from \<open>s\<close> to \<open>s'\<close> adds the live reference \<open>ref\<close> and touches no other payload.\<close>

definition grows :: "Store \<Rightarrow> SlotRef \<Rightarrow> Store \<Rightarrow> bool" where
  "grows s ref s' \<longleftrightarrow> store_inv s' \<and> ref \<notin> live s \<and> live s' = insert ref (live s) \<and>
     (\<forall>r \<in> live s. store_Read r s' = store_Read r s)"

lemma put_page_read:
  assumes inv: "store_inv s" and inv': "store_inv (put_page k q im' s)"
    and pg: "map_of (st_pgs s) k = Some pg" "map_of (st_files s) k = Some im" "same_page pg q" "im_mem im' = im_mem im"
    and r: "r \<in> live s" "r \<in> live (put_page k q im' s)"
  shows "store_Read r (put_page k q im' s) = store_Read r s"
proof (rule read_same [OF inv inv' r])
  fix pg' i assume "map_of (st_pgs s) (PageID r) = Some pg'" "map_of (st_files s) (PageID r) = Some i"
  then show "\<exists>q' im''. map_of (st_pgs (put_page k q im' s)) (PageID r) = Some q' \<and>
      map_of (st_files (put_page k q im' s)) (PageID r) = Some im'' \<and> same_page pg' q' \<and> im_mem im'' = im_mem i"
    using pg by (cases "PageID r = k") (auto simp: put_page_def same_page_def)
qed

lemma put_page_inv:
  assumes inv: "store_inv s" and pg: "map_of (st_pgs s) k = Some pg" "same_page pg q" and ok: "page_ok q im'"
  shows "store_inv (put_page k q im' s)"
proof -
  obtain im where k: "k \<noteq> 0" "k < st_nextID s" by (rule store_inv_page [OF inv pg(1)])
  have "class_page c q" if "c < 14" "st_active s ! c = k" for c
    using store_invD(6) [OF inv that(1)] that(2) k(1) pg same_page_class [OF pg(2)] by auto
  then show ?thesis by (rule store_inv_put_page [OF inv k ok])
qed

lemma alloc_existing:
  assumes inv: "store_inv s" and pg: "map_of (st_pgs s) k = Some pg" "map_of (st_files s) k = Some im"
    and c: "class_page c pg" and a: "allocSlot pg im = (Some i, q, im')"
  shows "grows s (Pack k (slotOffset q i)) (put_page k q im' s)" "slotOffset q i = slotOffset pg (word_of_nat (unat i))"
    "unat i < unat (pg_capacity pg)" "pg_sizeClass q = pg_sizeClass pg"
proof -
  have pi: "page_inv pg im" "page_ok pg im"
    using store_invD(5) [OF inv pg(1)] pg(2) c by (auto simp: page_ok_def class_page_def)
  note sp = allocSlot_Some [OF pi(1) a, unfolded fst_conv snd_conv]
  obtain fc h ws where fr: "q = pg\<lparr>pg_freeCount := fc, pg_hint := h\<rparr>" "im' = im\<lparr>im_words := ws\<rparr>"
    by (rule allocSlot_frame [OF pi(1) a])
  have same: "same_page pg q" by (simp add: fr same_page_def)
  have j: "\<not> pg_jumbo q" using c by (simp add: fr class_page_def)
  have ok: "page_ok q im'" using sp j same_page_class [OF same] c by (auto simp: page_ok_def)
  show off: "slotOffset q i = slotOffset pg (word_of_nat (unat i))" by (simp add: same_page_offset [OF same])
  show b: "unat i < unat (pg_capacity pg)" using sp by blast
  show "pg_sizeClass q = pg_sizeClass pg" by (simp add: fr)
  let ?r = "Pack k (slotOffset pg (word_of_nat (unat i)))"
  have ins: "slots_of k q im' = insert ?r (slots_of k pg im)" "?r \<notin> slots_of k pg im"
    using slots_of_insert [OF c b, of im q im' k] sp j same_page_offset [OF same] by blast+
  have inv': "store_inv (put_page k q im' s)" by (rule put_page_inv [OF inv pg(1) same ok])
  have on: "{r \<in> live s. PageID r = k} = slots_of k pg im" by (rule live_on_page [OF pg pi(2)])
  have lv: "live (put_page k q im' s) = insert ?r (live s)"
    unfolding live_put_page [OF ok] ins using on live_split [of s k] by blast
  have "PageID ?r = k" using PageID_Pack [OF class_offset(5) [OF c b]] .
  then have "?r \<notin> live s" using on ins(2) by blast
  then show "grows s (Pack k (slotOffset q i)) (put_page k q im' s)"
    using inv' lv put_page_read [OF inv inv' pg same] unfolding grows_def off by (simp add: fr)
qed

lemma create_file_ok:
  assumes "create_file io k e s = (True, s2)"
  shows "map_of (st_files s) k = None"
    "s2 = s\<lparr>st_jnl := st_jnl s @ e, st_files := AList.update k zero_image (st_files s)\<rparr>"
  using assms by (auto simp: create_file_def journal_write_def Let_def split: if_splits option.splits)

text \<open>Creating a page: a fresh id, and the page is not yet known.\<close>

lemma create_page:
  assumes inv: "store_inv s" and ov: "st_nextID s + 1 \<noteq> 0"
    and cf: "create_file io (st_nextID s) e (s\<lparr>st_nextID := st_nextID s + 1\<rparr>) = (True, s2)"
    and ok: "page_ok pg im" and s3: "s3 = put_page (st_nextID s) pg im s2"
  shows "store_inv s3" "live s3 = live s \<union> slots_of (st_nextID s) pg im"
    "live s \<inter> slots_of (st_nextID s) pg im = {}" "\<forall>r \<in> live s. store_Read r s3 = store_Read r s"
    "map_of (st_pgs s) (st_nextID s) = None" "st_nextID s \<noteq> 0" "st_active s3 = st_active s"
proof -
  let ?k = "st_nextID s"
  have f: "map_of (st_files s) ?k = None"
    and s2: "s2 = s\<lparr>st_nextID := ?k + 1, st_jnl := st_jnl s @ e, st_files := AList.update ?k zero_image (st_files s)\<rparr>"
    using create_file_ok [OF cf] by simp_all
  show np: "map_of (st_pgs s) ?k = None" using store_invD(5) [OF inv, of ?k] f by (cases "map_of (st_pgs s) ?k") auto
  show k0: "?k \<noteq> 0" using inv by (auto simp: store_inv_def)
  have lt: "?k < ?k + 1" using ov unatSuc [of ?k] by (simp add: word_less_nat_alt add.commute)
  have inv2: "store_inv s2"
  proof (rule store_invI)
    show "k < st_nextID s2" if "map_of (st_files s2) k \<noteq> None" for k
      using that store_invD(4) [OF inv, of k] lt by (cases "k = ?k") (auto simp: s2)
    show "k \<noteq> 0 \<and> (\<exists>im. map_of (st_files s2) k = Some im \<and> page_ok pg im)"
      if "map_of (st_pgs s2) k = Some pg" for k pg
      using that store_invD(5) [OF inv, of k pg] np by (cases "k = ?k") (auto simp: s2)
  qed (use inv ov in \<open>auto simp: s2 store_inv_def word_gt_0\<close>)
  have act: "st_active s ! c \<noteq> ?k" if "c < 14" for c
    using store_invD(6) [OF inv that] np k0 by auto
  show inv3: "store_inv s3"
    unfolding s3 using lt act by (intro store_inv_put_page [OF inv2 k0 _ ok]) (auto simp: s2)
  have l2: "live s2 = live s"
  proof (rule set_eqI)
    fix r show "r \<in> live s2 \<longleftrightarrow> r \<in> live s" using np by (cases "PageID r = ?k") (simp_all add: live_def s2)
  qed
  have none: "{r \<in> live s. PageID r = ?k} = {}" by (rule live_no_page [OF np])
  show lv: "live s3 = live s \<union> slots_of ?k pg im"
    unfolding s3 live_put_page [OF ok] l2 using none by blast
  show "live s \<inter> slots_of ?k pg im = {}" using none slots_of_PageID [OF ok] by blast
  show "st_active s3 = st_active s" by (simp add: s3 put_page_def s2)
  show "\<forall>r \<in> live s. store_Read r s3 = store_Read r s"
  proof
    fix r assume r: "r \<in> live s"
    then have ne: "PageID r \<noteq> ?k" using none by blast
    show "store_Read r s3 = store_Read r s"
      using r lv ne by (intro read_same [OF inv inv3]) (auto simp: s3 s2 put_page_def same_page_def)
  qed
qed


lemma used_zero: "im_words im = (\<lambda>_. 0) \<Longrightarrow> used pg im = {}"
  by (simp add: used_def)

lemma newSlabPage_ok:
  assumes n: "newSlabPage io sci s = (Inr (pg, im, k), s1)" and sci: "sci < 14"
  obtains s2 where "create_file io (st_nextID s) (appendPageCreate (st_nextID s) (word_of_nat sci) 1 0)
      (s\<lparr>st_nextID := st_nextID s + 1\<rparr>) = (True, s2)"
    "s1 = put_page k pg im s2" "k = st_nextID s" "class_page sci pg" "page_inv pg im" "used pg im = {}"
proof -
  obtain s2 where c: "create_file io (st_nextID s) (appendPageCreate (st_nextID s) (word_of_nat sci) 1 0)
      (s\<lparr>st_nextID := st_nextID s + 1\<rparr>) = (True, s2)"
    and k: "k = st_nextID s" "s1 = put_page k pg im s2"
    using n by (auto simp: newSlabPage_def Let_def split: prod.splits bool.splits)
  obtain cap st where lay: "slabLayout (SizeClasses ! sci) = (cap, st)" by force
  have u: "unat (word_of_nat sci :: u8) = sci" using sci by (simp add: unsigned_of_nat take_bit_nat_eq_self)
  have h: "h_Capacity (NewSlabHeader k (word_of_nat sci)) = cap" "h_SlotsStart (NewSlabHeader k (word_of_nat sci)) = st"
    by (simp_all add: NewSlabHeader_def u lay)
  have "initBitmap \<lparr>pg_dataLen = uint PageSize, pg_pageID = k, pg_jumbo = False, pg_sizeClass = SizeClasses ! sci,
      pg_spanPages = 1, pg_capacity = cap, pg_slotsStart = st, pg_freeCount = 0, pg_hint = 0\<rparr>
      (zero_image\<lparr>im_header := WriteHeader (im_header zero_image) (NewSlabHeader k (word_of_nat sci))\<rparr>) = (pg, im)"
    using n c k(1) by (auto simp: newSlabPage_def Let_def h [unfolded k(1)] split: prod.splits)
  then have pg: "pg = \<lparr>pg_dataLen = uint PageSize, pg_pageID = k, pg_jumbo = False, pg_sizeClass = SizeClasses ! sci,
      pg_spanPages = 1, pg_capacity = cap, pg_slotsStart = st, pg_freeCount = cap, pg_hint = 0\<rparr>"
    and im: "im_words im = (\<lambda>_. 0)"
    by (auto simp: initBitmap_def zero_image_def)
  have cl: "class_page sci pg" using sci lay by (simp add: class_page_def pg PageSize_def)
  have u0: "used pg im = {}" by (rule used_zero [OF im])
  have "page_inv pg im" using class_page_slab [OF cl] u0 by (simp add: page_inv_def pg)
  then show ?thesis using that c k cl u0 by blast
qed

lemma alloc_fresh_grows:
  assumes inv: "store_inv s" and ov: "st_nextID s + 1 \<noteq> 0" and sci: "sci < 14"
    and a: "alloc_fresh io sci s = (Inr (ref, lo, hi), s')"
  shows "grows s ref s' \<and> (\<exists>pg i. ref = Pack (st_nextID s) (slotOffset pg (word_of_nat i)) \<and> class_page sci pg \<and>
    i < unat (pg_capacity pg) \<and> lo = uint (slotOffset pg (word_of_nat i)) \<and>
    hi = uint (slotOffset pg (word_of_nat i) + pg_sizeClass pg))"
proof -
  obtain pg im k s1 where n: "newSlabPage io sci s = (Inr (pg, im, k), s1)"
    using a by (auto simp: alloc_fresh_def split: prod.splits sum.splits)
  obtain s2 where c: "create_file io (st_nextID s) (appendPageCreate (st_nextID s) (word_of_nat sci) 1 0)
      (s\<lparr>st_nextID := st_nextID s + 1\<rparr>) = (True, s2)"
    and k: "s1 = put_page k pg im s2" "k = st_nextID s" "class_page sci pg" "page_inv pg im" "used pg im = {}"
    by (rule newSlabPage_ok [OF n sci])
  have ok: "page_ok pg im" using k(3,4) by (auto simp: page_ok_def class_page_def)
  note cp = create_page [OF inv ov c ok k(1) [unfolded k(2)]]
  have emp: "slots_of k pg im = {}" using k(3,5) by (simp add: slots_of_def class_page_def)
  let ?s2 = "s1\<lparr>st_active := (st_active s1)[sci := k]\<rparr>"
  have inv2: "store_inv ?s2"
    using cp(1) sci k by (intro store_inv_active) (auto simp: put_page_def)
  have l2: "live ?s2 = live s" using cp(2) emp k(2) live_cong [of ?s2 s1] by simp
  have pg2: "map_of (st_pgs ?s2) k = Some pg" "map_of (st_files ?s2) k = Some im" by (simp_all add: k(1) put_page_def)
  obtain r q im' where al: "allocSlot pg im = (r, q, im')" by (metis prod_cases3)
  have "unat (pg_capacity pg) \<noteq> 0" using class_page_slab [OF k(3)] by (simp add: slab_page_def)
  then have "r \<noteq> None" using allocSlot_None [OF k(4)] al k(5) by (auto simp: lessThan_empty_iff)
  then obtain i where i: "allocSlot pg im = (Some i, q, im')" using al by blast
  note ex = alloc_existing [OF inv2 pg2 k(3) i]
  have res: "ref = Pack k (slotOffset q i)" "lo = uint (slotOffset q i)" "hi = uint (slotOffset q i + pg_sizeClass q)"
    "s' = put_page k q im' ?s2"
    using a n i by (auto simp: alloc_fresh_def slot_result_def Let_def)
  have rd: "store_Read x ?s2 = store_Read x s1" for x by (simp add: store_Read_def)
  have "grows s ref s'"
    using ex(1) cp(4) unfolding grows_def l2 res(1,4) rd k(2) [symmetric] by simp
  moreover have "slotOffset q i = slotOffset pg (word_of_nat (unat i))" by (rule ex(2))
  ultimately show ?thesis
    using res ex(3,4) k(2,3) by (intro conjI exI [of _ pg] exI [of _ "unat i"]) simp_all
qed

lemma newJumbo_grows:
  assumes inv: "store_inv s" and ov: "st_nextID s + 1 \<noteq> 0" and n: "uint n \<le> 2 ^ 32 - 2 ^ 21"
    and a: "newJumboPage io n s = (Inr (ref, lo, hi), s')"
  shows "grows s ref s' \<and> ref = Pack (st_nextID s) HeaderSize \<and> lo = 32 \<and> hi = uint (SpanPagesFor n) * 2 ^ 20"
proof -
  let ?k = "st_nextID s" and ?len = "uint (SpanPagesFor n) * 2 ^ 20"
  define pg where "pg = \<lparr>pg_dataLen = ?len, pg_pageID = ?k, pg_jumbo = True, pg_sizeClass = 0,
    pg_spanPages = ucast (SpanPagesFor n), pg_capacity = 0, pg_slotsStart = HeaderSize, pg_freeCount = 0, pg_hint = 0\<rparr>"
  define im where "im = zero_image\<lparr>im_header := WriteHeader (im_header zero_image) (NewJumboHeader ?k (SpanPagesFor n))\<rparr>"
  obtain s2 where c: "create_file io ?k (appendPageCreate ?k 0xFFFF (ucast (SpanPagesFor n)) 0)
      (s\<lparr>st_nextID := ?k + 1\<rparr>) = (True, s2)"
    and r: "ref = Pack ?k HeaderSize" "lo = 32" "hi = ?len" "s' = put_page ?k pg im s2"
    using a by (auto simp: newJumboPage_def Let_def pg_def im_def PageSize_def HeaderSize_def split: prod.splits bool.splits)
  have b: "32 + uint n \<le> ?len \<and> (uint (SpanPagesFor n) - 1) * 2 ^ 20 < 32 + uint n" by (rule span_pages_fit [OF n])
  have "0 < uint (SpanPagesFor n)"
  proof -
    have "0 \<le> uint n" by (rule unsigned_greater_eq)
    moreover have "32 + uint n \<le> 0" if "uint (SpanPagesFor n) = 0" using b [THEN conjunct1] unfolding that by simp
    ultimately have "uint (SpanPagesFor n) \<noteq> 0" by linarith
    then show ?thesis using unsigned_greater_eq [of "SpanPagesFor n"] by (metis less_le)
  qed
  then have "32 < ?len" by simp
  moreover have "?len < 2 ^ 32" using b n by (simp add: left_diff_distrib)
  ultimately have ok: "page_ok pg im" by (simp add: page_ok_def pg_def)
  note cp = create_page [OF inv ov c ok r(4)]
  have sl: "slots_of ?k pg im = {ref}" by (simp add: slots_of_def pg_def r)
  then have "grows s ref s'" using cp unfolding grows_def by auto
  then show ?thesis using r by simp
qed


lemma SizeClassFor_bound:
  assumes "n \<le> JumboThreshold"
  shows "nat (SizeClassFor n) < 14" "n \<le> SizeClasses ! nat (SizeClassFor n)"
proof -
  have "n \<le> 524288" using assms by (simp add: JumboThreshold_def PageSize_def)
  then obtain k where "k < 14" "SizeClassFor n = int k" "n \<le> SizeClasses ! k"
    using SizeClassFor_least [of n] by (auto simp: SizeClasses_def)
  then show "nat (SizeClassFor n) < 14" "n \<le> SizeClasses ! nat (SizeClassFor n)" by simp_all
qed

lemma class_extent:
  assumes c: "class_page c pg" "i < unat (pg_capacity pg)" and n: "n \<le> SizeClasses ! c"
  shows "uint n \<le> uint (slotOffset pg (word_of_nat i) + pg_sizeClass pg) - uint (slotOffset pg (word_of_nat i))"
proof -
  note o = class_offset(2) [OF c]
  have "unat (slotOffset pg (word_of_nat i) + pg_sizeClass pg) = unat (slotOffset pg (word_of_nat i)) + unat (pg_sizeClass pg)"
    using o by (simp add: unat_word_ariths(1))
  then have "uint (slotOffset pg (word_of_nat i) + pg_sizeClass pg) = uint (slotOffset pg (word_of_nat i)) + uint (pg_sizeClass pg)"
    unfolding uint_nat [of "slotOffset pg (word_of_nat i) + pg_sizeClass pg"] by (simp add: of_nat_unat)
  moreover have "n \<le> pg_sizeClass pg" using n c(1) by (simp add: class_page_def)
  ultimately show ?thesis by (simp add: word_le_def)
qed

lemma Alloc_grows:
  assumes inv: "store_inv s" and ov: "st_nextID s + 1 \<noteq> 0" and n: "uint n \<le> 2 ^ 32 - 2 ^ 21"
    and a: "Alloc io n s = (Inr (ref, lo, hi), s')"
  shows "grows s ref s' \<and> lo = uint (Offset ref) \<and> uint n \<le> hi - lo"
proof (cases "JumboThreshold < n")
  case True
  then have "newJumboPage io n s = (Inr (ref, lo, hi), s')" using a by (simp add: Alloc_def split: if_splits)
  note j = newJumbo_grows [OF inv ov n this]
  have "Offset (Pack (st_nextID s) HeaderSize) = HeaderSize" by (rule Offset_Pack [OF HeaderSize_less(1)])
  then have "lo = uint (Offset ref)" using j by (simp add: HeaderSize_def)
  moreover have "uint n \<le> hi - lo" using j span_pages_fit [OF n] by simp
  ultimately show ?thesis using j by blast
next
  case False
  then have sl: "allocSlab io n s = (Inr (ref, lo, hi), s')" and jt: "n \<le> JumboThreshold"
    using a by (simp_all add: Alloc_def split: if_splits)
  let ?c = "nat (SizeClassFor n)"
  note c = SizeClassFor_bound [OF jt]
  have fin: "lo = uint (Offset ref) \<and> uint n \<le> hi - lo"
    if "class_page ?c pg" "i < unat (pg_capacity pg)" "ref = Pack k (slotOffset pg (word_of_nat i))"
      "lo = uint (slotOffset pg (word_of_nat i))" "hi = uint (slotOffset pg (word_of_nat i) + pg_sizeClass pg)" for k pg i
    using that Offset_Pack [OF class_offset(5) [OF that(1,2)], of k] class_extent [OF that(1,2) c(2)] by simp
  have fresh: ?thesis if "alloc_fresh io ?c s0 = (Inr (ref, lo, hi), s')" "store_inv s0" "live s0 = live s"
      "st_nextID s0 = st_nextID s" "\<And>r. store_Read r s0 = store_Read r s" for s0
    using alloc_fresh_grows [OF that(2) _ c(1) that(1)] ov that(3-5) fin unfolding grows_def by auto
  show ?thesis
  proof (cases "st_active s ! ?c = 0")
    case True
    then show ?thesis using sl inv by (intro fresh [of s]) (simp_all add: allocSlab_def Let_def)
  next
    case act: False
    obtain pg where pg: "map_of (st_pgs s) (st_active s ! ?c) = Some pg" "class_page ?c pg"
      using store_invD(6) [OF inv c(1) act] by blast
    obtain im where im: "map_of (st_files s) (st_active s ! ?c) = Some im" by (rule store_inv_page [OF inv pg(1)])
    obtain r q im' where al: "allocSlot pg im = (r, q, im')" by (metis prod_cases3)
    show ?thesis
    proof (cases r)
      case None
      let ?s0 = "s\<lparr>st_active := (st_active s)[?c := 0]\<rparr>"
      have "store_inv ?s0" by (rule store_inv_active [OF inv c(1)]) simp
      then show ?thesis
        using sl act pg im al None
        by (intro fresh [of ?s0]) (simp_all add: allocSlab_def Let_def live_def store_Read_def)
    next
      case (Some i)
      note ex = alloc_existing [OF inv pg(1) im pg(2) al [unfolded Some]]
      have res: "ref = Pack (st_active s ! ?c) (slotOffset q i)" "lo = uint (slotOffset q i)"
        "hi = uint (slotOffset q i + pg_sizeClass q)" "s' = put_page (st_active s ! ?c) q im' s"
        using sl act pg im al Some by (auto simp: allocSlab_def slot_result_def Let_def)
      have "lo = uint (Offset ref) \<and> uint n \<le> hi - lo"
        by (rule fin [OF pg(2) ex(3) res(1,2) [unfolded ex(2)] res(3) [unfolded ex(2,4)]])
      then show ?thesis using ex(1) res(1,4) by simp
    qed
  qed
qed


section \<open>Release\<close>

lemma SizeClassFor_class: "c < 14 \<Longrightarrow> SizeClassFor (SizeClasses ! c) = int c"
proof -
  have "list_all (\<lambda>c. SizeClassFor (SizeClasses ! c) = int c) [0..<14]" by code_simp
  then show "c < 14 \<Longrightarrow> SizeClassFor (SizeClasses ! c) = int c" by (simp add: list_all_iff)
qed

lemma class_page_index: "class_page c pg \<Longrightarrow> SizeClassFor (pg_sizeClass pg) = int c"
  using SizeClassFor_class [of c] unfolding class_page_def by metis

lemma class_page_unique: "class_page c pg \<Longrightarrow> class_page c' pg \<Longrightarrow> c = c'"
  using class_page_index [of c pg] class_page_index [of c' pg] by simp

text \<open>Removing a page that no hint points to; its file goes too, unless \<open>os.Remove\<close> fails.\<close>

lemma drop_page:
  assumes inv: "store_inv s" and k: "map_of (st_pgs s) k = Some pg"
    and s': "st_pgs s' = AList.delete k (st_pgs s)"
      "st_files s' = (if rm then AList.delete k (st_files s) else AList.update k im' (st_files s))"
      "st_nextID s' = st_nextID s" "length (st_active s') = 14"
    and act: "\<And>c. c < 14 \<Longrightarrow> st_active s' ! c \<noteq> 0 \<Longrightarrow> st_active s' ! c = st_active s ! c \<and> st_active s' ! c \<noteq> k"
  shows "store_inv s'" "live s' = {r \<in> live s. PageID r \<noteq> k}"
    "\<forall>r \<in> live s'. store_Read r s' = store_Read r s" "map_of (st_files s') k = None \<longleftrightarrow> rm"
proof -
  have kn: "k < st_nextID s" by (rule store_inv_page [OF inv k])
  have fs: "map_of (st_files s') k' = map_of (st_files s) k'" if "k' \<noteq> k" for k'
    using that by (simp add: s'(2))
  have pg: "map_of (st_pgs s') k' = (if k' = k then None else map_of (st_pgs s) k')" for k'
    by (simp add: s'(1))
  show inv': "store_inv s'"
  proof (rule store_invI)
    show "\<exists>pg. map_of (st_pgs s') (st_active s' ! c) = Some pg \<and> class_page c pg" if c: "c < 14" "st_active s' ! c \<noteq> 0" for c
    proof -
      have a: "st_active s' ! c = st_active s ! c" "st_active s ! c \<noteq> k" "st_active s ! c \<noteq> 0" using act [OF c] c(2) by metis+
      show ?thesis using store_invD(6) [OF inv c(1) a(3)] a(1,2) by (simp add: s')
    qed
    show "k' < st_nextID s'" if "map_of (st_files s') k' \<noteq> None" for k'
    proof -
      show ?thesis
      proof (cases "k' = k")
        case False
        then have "map_of (st_files s) k' \<noteq> None" using that fs by metis
        then show ?thesis using store_invD(4) [OF inv, of k'] s'(3) by auto
      qed (use kn s'(3) in simp)
    qed
    show "k' \<noteq> 0 \<and> (\<exists>im. map_of (st_files s') k' = Some im \<and> page_ok q im)" if "map_of (st_pgs s') k' = Some q" for k' q
    proof -
      have "map_of (st_pgs s) k' = Some q" "k' \<noteq> k" using that pg by (simp_all split: if_splits)
      then show ?thesis using store_invD(5) [OF inv, of k' q] fs by simp
    qed
    show "distinct (map fst (st_pgs s'))" "distinct (map fst (st_files s'))"
      unfolding s' using store_invD(1,2) [OF inv] by (simp_all add: distinct_alist_delete distinct_update)
    show "length (st_active s') = 14" "0 < st_nextID s'" using inv by (simp_all add: s' store_inv_def)
  qed
  show lv: "live s' = {r \<in> live s. PageID r \<noteq> k}"
  proof (rule set_eqI)
    fix r show "r \<in> live s' \<longleftrightarrow> r \<in> {r \<in> live s. PageID r \<noteq> k}"
      unfolding live_def mem_Collect_eq pg using fs by (cases "PageID r = k") simp_all
  qed
  show "\<forall>r \<in> live s'. store_Read r s' = store_Read r s"
  proof
    fix r assume "r \<in> live s'"
    then have "PageID r \<noteq> k" using lv by blast
    then show "store_Read r s' = store_Read r s" by (simp add: store_Read_def pg fs)
  qed
  show "map_of (st_files s') k = None \<longleftrightarrow> rm" by (simp add: s'(2))
qed

definition shrinks :: "bool \<Rightarrow> Store \<Rightarrow> SlotRef \<Rightarrow> Store \<Rightarrow> bool" where
  "shrinks rm s ref s' \<longleftrightarrow> store_inv s' \<and> live s' = live s - {ref} \<and>
     (\<forall>r \<in> live s'. store_Read r s' = store_Read r s) \<and>
     (map_of (st_files s') (PageID ref) = None \<longleftrightarrow> rm \<and> (\<forall>r \<in> live s'. PageID r \<noteq> PageID ref))"

lemma Release_jumbo:
  assumes inv: "store_inv s" and r: "ref \<in> live s"
    and pg: "map_of (st_pgs s) (PageID ref) = Some pg" "map_of (st_files s) (PageID ref) = Some im" and j: "pg_jumbo pg"
    and rel: "Release io ref s = (x, s')"
  shows "x = Inr () \<and> shrinks (pio_remove io) s ref s'"
proof -
  have s': "x = Inr ()" "s' = doReclaim io (PageID ref) im (s\<lparr>st_pgs := AList.delete (PageID ref) (st_pgs s)\<rparr>)"
    using rel pg j by (simp_all add: Release_def Let_def)
  have ok: "page_ok pg im" using store_invD(5) [OF inv pg(1)] pg(2) by auto
  have "st_active s ! c \<noteq> PageID ref" if "c < 14" "st_active s ! c \<noteq> 0" for c
    using store_invD(6) [OF inv that] pg(1) j by (auto simp: class_page_def)
  then have d: "store_inv s'" "live s' = {r \<in> live s. PageID r \<noteq> PageID ref}"
    "\<forall>r \<in> live s'. store_Read r s' = store_Read r s" "map_of (st_files s') (PageID ref) = None \<longleftrightarrow> pio_remove io"
    using store_invD(3) [OF inv]
    by (intro drop_page [OF inv pg(1), where rm = "pio_remove io" and im' = "im\<lparr>im_header := snd (BumpGen (im_header im))\<rparr>"];
        simp add: s' doReclaim_def journal_write_def)+
  have "{r \<in> live s. PageID r = PageID ref} = {Pack (PageID ref) HeaderSize}"
    using live_on_page [OF pg ok] j by (simp add: slots_of_def)
  moreover have "ref \<in> {r \<in> live s. PageID r = PageID ref}" using r by simp
  ultimately have "{r \<in> live s. PageID r = PageID ref} = {ref}" by (metis singletonD)
  then have "live s' = live s - {ref}" using d(2) by blast
  then show ?thesis using d s'(1) unfolding shrinks_def by auto
qed

lemma slots_of_remove:
  assumes c: "class_page c pg" "i < unat (pg_capacity pg)"
    and q: "\<not> pg_jumbo q" "\<And>j. slotOffset q j = slotOffset pg j" "used q im' = used pg im - {i}"
  shows "slots_of k q im' = slots_of k pg im - {Pack k (slotOffset pg (word_of_nat i))}"
proof -
  have j: "\<not> pg_jumbo pg" using c(1) by (simp add: class_page_def)
  have "inj_on (\<lambda>i. Pack k (slotOffset pg (word_of_nat i))) {..<unat (pg_capacity pg)}"
    by (rule inj_onI) (auto intro: class_offset_inj [OF c(1)])
  moreover have "used pg im \<subseteq> {..<unat (pg_capacity pg)}" by (auto simp: used_def)
  ultimately have "(\<lambda>i. Pack k (slotOffset pg (word_of_nat i))) ` (used pg im - {i}) =
      (\<lambda>i. Pack k (slotOffset pg (word_of_nat i))) ` used pg im - (\<lambda>i. Pack k (slotOffset pg (word_of_nat i))) ` {i}"
    using c(2) by (intro inj_on_image_set_diff) auto
  then show ?thesis by (simp add: slots_of_def q j)
qed


lemma Release_slab:
  assumes inv: "store_inv s" and r: "ref \<in> live s"
    and pg: "map_of (st_pgs s) (PageID ref) = Some pg" "map_of (st_files s) (PageID ref) = Some im"
    and sl: "ref \<in> slots_of (PageID ref) pg im" and j: "\<not> pg_jumbo pg"
    and rel: "Release io ref s = (x, s')"
  shows "x = Inr () \<and> shrinks (pio_remove io) s ref s'"
proof -
  let ?k = "PageID ref"
  obtain c i where c: "class_page c pg" "page_inv pg im" "i \<in> used pg im" "i < unat (pg_capacity pg)"
    "ref = Pack ?k (slotOffset pg (word_of_nat i))" by (rule live_slab [OF inv pg sl j])
  have ri: "unat (ref_slot ref pg) = i" by (subst c(5)) (rule ref_slot_Pack [OF c(1,4)])
  obtain full q im' where f: "freeSlot (ref_slot ref pg) pg im = (full, q, im')" by (metis prod_cases3)
  note fs = freeSlot_ok [OF c(2) _ f, unfolded ri fst_conv snd_conv, OF c(3)]
  obtain fc ws where fr: "q = pg\<lparr>pg_freeCount := fc\<rparr>" "im' = im\<lparr>im_words := ws\<rparr>" by (rule freeSlot_frame [OF f])
  have same: "same_page pg q" by (simp add: fr same_page_def)
  have jq: "\<not> pg_jumbo q" using j by (simp add: fr)
  have ok: "page_ok pg im" "page_ok q im'"
    using c(1,2) fs j jq same_page_class [OF same] by (auto simp: page_ok_def)
  have so: "slots_of ?k q im' = slots_of ?k pg im - {ref}"
    using slots_of_remove [OF c(1,4) jq, of im' im ?k] fs same_page_offset [OF same] c(5) by simp
  have on: "{r \<in> live s. PageID r = ?k} = slots_of ?k pg im" by (rule live_on_page [OF pg ok(1)])
  have sci: "SizeClassFor (pg_sizeClass pg) = int c" "c < 14"
    using class_page_index [OF c(1)] c(1) by (simp_all add: class_page_def)
  show ?thesis
  proof (cases full)
    case True
    let ?s1 = "s\<lparr>st_pgs := AList.delete ?k (st_pgs s)\<rparr>"
    let ?s2 = "if st_active s ! c = ?k then ?s1\<lparr>st_active := (st_active s)[c := 0]\<rparr> else ?s1"
    have s': "x = Inr ()" "s' = doReclaim io ?k im' ?s2"
      using rel pg j f True sci by (auto simp: Release_def Let_def)
    have fields: "st_pgs s' = AList.delete ?k (st_pgs s)"
      "st_files s' = (if pio_remove io then AList.delete ?k (st_files s)
                      else AList.update ?k (im'\<lparr>im_header := snd (BumpGen (im_header im'))\<rparr>) (st_files s))"
      "st_nextID s' = st_nextID s" "st_active s' = (if st_active s ! c = ?k then (st_active s)[c := 0] else st_active s)"
      unfolding s' by (simp_all add: doReclaim_def journal_write_def)
    have act: "st_active s' ! d = st_active s ! d \<and> st_active s' ! d \<noteq> ?k" if d: "d < 14" "st_active s' ! d \<noteq> 0" for d
    proof (cases "d = c")
      case True
      then show ?thesis using d fields(4) store_invD(3) [OF inv] by (auto split: if_splits)
    next
      case False
      then have e: "st_active s' ! d = st_active s ! d" using fields(4) by simp
      have "st_active s ! d \<noteq> ?k"
        using store_invD(6) [OF inv d(1)] d(2) e pg(1) class_page_unique [OF c(1)] False by auto
      with e show ?thesis by simp
    qed
    have d: "store_inv s'" "live s' = {r \<in> live s. PageID r \<noteq> ?k}"
      "\<forall>r \<in> live s'. store_Read r s' = store_Read r s" "map_of (st_files s') ?k = None \<longleftrightarrow> pio_remove io"
      using store_invD(3) [OF inv] act by (intro drop_page [OF inv pg(1) fields(1-3)]; simp add: fields(4))+
    have "used q im' = {}" using fs True by blast
    then have "slots_of ?k q im' = {}" using jq by (simp add: slots_of_def)
    then have "slots_of ?k pg im = {ref}" using so sl by (metis Diff_eq_empty_iff subset_singletonD empty_iff)
    then have "{r \<in> live s. PageID r = ?k} = {ref}" unfolding on .
    then have "live s' = live s - {ref}" unfolding d(2) by blast
    moreover have "\<forall>r \<in> live s'. PageID r \<noteq> ?k" unfolding d(2) by simp
    ultimately show ?thesis using d(1,3,4) s'(1) unfolding shrinks_def by simp
  next
    case False
    let ?s1 = "put_page ?k q im' s"
    have s': "x = Inr ()" "s' = (if st_active s ! c = 0 then ?s1\<lparr>st_active := (st_active s)[c := ?k]\<rparr> else ?s1)"
      using rel pg j f False sci by (auto simp: Release_def Let_def)
    have inv1: "store_inv ?s1" by (rule put_page_inv [OF inv pg(1) same ok(2)])
    have "store_inv (?s1\<lparr>st_active := (st_active ?s1)[c := ?k]\<rparr>)"
      using sci(2) c(1) same_page_class [OF same] by (intro store_inv_active [OF inv1]) (auto simp: put_page_def)
    then have inv': "store_inv s'" using inv1 s'(2) by (simp add: put_page_def)
    have fields: "st_pgs s' = st_pgs ?s1" "st_files s' = st_files ?s1" by (simp_all add: s')
    have lv: "live s' = live s - {ref}"
      unfolding live_cong [OF fields] live_put_page [OF ok(2)] so using on live_split [of s ?k] c(5) by blast
    have rd: "store_Read r s' = store_Read r s" if "r \<in> live s'" for r
    proof -
      have "r \<in> live s" "r \<in> live ?s1" using that lv live_cong [OF fields] by auto
      then have "store_Read r ?s1 = store_Read r s"
        by (intro put_page_read [OF inv inv1 pg same]) (simp_all add: fr)
      then show ?thesis by (simp add: store_Read_def fields)
    qed
    have "used q im' \<noteq> {}" using fs False by blast
    then obtain y where "y \<in> slots_of ?k q im'" using jq by (auto simp: slots_of_def)
    then have "y \<in> slots_of ?k pg im" "y \<noteq> ref" unfolding so by simp_all
    then have "y \<in> live s'" "PageID y = ?k" using on lv by auto
    then have "\<exists>r \<in> live s'. PageID r = ?k" by blast
    moreover have "map_of (st_files s') ?k \<noteq> None" by (simp add: fields put_page_def)
    ultimately show ?thesis using inv' lv rd s'(1) unfolding shrinks_def by blast
  qed
qed

lemma Release_shrinks:
  assumes "store_inv s" "ref \<in> live s" "Release io ref s = (x, s')"
  shows "x = Inr () \<and> shrinks (pio_remove io) s ref s'"
proof -
  obtain pg im where p: "map_of (st_pgs s) (PageID ref) = Some pg" "map_of (st_files s) (PageID ref) = Some im"
    "ref \<in> slots_of (PageID ref) pg im" by (rule live_lookup [OF assms(2)])
  show ?thesis
    using Release_jumbo [OF assms(1,2) p(1,2) _ assms(3)] Release_slab [OF assms(1,2) p _ assms(3)] by blast
qed


section \<open>The store as a heap of payloads\<close>

text \<open>
  The contract that the queues rely on: references are handed out fresh, payloads of live references
  are independent of each other, and a release removes exactly its own.  The laws hold for stores
  reached from a well-formed one.
\<close>

inductive heap_run :: "('s \<Rightarrow> 'r set) \<Rightarrow> ('s \<Rightarrow> 'r \<Rightarrow> 's \<Rightarrow> bool) \<Rightarrow> ('s \<Rightarrow> 'r \<Rightarrow> 's \<Rightarrow> bool) \<Rightarrow> ('r \<Rightarrow> 'b \<Rightarrow> 's \<Rightarrow> 's) \<Rightarrow>
    ('r \<Rightarrow> 'b \<Rightarrow> 's \<Rightarrow> bool) \<Rightarrow> 's \<Rightarrow> 'r set \<Rightarrow> 's \<Rightarrow> bool"
  for refs alloc release put fits s where
  start: "heap_run refs alloc release put fits s {} s"
| alloc: "heap_run refs alloc release put fits s R s1 \<Longrightarrow> alloc s1 r s2 \<Longrightarrow>
    heap_run refs alloc release put fits s R s2"
| release: "heap_run refs alloc release put fits s R s1 \<Longrightarrow> r \<in> refs s1 \<Longrightarrow> release s1 r s2 \<Longrightarrow>
    heap_run refs alloc release put fits s (insert r R) s2"
| put: "heap_run refs alloc release put fits s R s1 \<Longrightarrow> r \<in> refs s1 \<Longrightarrow> fits r b s1 \<Longrightarrow>
    heap_run refs alloc release put fits s (insert r R) (put r b s1)"

locale payload_heap =
  fixes ok :: "'s \<Rightarrow> bool" and refs :: "'s \<Rightarrow> 'r set" and read :: "'r \<Rightarrow> 's \<Rightarrow> 'c"
    and alloc :: "'s \<Rightarrow> 'r \<Rightarrow> 's \<Rightarrow> bool" and release :: "'s \<Rightarrow> 'r \<Rightarrow> 's \<Rightarrow> bool" and put :: "'r \<Rightarrow> 'b \<Rightarrow> 's \<Rightarrow> 's"
    and fits :: "'r \<Rightarrow> 'b \<Rightarrow> 's \<Rightarrow> bool"
  assumes alloc_law: "ok s \<Longrightarrow> alloc s r s' \<Longrightarrow>
      ok s' \<and> r \<notin> refs s \<and> refs s' = insert r (refs s) \<and> (\<forall>x \<in> refs s. read x s' = read x s)"
    and release_law: "ok s \<Longrightarrow> r \<in> refs s \<Longrightarrow> release s r s' \<Longrightarrow>
      ok s' \<and> refs s' = refs s - {r} \<and> (\<forall>x \<in> refs s - {r}. read x s' = read x s)"
    and put_law: "ok s \<Longrightarrow> r \<in> refs s \<Longrightarrow> fits r b s \<Longrightarrow>
      ok (put r b s) \<and> refs (put r b s) = refs s \<and> (\<forall>x \<in> refs s - {r}. read x (put r b s) = read x s)"
begin

text \<open>A payload that is neither released nor overwritten survives every run.\<close>

lemma payload_survives:
  assumes "ok s" "heap_run refs alloc release put fits s R s'"
  shows "ok s' \<and> refs s - R \<subseteq> refs s' \<and> (\<forall>x \<in> refs s - R. read x s' = read x s)"
  using assms(2)
proof (induction rule: heap_run.induct)
  case start
  then show ?case using assms(1) by simp
next
  case (alloc R s1 r s2)
  then show ?case using alloc_law [of s1 r s2] by auto
next
  case (release R s1 r s2)
  have "ok s2" "refs s2 = refs s1 - {r}" "\<forall>x \<in> refs s1 - {r}. read x s2 = read x s1"
    using release_law [of s1 r s2] release by blast+
  moreover have "refs s - insert r R \<subseteq> refs s1 - {r}" "\<forall>x \<in> refs s - insert r R. read x s1 = read x s"
    using release.IH by blast+
  ultimately show ?case by (metis subset_iff)
next
  case (put R s1 r b)
  have "ok (put r b s1)" "refs (put r b s1) = refs s1"
    "\<forall>x \<in> refs s1 - {r}. read x (put r b s1) = read x s1" using put_law [of s1 r b] put by blast+
  moreover have "refs s - insert r R \<subseteq> refs s1 - {r}" "\<forall>x \<in> refs s - insert r R. read x s1 = read x s"
    using put.IH by blast+
  ultimately show ?case by (metis Diff_subset subset_iff)
qed

end

text \<open>The operations of the store in the shape of the contract.\<close>

definition store_alloc :: "Store \<Rightarrow> SlotRef \<Rightarrow> Store \<Rightarrow> bool" where
  "store_alloc s ref s' \<longleftrightarrow>
    (\<exists>io n lo hi. Alloc io n s = (Inr (ref, lo, hi), s') \<and> st_nextID s + 1 \<noteq> 0 \<and> uint n \<le> 2 ^ 32 - 2 ^ 21)"

definition store_release :: "Store \<Rightarrow> SlotRef \<Rightarrow> Store \<Rightarrow> bool" where
  "store_release s ref s' \<longleftrightarrow> (\<exists>io x. Release io ref s = (x, s'))"

definition store_put :: "SlotRef \<Rightarrow> bytes \<Rightarrow> Store \<Rightarrow> Store" where
  "store_put ref bs s = store_copy (PageID ref) (unat (Offset ref)) bs s"

definition store_fits :: "SlotRef \<Rightarrow> bytes \<Rightarrow> Store \<Rightarrow> bool" where
  "store_fits ref bs s \<longleftrightarrow> (\<exists>old. store_Read ref s = Inr old \<and> length bs \<le> length old)"

interpretation ph: payload_heap store_inv live store_Read store_alloc store_release store_put store_fits
proof
  fix s r s'
  assume "store_inv s" "store_alloc s r s'"
  then show "store_inv s' \<and> r \<notin> live s \<and> live s' = insert r (live s) \<and> (\<forall>x \<in> live s. store_Read x s' = store_Read x s)"
    using Alloc_grows unfolding store_alloc_def grows_def by blast
next
  fix s r s'
  assume "store_inv s" "r \<in> live s" "store_release s r s'"
  then show "store_inv s' \<and> live s' = live s - {r} \<and> (\<forall>x \<in> live s - {r}. store_Read x s' = store_Read x s)"
    using Release_shrinks unfolding shrinks_def store_release_def by metis
next
  fix s r b
  assume a: "store_inv s" "r \<in> live s" "store_fits r b s"
  obtain im where im: "map_of (st_files s) (PageID r) = Some im" by (rule live_lookup [OF a(2)])
  obtain old where old: "store_Read r s = Inr old" "length b \<le> length old" using a(3) by (auto simp: store_fits_def)
  show "store_inv (store_put r b s) \<and> live (store_put r b s) = live s \<and>
      (\<forall>x \<in> live s - {r}. store_Read x (store_put r b s) = store_Read x s)"
    using store_copy_inv [OF a(1) im] write_read(2) [OF a(1,2) old] unfolding store_put_def by blast
qed

end
