(* ===== verification/Store_Client.thy ===== *)
theory Store_Client
  imports Store_Props
begin

text \<open>
  What the queue relies on when it uses the page store: failed allocations change no payload, a
  successful one returns a slice that reads back what is copied into it, page ids advance by at most
  one per allocation, and releasing the references of an aborted request restores the heap.
\<close>

section \<open>Stores with the same payloads\<close>

definition heap_eq :: "Store \<Rightarrow> Store \<Rightarrow> bool" where
  "heap_eq s s' \<longleftrightarrow> store_inv s' \<and> live s' = live s \<and> (\<forall>r \<in> live s. store_Read r s' = store_Read r s)"

lemma heap_eq_refl: "store_inv s \<Longrightarrow> heap_eq s s"
  by (simp add: heap_eq_def)

lemma heap_eq_trans: "heap_eq s1 s2 \<Longrightarrow> heap_eq s2 s3 \<Longrightarrow> heap_eq s1 s3"
  by (simp add: heap_eq_def)

lemma heap_eq_fields:
  assumes "store_inv s" "st_pgs s' = st_pgs s" "st_files s' = st_files s" "store_inv s'"
  shows "heap_eq s s'"
  using assms live_cong [of s' s] by (simp add: heap_eq_def store_Read_def)

lemma live_nonzero:
  assumes "store_inv s" "r \<in> live s"
  shows "r \<noteq> 0"
proof
  assume "r = 0"
  then have "PageID r = 0" by (simp add: PageID_def)
  moreover obtain pg where "map_of (st_pgs s) (PageID r) = Some pg" by (rule live_lookup [OF assms(2)])
  ultimately show False using store_invD(5) [OF assms(1)] by auto
qed

section \<open>Failed allocations\<close>

lemma create_file_failed:
  assumes inv: "store_inv s" and ov: "st_nextID s + 1 \<noteq> 0"
    and cf: "create_file io (st_nextID s) e (s\<lparr>st_nextID := st_nextID s + 1\<rparr>) = (False, s2)"
  shows "heap_eq s s2"
proof -
  let ?k = "st_nextID s"
  have s2: "st_pgs s2 = st_pgs s" "st_nextID s2 = ?k + 1" "st_active s2 = st_active s"
    and f: "st_files s2 = st_files s \<or> st_files s2 = AList.update ?k zero_image (st_files s)"
    using cf by (auto simp: create_file_def journal_write_def Let_def split: if_splits)
  have lt: "?k < ?k + 1" using ov unatSuc [of ?k] by (simp add: word_less_nat_alt add.commute)
  have none: "map_of (st_files s) ?k = None"
    using store_invD(4) [OF inv, of ?k] by (cases "map_of (st_files s) ?k") auto
  then have np: "map_of (st_pgs s) ?k = None" using store_invD(5) [OF inv, of ?k] by (cases "map_of (st_pgs s) ?k") auto
  have other: "map_of (st_files s2) k = map_of (st_files s) k" if "k \<noteq> ?k" for k using f that by auto
  have inv2: "store_inv s2"
  proof (rule store_invI)
    show "k < st_nextID s2" if "map_of (st_files s2) k \<noteq> None" for k
      using that other [of k] store_invD(4) [OF inv, of k] lt s2(2) by (cases "k = ?k") auto
    show "k \<noteq> 0 \<and> (\<exists>im. map_of (st_files s2) k = Some im \<and> page_ok pg im)" if "map_of (st_pgs s2) k = Some pg" for k pg
      using that other [of k] store_invD(5) [OF inv, of k pg] np s2(1) by (cases "k = ?k") auto
    show "distinct (map fst (st_files s2))" using f store_invD(2) [OF inv] by auto
  qed (use inv ov s2 in \<open>auto simp: store_inv_def word_gt_0\<close>)
  have "map_of (st_pgs s) (PageID r) = Some pg \<Longrightarrow> map_of (st_files s2) (PageID r) = map_of (st_files s) (PageID r)" for r pg
    using other [of "PageID r"] np by (cases "PageID r = ?k") auto
  then have "live s2 = live s" "\<forall>r \<in> live s. store_Read r s2 = store_Read r s"
    unfolding live_def store_Read_def s2(1) by (auto split: option.splits)
  with inv2 show ?thesis by (simp add: heap_eq_def)
qed

lemma alloc_fresh_failed:
  assumes "store_inv s" "st_nextID s + 1 \<noteq> 0" "alloc_fresh io sci s = (Inl e, s')"
  shows "heap_eq s s'"
  using assms(3) create_file_failed [OF assms(1,2)]
  by (auto simp: alloc_fresh_def newSlabPage_def Let_def split: prod.splits sum.splits bool.splits)

lemma Alloc_failed:
  assumes inv: "store_inv s" and ov: "st_nextID s + 1 \<noteq> 0" and a: "Alloc io n s = (Inl e, s')"
  shows "heap_eq s s'"
proof -
  consider "n = 0" | "n \<noteq> 0" "JumboThreshold < n" | "n \<noteq> 0" "n \<le> JumboThreshold" by force
  then show ?thesis
  proof cases
    case 1
    then show ?thesis using a inv by (simp add: Alloc_def heap_eq_refl)
  next
    case 2
    then show ?thesis
      using a create_file_failed [OF inv ov]
      by (auto simp: Alloc_def newJumboPage_def Let_def split: prod.splits bool.splits)
  next
    case 3
    let ?c = "nat (SizeClassFor n)" and ?s0 = "s\<lparr>st_active := (st_active s)[nat (SizeClassFor n) := 0]\<rparr>"
    have c: "?c < 14" using SizeClassFor_bound [OF 3(2)] by simp
    have i0: "store_inv ?s0" by (rule store_inv_active [OF inv c]) simp
    have e0: "heap_eq s ?s0" by (rule heap_eq_fields [OF inv _ _ i0]) simp_all
    have "alloc_fresh io ?c s = (Inl e, s') \<or> alloc_fresh io ?c ?s0 = (Inl e, s')"
      using a 3 by (auto simp: Alloc_def allocSlab_def Let_def split: if_splits option.splits prod.splits)
    then show ?thesis
      using alloc_fresh_failed [OF inv ov] alloc_fresh_failed [OF i0, of io ?c e s'] ov heap_eq_trans [OF e0] by auto
  qed
qed

section \<open>The extent of an allocation\<close>

lemma slot_result_extent:
  assumes "class_page c q" "unat i < unat (pg_capacity q)" "slot_result k q i = (ref, lo, hi)"
  shows "PageID ref = k" "int (page_end ref q) = hi"
proof -
  have r: "ref = Pack k (slotOffset q i)" "hi = uint (slotOffset q i + pg_sizeClass q)"
    using assms(3) by (auto simp: slot_result_def Let_def)
  have w: "word_of_nat (unat i) = i" by simp
  note o = class_offset [OF assms(1,2), unfolded w]
  have "Offset ref = slotOffset q i" using r(1) Offset_Pack [of "slotOffset q i" k] o(5) by simp
  moreover have "unat (slotOffset q i + pg_sizeClass q) = unat (slotOffset q i) + unat (pg_sizeClass q)"
    using o(2) by (simp add: unat_word_ariths(1))
  from arg_cong [OF this, of int]
  have "uint (slotOffset q i + pg_sizeClass q) = uint (slotOffset q i) + uint (pg_sizeClass q)" by simp
  moreover have "\<not> pg_jumbo q" using assms(1) by (simp add: class_page_def)
  ultimately show "int (page_end ref q) = hi" using r(2) by (simp add: page_end_def)
  show "PageID ref = k" using r(1) PageID_Pack [of "slotOffset q i" k] o(5) by simp
qed

lemma alloc_fresh_extent:
  assumes a: "alloc_fresh io sci s = (Inr (ref, lo, hi), s')" and sci: "sci < 14"
  shows "\<exists>pg. map_of (st_pgs s') (PageID ref) = Some pg \<and> int (page_end ref pg) = hi"
proof -
  obtain pg im k s1 where n: "newSlabPage io sci s = (Inr (pg, im, k), s1)"
    using a by (auto simp: alloc_fresh_def split: prod.splits sum.splits)
  obtain s2 where k: "class_page sci pg" "page_inv pg im" "used pg im = {}" by (rule newSlabPage_ok [OF n sci])
  obtain r q im' where al: "allocSlot pg im = (r, q, im')" by (metis prod_cases3)
  have "unat (pg_capacity pg) \<noteq> 0" using class_page_slab [OF k(1)] by (simp add: slab_page_def)
  then have "r \<noteq> None" using allocSlot_None [OF k(2)] al k(3) by (auto simp: lessThan_empty_iff)
  then obtain i where i: "allocSlot pg im = (Some i, q, im')" using al by blast
  obtain fc h ws where fr: "q = pg\<lparr>pg_freeCount := fc, pg_hint := h\<rparr>"
    by (rule allocSlot_frame [OF k(2) i])
  have q: "class_page sci q" "unat i < unat (pg_capacity q)"
    using k(1) allocSlot_Some [OF k(2) i] by (simp_all add: fr class_page_def)
  have res: "slot_result k q i = (ref, lo, hi)" "map_of (st_pgs s') k = Some q"
    using a n i by (auto simp: alloc_fresh_def put_page_def Let_def)
  then show ?thesis using slot_result_extent [OF q res(1)] by blast
qed

lemma Alloc_extent:
  assumes inv: "store_inv s" and a: "Alloc io n s = (Inr (ref, lo, hi), s')"
  shows "\<exists>pg. map_of (st_pgs s') (PageID ref) = Some pg \<and> int (page_end ref pg) = hi"
proof (cases "JumboThreshold < n")
  case True
  then have j: "newJumboPage io n s = (Inr (ref, lo, hi), s')" using a by (simp add: Alloc_def split: if_splits)
  then have "ref = Pack (st_nextID s) HeaderSize"
    by (auto simp: newJumboPage_def Let_def split: prod.splits bool.splits)
  then have p: "PageID ref = st_nextID s" using PageID_Pack [OF HeaderSize_less(1)] by simp
  have "0 \<le> uint (SpanPagesFor n) * uint PageSize" by (simp add: PageSize_def)
  then show ?thesis
    unfolding p using j
    by (auto simp: newJumboPage_def Let_def put_page_def page_end_def split: prod.splits bool.splits)
next
  case False
  then have sl: "allocSlab io n s = (Inr (ref, lo, hi), s')" and jt: "n \<le> JumboThreshold"
    using a by (simp_all add: Alloc_def split: if_splits)
  let ?c = "nat (SizeClassFor n)" and ?s0 = "s\<lparr>st_active := (st_active s)[nat (SizeClassFor n) := 0]\<rparr>"
  have c: "?c < 14" using SizeClassFor_bound [OF jt] by simp
  show ?thesis
  proof (cases "alloc_fresh io ?c s = (Inr (ref, lo, hi), s') \<or> alloc_fresh io ?c ?s0 = (Inr (ref, lo, hi), s')")
    case True
    then show ?thesis using alloc_fresh_extent [OF _ c] by blast
  next
    case False
    then obtain pg im i q im' where act: "st_active s ! ?c \<noteq> 0" and pg: "map_of (st_pgs s) (st_active s ! ?c) = Some pg"
      "map_of (st_files s) (st_active s ! ?c) = Some im" and al: "allocSlot pg im = (Some i, q, im')"
      and res: "slot_result (st_active s ! ?c) q i = (ref, lo, hi)" "s' = put_page (st_active s ! ?c) q im' s"
      using sl by (auto simp: allocSlab_def Let_def split: if_splits option.splits prod.splits)
    have cl: "class_page ?c pg" using store_invD(6) [OF inv c act] pg by auto
    have pi: "page_inv pg im" using store_invD(5) [OF inv pg(1)] pg(2) cl by (auto simp: page_ok_def class_page_def)
    obtain fc h ws where fr: "q = pg\<lparr>pg_freeCount := fc, pg_hint := h\<rparr>" by (rule allocSlot_frame [OF pi al])
    have q: "class_page ?c q" "unat i < unat (pg_capacity q)"
      using cl allocSlot_Some [OF pi al] by (simp_all add: fr class_page_def)
    have "map_of (st_pgs s') (st_active s ! ?c) = Some q" by (simp add: res(2) put_page_def)
    then show ?thesis using slot_result_extent [OF q res(1)] by metis
  qed
qed

text \<open>The slice handed out is the slot that \<open>Read\<close> returns.\<close>

lemma Alloc_read:
  assumes "store_inv s" "st_nextID s + 1 \<noteq> 0" "uint n \<le> 2 ^ 32 - 2 ^ 21" "Alloc io n s = (Inr (ref, lo, hi), s')"
  obtains old where "store_Read ref s' = Inr old" "int (length old) = hi - lo" "lo = uint (Offset ref)"
proof -
  note g = Alloc_grows [OF assms]
  have r: "ref \<in> live s'" "store_inv s'" using g by (auto simp: grows_def)
  obtain pg im where p: "map_of (st_pgs s') (PageID ref) = Some pg" "map_of (st_files s') (PageID ref) = Some im"
    "ref \<in> slots_of (PageID ref) pg im" by (rule live_lookup [OF r(1)])
  note rd = read_live [OF r(2) p]
  have "int (page_end ref pg) = hi" using Alloc_extent [OF assms(1,4)] p(1) by auto
  moreover have "int (length (map (im_mem im) [unat (Offset ref)..<page_end ref pg])) = int (page_end ref pg) - uint (Offset ref)"
    using rd(3) by (simp add: of_nat_diff)
  ultimately show ?thesis using that [OF rd(1)] g by simp
qed

lemma Alloc_copy:
  assumes "store_inv s" "st_nextID s + 1 \<noteq> 0" "uint n \<le> 2 ^ 32 - 2 ^ 21" "Alloc io n s = (Inr (ref, lo, hi), s')"
    and "length bs \<le> unat n"
  defines "s2 \<equiv> store_copy (PageID ref) (nat lo) (take (nat (hi - lo)) bs) s'"
  shows "grows s ref s2" "\<exists>data. store_Read ref s2 = Inr data \<and> length bs \<le> length data \<and> take (length bs) data = bs"
    "st_nextID s2 = st_nextID s'"
proof -
  note g = Alloc_grows [OF assms(1-4)]
  obtain old where old: "store_Read ref s' = Inr old" "int (length old) = hi - lo" "lo = uint (Offset ref)"
    by (rule Alloc_read [OF assms(1-4)])
  have "int (length bs) \<le> int (unat n)" using assms(5) by (simp only: of_nat_le_iff)
  then have "int (length bs) \<le> uint n" by simp
  then have fit: "length bs \<le> length old" "take (nat (hi - lo)) bs = bs" using g old by auto
  have s2: "s2 = store_copy (PageID ref) (unat (Offset ref)) bs s'"
    unfolding s2_def fit(2) by (simp add: old(3))
  have r: "store_inv s'" "ref \<in> live s'" "live s' = insert ref (live s)" "ref \<notin> live s" using g by (auto simp: grows_def)
  obtain im where im: "map_of (st_files s') (PageID ref) = Some im" by (rule live_lookup [OF r(2)])
  note w = write_read [OF r(1,2) old(1) fit(1), folded s2]
  show "grows s ref s2"
    unfolding grows_def
  proof (intro conjI ballI)
    show "store_inv s2" "live s2 = insert ref (live s)" using store_copy_inv [OF r(1) im] r(3) by (simp_all add: s2)
    show "store_Read x s2 = store_Read x s" if "x \<in> live s" for x
      using w(2) [of x] that r(3,4) g unfolding grows_def by auto
  qed (rule r(4))
  show "\<exists>data. store_Read ref s2 = Inr data \<and> length bs \<le> length data \<and> take (length bs) data = bs" using w(1) by auto
  show "st_nextID s2 = st_nextID s'" by (simp add: s2 store_copy_def split: option.split)
qed

section \<open>Page ids\<close>

lemma create_file_nextID: "create_file io k e s = (b, s') \<Longrightarrow> st_nextID s' = st_nextID s"
  by (auto simp: create_file_def journal_write_def Let_def split: if_splits)

lemma newSlabPage_nextID: "newSlabPage io sci s = (x, s') \<Longrightarrow> st_nextID s' = st_nextID s + 1"
  by (auto simp: newSlabPage_def Let_def put_page_def split: prod.splits bool.splits dest!: create_file_nextID)

lemma alloc_fresh_nextID: "alloc_fresh io sci s = (x, s') \<Longrightarrow> st_nextID s' = st_nextID s + 1"
  by (auto simp: alloc_fresh_def Let_def put_page_def split: prod.splits sum.splits dest!: newSlabPage_nextID)

lemma Alloc_nextID: "Alloc io n s = (x, s') \<Longrightarrow> st_nextID s' = st_nextID s \<or> st_nextID s' = st_nextID s + 1"
proof -
  assume a: "Alloc io n s = (x, s')"
  consider "s' = s" | "newJumboPage io n s = (x, s')" | "allocSlab io n s = (x, s')"
    using a by (auto simp: Alloc_def split: if_splits)
  then show ?thesis
  proof cases
    case 2
    then show ?thesis by (auto simp: newJumboPage_def Let_def put_page_def split: prod.splits bool.splits dest!: create_file_nextID)
  next
    case 3
    then show ?thesis
      by (auto simp: allocSlab_def Let_def put_page_def split: if_splits option.splits prod.splits dest!: alloc_fresh_nextID)
  qed simp
qed

lemma Release_nextID: "st_nextID (snd (Release io r s)) = st_nextID s"
  by (auto simp: Release_def doReclaim_def journal_write_def put_page_def Let_def split: option.splits prod.splits)

text \<open>\<open>room n s\<close>: \<open>n\<close> more pages can be created before the 32-bit page id wraps around.\<close>

definition room :: "nat \<Rightarrow> Store \<Rightarrow> bool" where
  "room n s \<longleftrightarrow> unat (st_nextID s) + n < 2 ^ 32"

lemma room_Alloc:
  assumes "room (Suc n) s" "Alloc io k s = (x, s')"
  shows "st_nextID s + 1 \<noteq> 0" "room n s'"
proof -
  have u: "unat (st_nextID s + 1) = unat (st_nextID s) + 1"
    using assms(1) by (simp add: room_def unat_word_ariths(1))
  then show "st_nextID s + 1 \<noteq> 0" by (metis add_is_0 one_neq_zero unsigned_0)
  show "room n s'" using Alloc_nextID [OF assms(2)] assms(1) u by (auto simp: room_def)
qed

lemma room_mono: "room n s \<Longrightarrow> m \<le> n \<Longrightarrow> room m s"
  by (simp add: room_def)

end
