(* ===== verification/Queue_Handlers.thy ===== *)
theory Queue_Handlers
  imports Queue_Steps Store_Client
begin

text \<open>
  The handlers of the queue: what each does to the slots of the index and to the page store, on every
  branch, and that each keeps the invariant.
\<close>

section \<open>Commits\<close>

lemma answer_loop_length: "answer_loop err a rs c = (res, c') \<Longrightarrow> length res = length rs"
  by (induction rs arbitrary: a c res c') (auto simp: Let_def split: if_splits prod.splits)

lemma commit_flush_fields:
  "commit_flush io batch q = (res, q') \<Longrightarrow> q' = q\<lparr>q_wal := q_wal q', q_apply := q_apply q'\<rparr>"
  by (auto simp: commit_flush_def Let_def split: prod.splits if_splits)

lemma submitCommit_fields:
  assumes "submitCommit io refs recs q = (res, q')"
  shows "q' = q\<lparr>q_wal := q_wal q', q_apply := q_apply q'\<rparr>"
  using assms commit_flush_fields by (fastforce simp: submitCommit_def split: if_splits prod.splits)

lemma submitCommit_same:
  assumes "submitCommit io refs recs q = (res, q')"
  shows "q_cfg q' = q_cfg q" "q_ready q' = q_ready q" "q_delayed q' = q_delayed q" "q_inflight q' = q_inflight q"
    "q_receipts q' = q_receipts q" "q_dead q' = q_dead q" "q_idx q' = q_idx q" "q_pages q' = q_pages q"
    "q_nextMsgID q' = q_nextMsgID q" "q_reserved q' = q_reserved q" "q_stopped q' = q_stopped q"
    "core_inv H D P T X sl q' = core_inv H D P T X sl q"
proof -
  obtain w c where q': "q' = q\<lparr>q_wal := w, q_apply := c\<rparr>" using submitCommit_fields [OF assms] by blast
  show "q_cfg q' = q_cfg q" "q_ready q' = q_ready q" "q_delayed q' = q_delayed q" "q_inflight q' = q_inflight q"
    "q_receipts q' = q_receipts q" "q_dead q' = q_dead q" "q_idx q' = q_idx q" "q_pages q' = q_pages q"
    "q_nextMsgID q' = q_nextMsgID q" "q_reserved q' = q_reserved q" "q_stopped q' = q_stopped q"
    unfolding q' by simp_all
  show "core_inv H D P T X sl q' = core_inv H D P T X sl q"
    unfolding q' by (simp add: core_inv_def shape_inv_def q_dir_def ready_view_def dead_view_def)
qed

lemma fst_map_snd: "map fst (map (\<lambda>(r, s). (r, f s)) xs) = map fst xs"
  by (induction xs) auto

lemma map_of_map_snd: "map_of (map (\<lambda>(r, s). (r, f s)) xs) = map_option f \<circ> map_of xs"
  by (rule map_of_map)

lemma core_finish [simp]: "core_inv H D P T X sl (finish res q) = core_inv H D P T X sl q"
  by (simp add: finish_def core_inv_def shape_inv_def q_dir_def ready_view_def dead_view_def)

lemma finish_fields [simp]:
  "q_idx (finish res q) = q_idx q" "q_pages (finish res q) = q_pages q" "q_cfg (finish res q) = q_cfg q"
  "q_dead (finish res q) = q_dead q" "q_receipts (finish res q) = q_receipts q" "q_nextMsgID (finish res q) = q_nextMsgID q"
  "q_ready (finish res q) = q_ready q" "q_delayed (finish res q) = q_delayed q" "q_inflight (finish res q) = q_inflight q"
  "q_reserved (finish res q) = q_reserved q" "q_wal (finish res q) = q_wal q" "q_stopped (finish res q) = q_stopped q"
  by (simp_all add: finish_def)

lemma core_other [simp]:
  "core_inv H D P T X sl (q\<lparr>q_statDelivered := n\<rparr>) = core_inv H D P T X sl q"
  "core_inv H D P T X sl (q\<lparr>q_statAcked := n\<rparr>) = core_inv H D P T X sl q"
  "core_inv H D P T X sl (q\<lparr>q_statNacked := n\<rparr>) = core_inv H D P T X sl q"
  "core_inv H D P T X sl (q\<lparr>q_statExpired := n\<rparr>) = core_inv H D P T X sl q"
  "core_inv H D P T X sl (q\<lparr>q_statEnqueued := n\<rparr>) = core_inv H D P T X sl q"
  "core_inv H D P T X sl (q\<lparr>q_statReplayed := n\<rparr>) = core_inv H D P T X sl q"
  "core_inv H D P T X sl (q\<lparr>q_reserved := k\<rparr>) = core_inv H D P T X sl q"
  "core_inv H D P T X sl (q\<lparr>q_pages := p\<rparr>) = core_inv H D P T X sl q"
  "core_inv H D P T X sl (q\<lparr>q_lastCheckpointMs := t\<rparr>) = core_inv H D P T X sl q"
  "core_inv H D P T X sl (q\<lparr>q_wal := w\<rparr>) = core_inv H D P T X sl q"
  "core_inv H D P T X sl (notify q) = core_inv H D P T X sl q"
  by (simp_all add: notify_def core_inv_def shape_inv_def q_dir_def ready_view_def dead_view_def)

lemma notify_fields [simp]:
  "q_idx (notify q) = q_idx q" "q_pages (notify q) = q_pages q" "q_cfg (notify q) = q_cfg q"
  "q_dead (notify q) = q_dead q" "q_receipts (notify q) = q_receipts q" "q_nextMsgID (notify q) = q_nextMsgID q"
  "q_reserved (notify q) = q_reserved q" "q_ready (notify q) = q_ready q" "q_delayed (notify q) = q_delayed q"
  "q_inflight (notify q) = q_inflight q" "q_wal (notify q) = q_wal q" "q_apply (notify q) = q_apply q" "q_stopped (notify q) = q_stopped q"
  by (simp_all add: notify_def)

section \<open>Rolling leases back\<close>

definition unlease_back :: "Slot \<Rightarrow> Slot" where
  "unlease_back s = (let s1 = unleased StateReady s in if 0 < s_Attempts s1 then s1\<lparr>s_Attempts := s_Attempts s1 - 1\<rparr> else s1)"

lemma unlease_back_fields [simp]:
  "s_MsgID (unlease_back s) = s_MsgID s" "s_State (unlease_back s) = StateReady" "s_Priority (unlease_back s) = s_Priority s"
  "s_EnqueuedAtMs (unlease_back s) = s_EnqueuedAtMs s" "s_PayloadRef (unlease_back s) = s_PayloadRef s"
  "s_PayloadLen (unlease_back s) = s_PayloadLen s"
  by (simp_all add: unlease_back_def unleased_def Let_def)

lemma drop_lease_fields [simp]:
  "q_cfg (drop_lease m q) = q_cfg q" "q_delayed (drop_lease m q) = q_delayed q" "q_ready (drop_lease m q) = q_ready q"
  "q_dead (drop_lease m q) = q_dead q" "q_wal (drop_lease m q) = q_wal q" "q_idx (drop_lease m q) = q_idx q"
  "q_pages (drop_lease m q) = q_pages q" "q_nextMsgID (drop_lease m q) = q_nextMsgID q"
  "q_reserved (drop_lease m q) = q_reserved q" "q_apply (drop_lease m q) = q_apply q" "q_stopped (drop_lease m q) = q_stopped q"
  by (simp_all add: drop_lease_def)

lemma lease_receipt:
  assumes "core_inv H D P {} X sl q" "sl r = Some s" "s_State s = StateInflight"
  shows "map_of (q_receipts q) (s_MsgID s) = Some (lease_of r s)"
  using receipts_okD [OF core_invD(7) [OF assms(1)], of "s_MsgID s" "lease_of r s"] assms(2,3) by blast

lemma rollback_one:
  assumes c: "place_inv {#} D {#} {} X q" and s: "q_slots q r = Some s" "s_State s = StateInflight"
    and d: "d_ID d = s_MsgID s" "d_Receipt d = encodeReceipt (s_MsgID s) (s_Attempts s) (s_LeaseNonce s)"
  obtains q1 where "rollback_loop now (d # ds) q = rollback_loop now ds q1" "place_inv {#} D {#} {} X q1"
    "q_slots q1 = (q_slots q)(r \<mapsto> unlease_back s)" "same_base q q1"
proof -
  let ?m = "s_MsgID s"
  let ?q1 = "drop_lease ?m q"
  let ?q2 = "ready_push now (unlease_back s) r (idx_put r (unlease_back s) ?q1)"
  have dec: "decodeReceipt (d_Receipt d) = Some (?m, s_Attempts s, s_LeaseNonce s)"
    using decode_encode [of ?m "s_Attempts s" "s_LeaseNonce s" "[]"] d(2) by simp
  have "core_inv {#} D {#lease_key r s#} {?m} X (q_slots q) ?q1"
    using drop_lease_core [OF c s refl] by simp
  note c1 = this
  have "core_inv {#} D {#} ({?m} - {?m}) X (without r ?q1) ?q1"
    using remove_lease [OF c1 s] by simp
  then have rem: "core_inv {#} D {#} {} X (without r ?q1) ?q1" by simp
  have "place_inv {#} D {#} {} X ?q2"
    by (rule put_ready [OF rem]) (use fresh_removed [OF c1 s(1), of ?q1] in simp_all)
  moreover have "rollback_loop now (d # ds) q = rollback_loop now ds ?q2"
    using dec lease_receipt [OF c s] s(1) d(1)
    by (simp add: lease_of_def GetByRef_slots unlease_back_def drop_lease_def Let_def)
  ultimately show ?thesis using that by (simp add: same_base_def)
qed

lemma rollback_spec:
  assumes "place_inv {#} D {#} {} X q" "distinct (map fst g)"
    "\<forall>(r, s) \<in> set (granted nonces until i g). q_slots q r = Some s"
  shows "place_inv {#} D {#} {} X (rollback_loop now (map ls_delivery (leases nonces until i g)) q) \<and>
    q_slots (rollback_loop now (map ls_delivery (leases nonces until i g)) q) =
      q_slots q ++ map_of (map (\<lambda>(r, s). (r, unlease_back s)) (granted nonces until i g)) \<and>
    same_base q (rollback_loop now (map ls_delivery (leases nonces until i g)) q)"
  using assms
proof (induction nonces until i g arbitrary: q rule: granted.induct)
  case (1 nonces until i)
  then show ?case by (simp add: same_base_def)
next
  case (2 nonces until i r s g)
  let ?s = "lease_slot until (nonces i) s" and ?d = "ls_delivery (mk_leased until (nonces i) s)"
  let ?rest = "map ls_delivery (leases nonces until (Suc i) g)"
  have s: "q_slots q r = Some ?s" using 2 by simp
  have d: "d_ID ?d = s_MsgID ?s" "d_Receipt ?d = encodeReceipt (s_MsgID ?s) (s_Attempts ?s) (s_LeaseNonce ?s)"
    by (simp_all add: mk_leased_def)
  obtain q1 where q1: "rollback_loop now (?d # ?rest) q = rollback_loop now ?rest q1" "place_inv {#} D {#} {} X q1"
    "q_slots q1 = (q_slots q)(r \<mapsto> unlease_back ?s)" "same_base q q1"
    by (rule rollback_one [OF "2.prems"(1) s _ d]) simp_all
  have refs: "fst ` set (granted nonces until (Suc i) g) = fst ` set g"
    using dom_granted [of nonces until "Suc i" g] by (metis list.set_map)
  then have nr: "r \<notin> fst ` set (granted nonces until (Suc i) g)" using "2.prems"(2) by simp
  have "q_slots q1 x = Some y" if "(x, y) \<in> set (granted nonces until (Suc i) g)" for x y
  proof -
    have "x \<noteq> r" using nr that by force
    then show ?thesis using "2.prems"(3) that q1(3) by auto
  qed
  then have IH: "place_inv {#} D {#} {} X (rollback_loop now ?rest q1)"
    "q_slots (rollback_loop now ?rest q1) =
      q_slots q1 ++ map_of (map (\<lambda>(r, s). (r, unlease_back s)) (granted nonces until (Suc i) g))"
    "same_base q1 (rollback_loop now ?rest q1)"
    using "2.IH" [OF q1(2)] "2.prems"(2) by auto
  have "r \<notin> dom (map_of (map (\<lambda>(r, s). (r, unlease_back s)) (granted nonces until (Suc i) g)))"
    using nr by (simp add: map_of_map_snd map_of_eq_None_iff domIff)
  then have "q_slots (rollback_loop now ?rest q1) =
      q_slots q ++ map_of (map (\<lambda>(r, s). (r, unlease_back s)) (granted nonces until i ((r, s) # g)))"
    unfolding IH(2) q1(3) by (simp add: map_add_upd_left)
  moreover have "same_base q (rollback_loop now ?rest q1)" using IH(3) q1(4) by (simp add: same_base_def)
  moreover have "rollback_loop now (map ls_delivery (leases nonces until i ((r, s) # g))) q = rollback_loop now ?rest q1"
    using q1(1) by (simp del: rollback_loop.simps)
  ultimately show ?case using IH(1) by (simp only:)
qed

end
