(* ===== verification/Queue_Heap.thy ===== *)
theory Queue_Heap
  imports Store_Client Queue_Inv
begin

text \<open>
  Ownership of the page-store references of a queue.  The map \<open>pr\<close> sends each index slot to its payload
  reference and length; \<open>F\<close> is the set of live references that belong to somebody else, for instance to
  another queue of the broker or to an enqueue in progress.  The invariant accounts for every live
  reference, so keeping it for a fixed \<open>F\<close> means: no leak, no double use, no interference.
\<close>

type_synonym payload_map = "u64 \<rightharpoonup> SlotRef \<times> u32"

definition prefs :: "(u64 \<rightharpoonup> Slot) \<Rightarrow> payload_map" where
  "prefs sl = (\<lambda>r. map_option (\<lambda>s. (s_PayloadRef s, s_PayloadLen s)) (sl r))"

definition owned :: "payload_map \<Rightarrow> u64 set" where
  "owned pr = dom pr \<union> fst ` ran pr"

definition fits :: "SlotRef \<times> u32 \<Rightarrow> Store \<Rightarrow> bool" where
  "fits a p \<longleftrightarrow> (\<exists>data. store_Read (fst a) p = Inr data \<and> unat (snd a) \<le> length data)"

definition heap_inv :: "u64 set \<Rightarrow> payload_map \<Rightarrow> Store \<Rightarrow> bool" where
  "heap_inv F pr p \<longleftrightarrow> store_inv p \<and> live p = F \<union> owned pr \<and> F \<inter> owned pr = {} \<and> dom pr \<inter> fst ` ran pr = {} \<and>
     (\<forall>r r' a n n'. pr r = Some (a, n) \<and> pr r' = Some (a, n') \<longrightarrow> r = r') \<and> (\<forall>r a. pr r = Some a \<longrightarrow> fits a p)"

definition same_reads :: "u64 set \<Rightarrow> Store \<Rightarrow> Store \<Rightarrow> bool" where
  "same_reads S p p' \<longleftrightarrow> (\<forall>r \<in> S. store_Read r p' = store_Read r p)"

lemma same_reads_trans:
  "same_reads S p p' \<Longrightarrow> same_reads S' p' p'' \<Longrightarrow> S'' \<subseteq> S \<Longrightarrow> S'' \<subseteq> S' \<Longrightarrow> same_reads S'' p p''"
  unfolding same_reads_def by (metis subset_iff)

lemma heap_invD:
  assumes "heap_inv F pr p"
  shows "store_inv p" "live p = F \<union> owned pr" "F \<inter> owned pr = {}" "dom pr \<inter> fst ` ran pr = {}"
    "pr r = Some (a, n) \<Longrightarrow> pr r' = Some (a, n') \<Longrightarrow> r = r'" "pr r = Some x \<Longrightarrow> fits x p"
  using assms unfolding heap_inv_def by blast+

lemma heap_invI:
  assumes "store_inv p" "live p = F \<union> owned pr" "F \<inter> owned pr = {}" "dom pr \<inter> fst ` ran pr = {}"
    "\<And>r r' a n n'. pr r = Some (a, n) \<Longrightarrow> pr r' = Some (a, n') \<Longrightarrow> r = r'" "\<And>r a. pr r = Some a \<Longrightarrow> fits a p"
  shows "heap_inv F pr p"
  using assms unfolding heap_inv_def by blast

lemma owned_mem: "pr r = Some (a, n) \<Longrightarrow> r \<in> owned pr \<and> a \<in> owned pr"
  unfolding owned_def by (force simp: ran_def)

lemma owned_live: "heap_inv F pr p \<Longrightarrow> pr r = Some (a, n) \<Longrightarrow> r \<in> live p \<and> a \<in> live p"
  using owned_mem heap_invD(2) by blast

lemma fits_same: "fits (a, n) p \<Longrightarrow> store_Read a p' = store_Read a p \<Longrightarrow> fits (a, n) p'"
  by (simp add: fits_def)

lemma heap_inv_store:
  assumes h: "heap_inv F pr p" and p': "store_inv p'" "live p' = F' \<union> owned pr" "F' \<inter> owned pr = {}"
    and rd: "\<And>r. r \<in> owned pr \<Longrightarrow> store_Read r p' = store_Read r p"
  shows "heap_inv F' pr p'"
proof (rule heap_invI [OF p' heap_invD(4) [OF h] heap_invD(5) [OF h]])
  fix r x assume r: "pr r = Some x"
  obtain a n where x: "x = (a, n)" by force
  then have "a \<in> owned pr" using owned_mem r by blast
  then show "fits x p'" using fits_same [of a n p p'] rd heap_invD(6) [OF h r] x by blast
qed

section \<open>Allocation and release of references in hand\<close>

lemma heap_grows:
  assumes h: "heap_inv F pr p" and g: "grows p r p'"
  shows "heap_inv (insert r F) pr p'" "r \<notin> live p" "same_reads (live p) p p'"
proof -
  have g': "store_inv p'" "r \<notin> live p" "live p' = insert r (live p)" "\<And>x. x \<in> live p \<Longrightarrow> store_Read x p' = store_Read x p"
    using g unfolding grows_def by blast+
  show "r \<notin> live p" "same_reads (live p) p p'" using g' by (simp_all add: same_reads_def)
  have "r \<notin> owned pr" using g'(2) heap_invD(2) [OF h] by blast
  then show "heap_inv (insert r F) pr p'"
    using g' heap_invD(2,3) [OF h] by (intro heap_inv_store [OF h g'(1)]) auto
qed

lemma heap_eq_inv:
  assumes h: "heap_inv F pr p" and e: "heap_eq p p'"
  shows "heap_inv F pr p'" "same_reads (live p) p p'"
proof -
  have e': "store_inv p'" "live p' = live p" "\<And>x. x \<in> live p \<Longrightarrow> store_Read x p' = store_Read x p"
    using e unfolding heap_eq_def by blast+
  show "same_reads (live p) p p'" using e' by (simp add: same_reads_def)
  show "heap_inv F pr p'"
    using e' heap_invD(2,3) [OF h] by (intro heap_inv_store [OF h e'(1)]) auto
qed

lemma heap_release:
  assumes h: "heap_inv F pr p" and r: "r \<in> F"
  shows "heap_inv (F - {r}) pr (snd (Release io r p))" "same_reads (live p - {r}) p (snd (Release io r p))"
proof -
  have lv: "r \<in> live p" using heap_invD(2) [OF h] r by blast
  obtain x p' where rel: "Release io r p = (x, p')" by force
  have s: "store_inv p'" "live p' = live p - {r}" "\<And>y. y \<in> live p' \<Longrightarrow> store_Read y p' = store_Read y p"
    using Release_shrinks [OF heap_invD(1) [OF h] lv rel] unfolding shrinks_def by blast+
  show "same_reads (live p - {r}) p (snd (Release io r p))" using s(2,3) rel by (simp add: same_reads_def)
  have "r \<notin> owned pr" using heap_invD(3) [OF h] r by blast
  then show "heap_inv (F - {r}) pr (snd (Release io r p))"
    using s heap_invD(2,3) [OF h] rel by (simp, intro heap_inv_store [OF h s(1)]) auto
qed

section \<open>Handing references over to the index and back\<close>

lemma owned_upd: "pr r = None \<Longrightarrow> owned (pr(r \<mapsto> (a, n))) = insert r (insert a (owned pr))"
  by (auto simp: owned_def ran_map_upd)

lemma heap_adopt:
  assumes h: "heap_inv F pr p" and r: "r \<in> F" "a \<in> F" "r \<noteq> a" and f: "fits (a, n) p"
  shows "heap_inv (F - {r, a}) (pr(r \<mapsto> (a, n))) p"
proof -
  note d = heap_invD [OF h]
  have out: "r \<notin> owned pr" "a \<notin> owned pr" using d(3) r by blast+
  have none: "pr r = None" using out(1) by (auto simp: owned_def domIff)
  have ran: "ran (pr(r \<mapsto> (a, n))) = insert (a, n) (ran pr)" using none by (simp add: ran_map_upd)
  show ?thesis
  proof (rule heap_invI [OF d(1)])
    show "live p = F - {r, a} \<union> owned (pr(r \<mapsto> (a, n)))" using d(2) r by (auto simp: owned_upd [of pr r, OF none])
    show "(F - {r, a}) \<inter> owned (pr(r \<mapsto> (a, n))) = {}" using d(3) by (auto simp: owned_upd [of pr r, OF none])
    show "dom (pr(r \<mapsto> (a, n))) \<inter> fst ` ran (pr(r \<mapsto> (a, n))) = {}"
      using d(4) out r(3) unfolding ran by (auto simp: owned_def)
    show "x = x'" if "(pr(r \<mapsto> (a, n))) x = Some (b, k)" "(pr(r \<mapsto> (a, n))) x' = Some (b, k')" for x x' b k k'
    proof -
      have "b \<noteq> a" if "pr y = Some (b, l)" for y l using owned_mem [of pr y b l, OF that] out(2) by blast
      then show ?thesis using that d(5) [of x b k x' k'] by (auto split: if_splits)
    qed
    show "fits x p" if "(pr(r \<mapsto> (a, n))) y = Some x" for y x using that f d(6) by (auto split: if_splits)
  qed
qed

lemma heap_disown:
  assumes h: "heap_inv F pr p" and r: "pr r = Some (a, n)"
  shows "heap_inv (F \<union> {r, a}) (pr(r := None)) p" "r \<notin> F" "a \<notin> F" "r \<noteq> a" "owned (pr(r := None)) = owned pr - {r, a}"
proof -
  note d = heap_invD [OF h]
  note o = owned_mem [of pr r a n, OF r]
  show nF: "r \<notin> F" "a \<notin> F" using d(3) o by blast+
  show ra: "r \<noteq> a" using d(4) r by (force simp: ran_def)
  have ran: "fst ` ran (pr(r := None)) = fst ` ran pr - {a}"
  proof (intro set_eqI iffI)
    fix b assume "b \<in> fst ` ran (pr(r := None))"
    then obtain x k where x: "x \<noteq> r" "pr x = Some (b, k)" by (auto simp: ran_def split: if_splits)
    then have "b \<noteq> a" using d(5) r by blast
    then show "b \<in> fst ` ran pr - {a}" using x by (force simp: ran_def)
  next
    fix b assume "b \<in> fst ` ran pr - {a}"
    then obtain x k where x: "pr x = Some (b, k)" "b \<noteq> a" by (auto simp: ran_def)
    then have "(pr(r := None)) x = Some (b, k)" using r by auto
    then have "(b, k) \<in> ran (pr(r := None))" unfolding ran_def by blast
    then show "b \<in> fst ` ran (pr(r := None))" by force
  qed
  have "a \<notin> dom pr" "r \<notin> fst ` ran pr" using d(4) r by (force simp: ran_def)+
  then show ow: "owned (pr(r := None)) = owned pr - {r, a}" using ran by (auto simp: owned_def)
  show "heap_inv (F \<union> {r, a}) (pr(r := None)) p"
  proof (rule heap_invI [OF d(1)])
    show "live p = F \<union> {r, a} \<union> owned (pr(r := None))" using d(2) o unfolding ow by blast
    show "(F \<union> {r, a}) \<inter> owned (pr(r := None)) = {}" using d(3) unfolding ow by blast
    show "dom (pr(r := None)) \<inter> fst ` ran (pr(r := None)) = {}" using d(4) ran by auto
    show "x = x'" if "(pr(r := None)) x = Some (b, k)" "(pr(r := None)) x' = Some (b, k')" for x x' b k k'
      using that d(5) by (auto split: if_splits)
    show "fits x p" if "(pr(r := None)) y = Some x" for y x using that d(6) by (auto split: if_splits)
  qed
qed

text \<open>Freeing a message: its payload slot and then its index slot.\<close>

lemma heap_free:
  fixes io io'
  assumes h: "heap_inv F pr p" and r: "pr r = Some (a, n)"
  defines "p' \<equiv> snd (Release io' r (snd (Release io a p)))"
  shows "heap_inv F (pr(r := None)) p'" "same_reads (F \<union> owned (pr(r := None))) p p'"
proof -
  note d = heap_disown [OF h r]
  note r1 = heap_release [OF d(1), of a io]
  have a: "a \<in> F \<union> {r, a}" "r \<in> F \<union> {r, a} - {a}" using d(4) by blast+
  note r2 = heap_release [OF r1(1) [OF a(1)] a(2), of io']
  have "F \<union> {r, a} - {a} - {r} = F" using d(2,3) by blast
  then show "heap_inv F (pr(r := None)) p'" using r2(1) by (simp add: p'_def)
  have lv: "live p = F \<union> {r, a} \<union> owned (pr(r := None))" "live (snd (Release io a p)) = F \<union> {r, a} - {a} \<union> owned (pr(r := None))"
    using heap_invD(2) [OF d(1)] heap_invD(2) [OF r1(1) [OF a(1)]] by blast+
  show "same_reads (F \<union> owned (pr(r := None))) p p'"
    unfolding p'_def
    by (rule same_reads_trans [OF r1(2) [OF a(1)] r2(2)]) (use lv d in \<open>auto simp del: Un_insert_right\<close>)
qed

section \<open>The payload of a message\<close>

definition body :: "Store \<Rightarrow> Slot \<Rightarrow> bytes" where
  "body p s = (case store_Read (s_PayloadRef s) p of Inl _ \<Rightarrow> [] | Inr data \<Rightarrow> take (unat (s_PayloadLen s)) data)"

lemma prefs_Some: "sl r = Some s \<Longrightarrow> prefs sl r = Some (s_PayloadRef s, s_PayloadLen s)"
  by (simp add: prefs_def)

lemma prefs_update: "sl r = Some s \<Longrightarrow> s_PayloadRef s' = s_PayloadRef s \<Longrightarrow> s_PayloadLen s' = s_PayloadLen s \<Longrightarrow>
    prefs (sl(r \<mapsto> s')) = prefs sl"
  by (rule ext) (simp add: prefs_def)

lemma prefs_delete: "prefs (sl(r := None)) = (prefs sl)(r := None)"
  by (rule ext) (simp add: prefs_def)

lemma prefs_insert: "prefs (sl(r \<mapsto> s)) = (prefs sl)(r \<mapsto> (s_PayloadRef s, s_PayloadLen s))"
  by (rule ext) (simp add: prefs_def)

lemma body_same:
  assumes "same_reads S p p'" "s_PayloadRef s \<in> S" "s_PayloadRef s' = s_PayloadRef s" "s_PayloadLen s' = s_PayloadLen s"
  shows "body p' s' = body p s"
  using assms(1,2) unfolding body_def same_reads_def assms(3,4) by simp

lemma take_upt_map: "lo \<le> hi \<Longrightarrow> hi \<le> n \<Longrightarrow> take (hi - lo) (map f [lo..<n]) = map f [lo..<hi]"
  by (simp add: take_map)

lemma read_in_cap:
  assumes pg: "map_of (st_pgs p) (PageID r) = Some pg" "map_of (st_files p) (PageID r) = Some im" "0 \<le> pg_dataLen pg"
    and rd: "store_Read r p = Inr data"
  shows "take (length data) (slice_cap r p) = data" "length data \<le> length (slice_cap r p)"
proof -
  define hi where "hi = (if pg_jumbo pg then word_of_int (pg_dataLen pg) else Offset r + pg_sizeClass pg :: u32)"
  have d: "data = map (image_byte pg im) [unat (Offset r)..<unat hi]" "hi \<le> word_of_int (pg_dataLen pg)"
    using rd by (auto simp: store_Read_eq [OF pg(1,2)] hi_def Let_def split: if_splits)
  have "uint (word_of_int (pg_dataLen pg) :: u32) \<le> pg_dataLen pg"
    using pg(3) by (simp add: unsigned_of_int take_bit_eq_mod zmod_le_nonneg_dividend)
  then have "uint hi \<le> pg_dataLen pg" using d(2) by (simp add: word_le_def)
  then have le: "unat hi \<le> nat (pg_dataLen pg)" using nat_mono [of "uint hi" "pg_dataLen pg"] by simp
  have cap: "slice_cap r p = map (image_byte pg im) [unat (Offset r)..<nat (pg_dataLen pg)]"
    using pg by (simp add: slice_cap_def)
  show "length data \<le> length (slice_cap r p)" using le by (simp add: d(1) cap)
  show "take (length data) (slice_cap r p) = data"
    using le take_upt_map [of "unat (Offset r)" "unat hi" "nat (pg_dataLen pg)" "image_byte pg im"]
    by (cases "unat (Offset r) \<le> unat hi") (simp_all add: d(1) cap)
qed

text \<open>What the queue reads is the payload, and the slice expression does not panic.\<close>

lemma readPayload_body:
  assumes h: "heap_inv F (prefs sl) (q_pages q)" and s: "sl r = Some s"
  shows "readPayloadLocked s q = (if s_MsgID s = 0 then Some [] else Some (body (q_pages q) s))"
proof -
  let ?p = "q_pages q" and ?a = "s_PayloadRef s"
  have pr: "prefs sl r = Some (?a, s_PayloadLen s)" by (rule prefs_Some [of sl, OF s])
  obtain data where d: "store_Read ?a ?p = Inr data" "unat (s_PayloadLen s) \<le> length data"
    using heap_invD(6) [OF h pr] by (auto simp: fits_def)
  have a: "?a \<in> live ?p" using owned_live [OF h pr] by simp
  obtain pg im where pg: "map_of (st_pgs ?p) (PageID ?a) = Some pg" "map_of (st_files ?p) (PageID ?a) = Some im"
    by (rule live_lookup [OF a])
  have "page_ok pg im" using store_invD(5) [OF heap_invD(1) [OF h] pg(1)] pg(2) by auto
  then have "0 \<le> pg_dataLen pg" using page_ok_shape [of pg im] by (cases "pg_jumbo pg") (auto simp: page_shape_def class_page_def)
  note cap = read_in_cap [OF pg this d(1)]
  then have "take (unat (s_PayloadLen s)) (slice_cap ?a ?p) = take (unat (s_PayloadLen s)) data"
    using d(2) by (metis min.absorb1 take_take)
  then show ?thesis
    using d cap(2) by (simp add: readPayloadLocked_def body_def Let_def)
qed

end
