(* ===== verification/Queue_Spec.thy ===== *)
theory Queue_Spec
  imports Queue_Handlers Queue_Heap
begin

text \<open>
  The abstract specification of a queue: a finite map from message ids to messages, each with its
  payload bytes and a status.  \<open>messages\<close> reads it off the concrete state; the refinement lemmas of the
  handlers say what each handler does to this map.
\<close>

section \<open>Messages\<close>

datatype status = Waiting | Later i64 | Leased u64 i64 | Dead

record amsg =
  am_payload :: bytes
  am_priority :: u8
  am_attempts :: u16
  am_enqueuedAt :: i64
  am_status :: status

definition status_of :: "Slot \<Rightarrow> status" where
  "status_of s =
    (if s_State s = StateReady then Waiting
     else if s_State s = StateDelayed then Later (s_AvailableAtMs s)
     else if s_State s = StateInflight then Leased (s_LeaseNonce s) (s_LeaseUntilMs s)
     else Dead)"

definition msg_of :: "Store \<Rightarrow> Slot \<Rightarrow> amsg" where
  "msg_of p s = \<lparr>am_payload = body p s, am_priority = s_Priority s, am_attempts = s_Attempts s,
     am_enqueuedAt = s_EnqueuedAtMs s, am_status = status_of s\<rparr>"

definition messages :: "Queue \<Rightarrow> u64 \<rightharpoonup> amsg" where
  "messages q m = map_option (\<lambda>(r, s). msg_of (q_pages q) s) (findSlot m q)"

section \<open>Views\<close>

definition view :: "(u64 \<rightharpoonup> Slot) \<Rightarrow> Store \<Rightarrow> (u64 \<rightharpoonup> amsg) \<Rightarrow> bool" where
  "view sl p M \<longleftrightarrow> (\<forall>m a. M m = Some a \<longleftrightarrow> (\<exists>r s. sl r = Some s \<and> s_MsgID s = m \<and> a = msg_of p s))"

lemma viewD: "view sl p M \<Longrightarrow> M m = Some a \<longleftrightarrow> (\<exists>r s. sl r = Some s \<and> s_MsgID s = m \<and> a = msg_of p s)"
  by (simp add: view_def)

lemma view_Some: "view sl p M \<Longrightarrow> sl r = Some s \<Longrightarrow> M (s_MsgID s) = Some (msg_of p s)"
  using viewD by blast

lemma view_unique:
  assumes "view sl p M" "view sl p M'"
  shows "M = M'"
proof
  fix m
  show "M m = M' m"
    using viewD [OF assms(1), of m] viewD [OF assms(2), of m] by (metis not_None_eq)
qed

lemma findSlot_fold:
  "foldl (\<lambda>found (ref, s). if s_MsgID s = m then Some (ref, s) else found) acc xs =
    (case filter (\<lambda>(ref, s). s_MsgID s = m) xs of [] \<Rightarrow> acc | ys \<Rightarrow> Some (last ys))"
  by (induction xs arbitrary: acc) (auto split: list.split)

lemma findSlot_iff:
  assumes "index_inv (q_idx q)" "ids_ok n (q_slots q)"
  shows "findSlot m q = Some (r, s) \<longleftrightarrow> q_slots q r = Some s \<and> s_MsgID s = m"
proof -
  let ?ys = "filter (\<lambda>(ref, s). s_MsgID s = m) (Scan (q_idx q))"
  have mem: "(r', s') \<in> set ?ys \<longleftrightarrow> q_slots q r' = Some s' \<and> s_MsgID s' = m" for r' s'
    using Scan_slots(3) [OF assms(1), of r' s'] by auto
  have f: "findSlot m q = (if ?ys = [] then None else Some (last ?ys))"
    unfolding findSlot_def findSlot_fold by (cases ?ys) auto
  show ?thesis
  proof
    assume "findSlot m q = Some (r, s)"
    then have "(r, s) \<in> set ?ys" unfolding f by (metis last_in_set option.distinct(1) option.inject)
    then show "q_slots q r = Some s \<and> s_MsgID s = m" using mem by blast
  next
    assume a: "q_slots q r = Some s \<and> s_MsgID s = m"
    then have ne: "?ys \<noteq> []" using mem [of r s] by (metis list.set(1) empty_iff)
    obtain r' s' where l: "last ?ys = (r', s')" by force
    have "(r', s') \<in> set ?ys" using last_in_set [OF ne] l by simp
    then have b: "q_slots q r' = Some s'" "s_MsgID s' = m" using mem by blast+
    then have "r' = r" using ids_okD(4) [OF assms(2) conjunct1 [OF a] b(1)] a by simp
    then show "findSlot m q = Some (r, s)" using a b l ne by (simp add: f)
  qed
qed

lemma view_messages:
  assumes "index_inv (q_idx q)" "ids_ok n (q_slots q)"
  shows "view (q_slots q) (q_pages q) (messages q)"
  unfolding view_def messages_def using findSlot_iff [OF assms] by fastforce

lemma messages_unique:
  "index_inv (q_idx q) \<Longrightarrow> ids_ok n (q_slots q) \<Longrightarrow> view (q_slots q) (q_pages q) M \<Longrightarrow> messages q = M"
  using view_unique view_messages by blast

lemma view_put:
  assumes v: "view sl p M" and ids: "\<And>x y. sl x = Some y \<Longrightarrow> s_MsgID y = s_MsgID s' \<Longrightarrow> x = r"
    "\<And>s. sl r = Some s \<Longrightarrow> s_MsgID s = s_MsgID s'"
  shows "view (sl(r \<mapsto> s')) p (M(s_MsgID s' \<mapsto> msg_of p s'))"
  unfolding view_def
proof (intro allI)
  fix m a
  show "(M(s_MsgID s' \<mapsto> msg_of p s')) m = Some a \<longleftrightarrow> (\<exists>x y. (sl(r \<mapsto> s')) x = Some y \<and> s_MsgID y = m \<and> a = msg_of p y)"
  proof (cases "m = s_MsgID s'")
    case True
    have "(\<exists>x y. (sl(r \<mapsto> s')) x = Some y \<and> s_MsgID y = m \<and> a = msg_of p y) \<longleftrightarrow> a = msg_of p s'"
    proof
      assume "\<exists>x y. (sl(r \<mapsto> s')) x = Some y \<and> s_MsgID y = m \<and> a = msg_of p y"
      then obtain x y where x: "(sl(r \<mapsto> s')) x = Some y" "s_MsgID y = m" "a = msg_of p y" by blast
      have "x = r" using ids(1) [of x y] x(1,2) True by (cases "x = r") simp_all
      then show "a = msg_of p s'" using x by simp
    next
      assume "a = msg_of p s'"
      then show "\<exists>x y. (sl(r \<mapsto> s')) x = Some y \<and> s_MsgID y = m \<and> a = msg_of p y"
        using True by (intro exI [of _ r] exI [of _ s']) simp
    qed
    then show ?thesis using True by auto
  next
    case False
    have "(\<exists>x y. (sl(r \<mapsto> s')) x = Some y \<and> s_MsgID y = m \<and> a = msg_of p y) \<longleftrightarrow>
        (\<exists>x y. sl x = Some y \<and> s_MsgID y = m \<and> a = msg_of p y)"
    proof (rule ex_update)
      show "\<not> (s_MsgID y = m \<and> a = msg_of p y)" if "sl r = Some y" for y using ids(2) [OF that] False by metis
      show "\<not> (s_MsgID y = m \<and> a = msg_of p y)" if "Some s' = Some y" for y using that False by simp
    qed
    then show ?thesis using False viewD [OF v, of m a] by simp
  qed
qed

lemma view_delete:
  assumes v: "view sl p M" and s: "sl r = Some s" and ids: "ids_ok n sl"
  shows "view (sl(r := None)) p (M(s_MsgID s := None))"
  unfolding view_def
proof (intro allI)
  fix m a
  show "(M(s_MsgID s := None)) m = Some a \<longleftrightarrow> (\<exists>x y. (sl(r := None)) x = Some y \<and> s_MsgID y = m \<and> a = msg_of p y)"
  proof (cases "m = s_MsgID s")
    case True
    then have "\<not> (\<exists>x y. (sl(r := None)) x = Some y \<and> s_MsgID y = m \<and> a = msg_of p y)"
      using ids_okD(4) [OF ids s] by (metis fun_upd_apply option.distinct(1))
    then show ?thesis using True by simp
  next
    case False
    have "(\<exists>x y. (sl(r := None)) x = Some y \<and> s_MsgID y = m \<and> a = msg_of p y) \<longleftrightarrow>
        (\<exists>x y. sl x = Some y \<and> s_MsgID y = m \<and> a = msg_of p y)"
      using False s by (intro ex_update) auto
    then show ?thesis using False viewD [OF v, of m a] by simp
  qed
qed

lemma view_update:
  assumes "view sl p M" "ids_ok n sl" "sl r = Some s" "s_MsgID s' = s_MsgID s"
  shows "view (sl(r \<mapsto> s')) p (M(s_MsgID s \<mapsto> msg_of p s'))"
proof -
  have "view (sl(r \<mapsto> s')) p (M(s_MsgID s' \<mapsto> msg_of p s'))"
  proof (rule view_put [OF assms(1)])
    show "x = r" if "sl x = Some y" "s_MsgID y = s_MsgID s'" for x y
      by (rule ids_okD(4) [OF assms(2,3) that(1)]) (simp only: that(2) assms(4))
    show "s_MsgID y = s_MsgID s'" if "sl r = Some y" for y using that assms(3,4) by simp
  qed
  then show ?thesis by (simp only: assms(4))
qed

lemma view_pages:
  assumes "view sl p M" "\<And>r s. sl r = Some s \<Longrightarrow> body p' s = body p s"
  shows "view sl p' M"
proof -
  have "msg_of p' s = msg_of p s" if "sl r = Some s" for r s using assms(2) that by (simp add: msg_of_def)
  then show ?thesis using assms(1) unfolding view_def by metis
qed

lemma view_map:
  assumes "view sl p M" "\<And>s. s_MsgID (f s) = s_MsgID s" "\<And>s. msg_of p (f s) = g (msg_of p s)"
  shows "view (\<lambda>r. map_option f (sl r)) p (\<lambda>m. map_option g (M m))"
  unfolding view_def
proof (intro allI)
  fix m a
  have "map_option g (M m) = Some a \<longleftrightarrow> (\<exists>b. M m = Some b \<and> a = g b)" by auto
  also have "\<dots> \<longleftrightarrow> (\<exists>r s. sl r = Some s \<and> s_MsgID s = m \<and> a = g (msg_of p s))"
    unfolding viewD [OF assms(1)] by blast
  also have "\<dots> \<longleftrightarrow> (\<exists>r s. map_option f (sl r) = Some s \<and> s_MsgID s = m \<and> a = msg_of p s)"
    using assms(2,3) by (auto simp: map_option_case split: option.split) (metis option.simps(5))+
  finally show "map_option g (M m) = Some a \<longleftrightarrow> (\<exists>r s. map_option f (sl r) = Some s \<and> s_MsgID s = m \<and> a = msg_of p s)" .
qed

section \<open>The invariant of a queue between two handlers\<close>

definition dead_ok :: "Queue \<Rightarrow> bool" where
  "dead_ok q \<longleftrightarrow> (\<forall>d \<in> set (q_dead q). \<forall>s. q_slots q (dm_indexRef d) = Some s \<longrightarrow> dm_Payload d = body (q_pages q) s)"

definition q_inv :: "u64 set \<Rightarrow> Queue \<Rightarrow> bool" where
  "q_inv F q \<longleftrightarrow> queue_inv q \<and> heap_inv F (prefs (q_slots q)) (q_pages q) \<and> dead_ok q"

lemma q_invD:
  assumes "q_inv F q"
  shows "queue_inv q" "heap_inv F (prefs (q_slots q)) (q_pages q)" "dead_ok q" "view (q_slots q) (q_pages q) (messages q)"
    "ids_ok (q_nextMsgID q) (q_slots q)"
proof -
  show q: "queue_inv q" "heap_inv F (prefs (q_slots q)) (q_pages q)" "dead_ok q" using assms by (simp_all only: q_inv_def)
  note c = core_invD [OF q(1)]
  show "ids_ok (q_nextMsgID q) (q_slots q)" by (rule c(2))
  show "view (q_slots q) (q_pages q) (messages q)" by (rule view_messages [OF _ c(2)]) (use c(1) in \<open>simp add: shape_inv_def\<close>)
qed

lemma q_invI:
  assumes "queue_inv q" "heap_inv F (prefs (q_slots q)) (q_pages q)" "dead_ok q" "view (q_slots q) (q_pages q) M"
  shows "q_inv F q \<and> messages q = M"
proof
  show i: "q_inv F q" unfolding q_inv_def using assms(1-3) by blast
  show "messages q = M" by (rule view_unique [OF q_invD(4) [OF i] assms(4)])
qed

text \<open>The part of the invariant that does not depend on what a handler has in hand.\<close>

definition data_inv :: "u64 set \<Rightarrow> Queue \<Rightarrow> bool" where
  "data_inv F q \<longleftrightarrow> index_inv (q_idx q) \<and> ids_ok (q_nextMsgID q) (q_slots q) \<and>
     heap_inv F (prefs (q_slots q)) (q_pages q) \<and> dead_ok q"

lemma data_invD:
  assumes "data_inv F q"
  shows "ids_ok (q_nextMsgID q) (q_slots q)" "heap_inv F (prefs (q_slots q)) (q_pages q)" "dead_ok q"
    "view (q_slots q) (q_pages q) (messages q)"
  using assms view_messages unfolding data_inv_def by blast+

lemma data_invI:
  assumes "core_inv H D P T X (q_slots q) q" "heap_inv F (prefs (q_slots q)) (q_pages q)" "dead_ok q" "view (q_slots q) (q_pages q) M"
  shows "data_inv F q \<and> messages q = M"
proof
  have "index_inv (q_idx q)" using core_invD(1) [OF assms(1)] by (simp add: shape_inv_def)
  then show i: "data_inv F q" unfolding data_inv_def using core_invD(2) [OF assms(1)] assms(2,3) by blast
  show "messages q = M" by (rule view_unique [OF data_invD(4) [OF i] assms(4)])
qed

lemma q_inv_data: "q_inv F q \<longleftrightarrow> queue_inv q \<and> data_inv F q"
proof
  assume i: "q_inv F q"
  show "queue_inv q \<and> data_inv F q" using q_invD [OF i] data_invI by blast
next
  assume "queue_inv q \<and> data_inv F q"
  then show "q_inv F q" unfolding q_inv_def data_inv_def by blast
qed

lemma dead_ok_update:
  assumes "dead_ok q" "q_dead q' = q_dead q" "q_pages q' = q_pages q"
    "\<And>d s. d \<in> set (q_dead q) \<Longrightarrow> q_slots q' (dm_indexRef d) = Some s \<Longrightarrow>
       \<exists>s0. q_slots q (dm_indexRef d) = Some s0 \<and> s_PayloadRef s = s_PayloadRef s0 \<and> s_PayloadLen s = s_PayloadLen s0"
  shows "dead_ok q'"
proof -
  have "body p s = body p s0" if "s_PayloadRef s = s_PayloadRef s0" "s_PayloadLen s = s_PayloadLen s0" for p s s0
    unfolding body_def that ..
  then show ?thesis using assms unfolding dead_ok_def by metis
qed

lemma messages_cong: "q_idx q' = q_idx q \<Longrightarrow> q_pages q' = q_pages q \<Longrightarrow> messages q' = messages q"
  by (rule ext) (simp add: messages_def findSlot_def)

text \<open>The bookkeeping at the end of a handler does not matter.\<close>

lemma messages_other [simp]:
  "messages (q\<lparr>q_statDelivered := n\<rparr>) = messages q" "messages (q\<lparr>q_statAcked := n\<rparr>) = messages q"
  "messages (q\<lparr>q_statNacked := n\<rparr>) = messages q" "messages (q\<lparr>q_statExpired := n\<rparr>) = messages q"
  "messages (q\<lparr>q_statEnqueued := n\<rparr>) = messages q" "messages (q\<lparr>q_statReplayed := n\<rparr>) = messages q"
  "messages (q\<lparr>q_reserved := k\<rparr>) = messages q" "messages (q\<lparr>q_lastCheckpointMs := t\<rparr>) = messages q"
  "messages (q\<lparr>q_wal := w\<rparr>) = messages q" "messages (q\<lparr>q_dead := ds\<rparr>) = messages q"
  "messages (notify q) = messages q" "messages (finish res q) = messages q"
  by (rule messages_cong; simp)+

lemma q_inv_other [simp]:
  "q_inv F (q\<lparr>q_statDelivered := n\<rparr>) = q_inv F q" "q_inv F (q\<lparr>q_statAcked := n\<rparr>) = q_inv F q"
  "q_inv F (q\<lparr>q_statNacked := n\<rparr>) = q_inv F q" "q_inv F (q\<lparr>q_statExpired := n\<rparr>) = q_inv F q"
  "q_inv F (q\<lparr>q_statEnqueued := n\<rparr>) = q_inv F q" "q_inv F (q\<lparr>q_statReplayed := n\<rparr>) = q_inv F q"
  "q_inv F (q\<lparr>q_reserved := k\<rparr>) = q_inv F q" "q_inv F (q\<lparr>q_lastCheckpointMs := t\<rparr>) = q_inv F q"
  "q_inv F (q\<lparr>q_wal := w\<rparr>) = q_inv F q" "q_inv F (notify q) = q_inv F q" "q_inv F (finish res q) = q_inv F q"
  by (simp_all add: q_inv_def dead_ok_def)

lemma submitCommit_q_inv:
  assumes "submitCommit io refs recs q = (res, q')"
  shows "q_inv F q' = q_inv F q" "messages q' = messages q"
proof -
  note e = submitCommit_same(6-8,12) [OF assms]
  show "q_inv F q' = q_inv F q" by (simp only: q_inv_def dead_ok_def e)
  show "messages q' = messages q" by (rule messages_cong [OF e(2,3)])
qed

end
