(* ===== verification/Queue_Settle.thy ===== *)
theory Queue_Settle
  imports Queue_Spec
begin

text \<open>
  Settling a lease: \<open>Ack\<close> and \<open>Nack\<close> against the abstract specification.  Both first take the lease
  that the receipt names, then commit, then act on the message or, if the commit fails, restore the lease.
\<close>

section \<open>The lease that a receipt names\<close>

definition current :: "(u64 \<rightharpoonup> amsg) \<Rightarrow> string \<Rightarrow> (u64 \<times> u64) option" where
  "current M receipt =
    (case decodeReceipt receipt of
       None \<Rightarrow> None
     | Some (m, att, nonce) \<Rightarrow>
         (case M m of
            None \<Rightarrow> None
          | Some a \<Rightarrow> (case am_status a of
                         Leased n u \<Rightarrow> if n = nonce \<and> am_attempts a = att then Some (m, nonce) else None
                       | _ \<Rightarrow> None)))"

lemma status_Leased: "status_of s = Leased n u \<longleftrightarrow> s_State s = StateInflight \<and> n = s_LeaseNonce s \<and> u = s_LeaseUntilMs s"
  by (auto simp: status_of_def)

lemma take_lease_ok:
  assumes i: "q_inv F q" and c: "current (messages q) receipt = Some (m, nonce)"
  obtains r s where "q_slots q r = Some s" "s_State s = StateInflight" "s_MsgID s = m" "s_LeaseNonce s = nonce"
    "take_lease receipt q = (Some (m, lease_of r s, s), drop_lease m q)"
proof -
  obtain att a u where d: "decodeReceipt receipt = Some (m, att, nonce)" and a: "messages q m = Some a"
    "am_status a = Leased nonce u" "am_attempts a = att"
    using c by (auto simp: current_def split: option.splits status.splits if_splits)
  obtain r s where s: "q_slots q r = Some s" "s_MsgID s = m" "a = msg_of (q_pages q) s"
    using viewD [OF q_invD(4) [OF i], of m a] a(1) by blast
  have st: "s_State s = StateInflight" "s_LeaseNonce s = nonce" "s_Attempts s = att"
    using a(2,3) s(3) by (simp_all add: msg_of_def status_Leased)
  have "map_of (q_receipts q) m = Some (lease_of r s)"
    using lease_receipt [OF q_invD(1) [OF i] s(1) st(1)] s(2) by simp
  then have "take_lease receipt q = (Some (m, lease_of r s, s), drop_lease m q)"
    using d st(2,3) s(1) by (simp add: take_lease_def lease_of_def drop_lease_def GetByRef_slots Let_def)
  then show ?thesis using that s st by blast
qed

lemma take_lease_bad:
  assumes i: "q_inv F q" and c: "current (messages q) receipt = None"
  shows "take_lease receipt q = (None, q)"
proof (cases "decodeReceipt receipt")
  case None
  then show ?thesis by (simp add: take_lease_def)
next
  case (Some x)
  obtain m att nonce where x: "x = (m, att, nonce)" by (metis prod_cases3)
  show ?thesis
  proof (cases "map_of (q_receipts q) m")
    case None
    then show ?thesis using Some x by (simp add: take_lease_def)
  next
    case info: (Some info)
    obtain s where s: "q_slots q (li_indexRef info) = Some s" "s_MsgID s = m" "s_State s = StateInflight"
      "info = lease_of (li_indexRef info) s" by (rule receipt_slot [OF q_invD(1) [OF i] info])
    have "messages q m = Some (msg_of (q_pages q) s)" using view_Some [OF q_invD(4) [OF i] s(1)] s(2) by simp
    then have "li_nonce info \<noteq> nonce \<or> li_attempt info \<noteq> att"
      using c Some x s(3) arg_cong [OF s(4), of li_nonce] arg_cong [OF s(4), of li_attempt]
      by (auto simp: current_def msg_of_def status_of_def lease_of_def)
    then show ?thesis using Some x info by (auto simp: take_lease_def)
  qed
qed

section \<open>Acting on the message whose lease was taken\<close>

lemma submitCommit_cong:
  assumes "q_stopped q' = q_stopped q" "q_wal q' = q_wal q" "q_pages q' = q_pages q" "q_apply q' = q_apply q"
  shows "fst (submitCommit io refs recs q') = fst (submitCommit io refs recs q)"
    "q_wal (snd (submitCommit io refs recs q')) = q_wal (snd (submitCommit io refs recs q))"
  using assms by (simp_all add: submitCommit_def commit_flush_def Let_def split: prod.split)

lemma lease_taken:
  assumes i: "q_inv F q" and s: "q_slots q r = Some s" "s_State s = StateInflight"
    and sub: "submitCommit io refs recs (drop_lease (s_MsgID s) q) = (res, q2)"
  shows "core_inv {#} {#} {#} {} {#} (without r q2) q2" "fresh_id r (without r q2) (s_MsgID s) q2"
    "q_slots q2 = q_slots q" "q_pages q2 = q_pages q" "q_dead q2 = q_dead q" "q_cfg q2 = q_cfg q"
    "map_of (q_receipts q2) (s_MsgID s) = None" "s_MsgID s \<noteq> 0"
proof -
  note q = q_invD [OF i] and e = submitCommit_same [OF sub]
  show "q_slots q2 = q_slots q" "q_pages q2 = q_pages q" "q_dead q2 = q_dead q" "q_cfg q2 = q_cfg q" using e by simp_all
  show "map_of (q_receipts q2) (s_MsgID s) = None" using e(5) by (simp add: drop_lease_def)
  show "s_MsgID s \<noteq> 0" by (rule ids_okD(1) [OF q(5) s(1)])
  have "core_inv {#} {#} {#lease_key r s#} {s_MsgID s} {#} (q_slots q) (drop_lease (s_MsgID s) q)"
    using drop_lease_core [OF q(1) s refl] by simp
  then have "core_inv {#} {#} {#lease_key r s#} {s_MsgID s} {#} (q_slots q) q2" by (simp only: e(12))
  then have c: "core_inv {#} {#} {#lease_key r s#} {s_MsgID s} {#} (q_slots q2) q2" using e(7) by simp
  have s2: "q_slots q2 r = Some s" using s(1) e(7) by simp
  have "core_inv {#} {#} {#} ({s_MsgID s} - {s_MsgID s}) {#} (without r q2) q2"
    by (rule remove_lease [OF c s2 s(2)]) simp
  then show "core_inv {#} {#} {#} {} {#} (without r q2) q2" by simp
  show "fresh_id r (without r q2) (s_MsgID s) q2" by (rule fresh_removed [OF c s2 refl])
qed

lemma replace_data:
  assumes i: "data_inv F q" and s: "q_slots q r = Some s" and c: "core_inv H D P T X (q_slots q') q'"
    and sl: "q_slots q' = (q_slots q)(r \<mapsto> s')"
    and eq: "s_MsgID s' = s_MsgID s" "s_PayloadRef s' = s_PayloadRef s" "s_PayloadLen s' = s_PayloadLen s" "q_pages q' = q_pages q"
    and d: "q_dead q' = q_dead q \<or> (\<exists>dm. q_dead q' = q_dead q @ [dm] \<and> dm_indexRef dm = r \<and> dm_Payload dm = body (q_pages q) s)"
  shows "data_inv F q' \<and> messages q' = (messages q)(s_MsgID s \<mapsto> msg_of (q_pages q) s')"
proof (rule data_invI [OF c])
  note q = data_invD [OF i]
  show "heap_inv F (prefs (q_slots q')) (q_pages q')"
    unfolding sl eq(4) prefs_update [of "q_slots q", OF s eq(2,3)] by (rule q(2))
  show "view (q_slots q') (q_pages q') ((messages q)(s_MsgID s \<mapsto> msg_of (q_pages q) s'))"
    unfolding sl eq(4) by (rule view_update [OF q(4,1) s eq(1)])
  have b: "body (q_pages q) s' = body (q_pages q) s" unfolding body_def eq(2,3) ..
  have old: "dm_Payload dm = body (q_pages q) y" if "dm \<in> set (q_dead q)" "q_slots q' (dm_indexRef dm) = Some y" for dm y
    using q(3) that s b unfolding dead_ok_def sl by (cases "dm_indexRef dm = r") simp_all
  show "dead_ok q'" using d
  proof
    assume "q_dead q' = q_dead q"
    then show ?thesis using old unfolding dead_ok_def eq(4) by simp
  next
    assume "\<exists>dm. q_dead q' = q_dead q @ [dm] \<and> dm_indexRef dm = r \<and> dm_Payload dm = body (q_pages q) s"
    then obtain dm where dm: "q_dead q' = q_dead q @ [dm]" "dm_indexRef dm = r" "dm_Payload dm = body (q_pages q) s" by blast
    have "dm_Payload dm = body (q_pages q) y" if "q_slots q' (dm_indexRef dm) = Some y" for y
      using that b dm(2,3) unfolding sl by simp
    then show ?thesis using old unfolding dead_ok_def eq(4) dm(1) by simp
  qed
qed

lemma replace_message:
  assumes "q_inv F q" "q_slots q r = Some s" "queue_inv q'" "q_slots q' = (q_slots q)(r \<mapsto> s')"
    "s_MsgID s' = s_MsgID s" "s_PayloadRef s' = s_PayloadRef s" "s_PayloadLen s' = s_PayloadLen s" "q_pages q' = q_pages q"
    "q_dead q' = q_dead q \<or> (\<exists>dm. q_dead q' = q_dead q @ [dm] \<and> dm_indexRef dm = r \<and> dm_Payload dm = body (q_pages q) s)"
  shows "q_inv F q' \<and> messages q' = (messages q)(s_MsgID s \<mapsto> msg_of (q_pages q) s')"
  using replace_data [OF _ assms(2-9)] assms(1,3) unfolding q_inv_data by blast

lemma restore_lease:
  assumes i: "q_inv F q" and s: "q_slots q r = Some s" "s_State s = StateInflight"
    and sub: "submitCommit io refs recs (drop_lease (s_MsgID s) q) = (res, q2)"
  shows "q_inv F (restoreLeaseLocked (lease_of r s) s q2) \<and> messages (restoreLeaseLocked (lease_of r s) s q2) = messages q"
    "q_wal (restoreLeaseLocked (lease_of r s) s q2) = q_wal q2"
proof -
  note t = lease_taken [OF assms]
  have "s\<lparr>s_State := StateInflight, s_LeaseUntilMs := s_LeaseUntilMs s, s_LeaseNonce := s_LeaseNonce s\<rparr> = s"
    using s(2) by (cases s) simp
  then have eq: "restoreLeaseLocked (lease_of r s) s q2 = grant_lease r s q2"
    using t(7,8) by (simp add: restoreLeaseLocked_def grant_lease_def lease_of_def lease_key_def Let_def)
  have "place_inv {#} {#} {#} ({} - {s_MsgID s}) {#} (grant_lease r s q2)"
    unfolding grant_lease_def by (rule put_lease [OF t(1,2) s(2)])
  then have c: "queue_inv (grant_lease r s q2)" by simp
  have "q_inv F (grant_lease r s q2) \<and> messages (grant_lease r s q2) = (messages q)(s_MsgID s \<mapsto> msg_of (q_pages q) s)"
    by (rule replace_message [OF i s(1) c]) (simp_all add: t(3-5))
  moreover have "(messages q)(s_MsgID s \<mapsto> msg_of (q_pages q) s) = messages q"
    using view_Some [OF q_invD(4) [OF i] s(1)] by (rule map_upd_triv)
  ultimately show "q_inv F (restoreLeaseLocked (lease_of r s) s q2) \<and> messages (restoreLeaseLocked (lease_of r s) s q2) = messages q"
    unfolding eq by simp
  show "q_wal (restoreLeaseLocked (lease_of r s) s q2) = q_wal q2" unfolding eq by simp
qed

text \<open>Deleting a message: its payload slot and its index slot go back to the page store.\<close>

lemma delete_data:
  assumes i: "data_inv F q" and s: "q_slots q r = Some s"
    and c: "core_inv {#} {#} {#} {} X (without r q) q'" and sl: "q_slots q' = without r q"
    and p: "q_pages q' = snd (Release io2 r (snd (Release io1 (s_PayloadRef s) (q_pages q))))"
    and d: "set (q_dead q') \<subseteq> set (q_dead q)"
  shows "data_inv F q' \<and> messages q' = (messages q)(s_MsgID s := None)"
proof (rule data_invI)
  note q = data_invD [OF i]
  show "core_inv {#} {#} {#} {} X (q_slots q') q'" unfolding sl by (rule c)
  have pr: "prefs (q_slots q) r = Some (s_PayloadRef s, s_PayloadLen s)" by (rule prefs_Some [of "q_slots q", OF s])
  note h = heap_free [OF q(2) pr, of io2 io1, folded p prefs_delete]
  show "heap_inv F (prefs (q_slots q')) (q_pages q')" unfolding sl by (rule h(1))
  have b: "body (q_pages q') y = body (q_pages q) y" if "(without r q) x = Some y" for x y
  proof (rule body_same [OF h(2) _ refl refl])
    show "s_PayloadRef y \<in> F \<union> owned (prefs (without r q))"
      using owned_mem [of "prefs (without r q)" x, OF prefs_Some [of "without r q", OF that]] by simp
  qed
  show "view (q_slots q') (q_pages q') ((messages q)(s_MsgID s := None))"
    unfolding sl by (rule view_pages [OF view_delete [OF q(4) s q(1)] b])
  show "dead_ok q'"
    unfolding dead_ok_def sl
  proof (intro ballI allI impI)
    fix dm y assume dm: "dm \<in> set (q_dead q')" and y: "(without r q) (dm_indexRef dm) = Some y"
    have "q_slots q (dm_indexRef dm) = Some y" using y by (simp split: if_splits)
    then have "dm_Payload dm = body (q_pages q) y" using q(3) dm d unfolding dead_ok_def by blast
    then show "dm_Payload dm = body (q_pages q') y" using b [OF y] by simp
  qed
qed

lemma delete_message:
  assumes "q_inv F q" "q_slots q r = Some s" "core_inv {#} {#} {#} {} {#} (without r q) q'" "q_slots q' = without r q"
    "q_pages q' = snd (Release io2 r (snd (Release io1 (s_PayloadRef s) (q_pages q))))" "set (q_dead q') \<subseteq> set (q_dead q)"
  shows "q_inv F q' \<and> messages q' = (messages q)(s_MsgID s := None)"
proof -
  have "data_inv F q' \<and> messages q' = (messages q)(s_MsgID s := None)"
    using delete_data [OF _ assms(2-6)] assms(1) unfolding q_inv_data by blast
  moreover have "queue_inv q'" unfolding assms(4) by (rule assms(3))
  ultimately show ?thesis unfolding q_inv_data by blast
qed

lemma idx_free_fields [simp]:
  "q_slots (idx_free io r q) = without r q" "q_pages (idx_free io r q) = snd (Release io r (q_pages q))"
  "q_dead (idx_free io r q) = q_dead q" "q_cfg (idx_free io r q) = q_cfg q" "q_wal (idx_free io r q) = q_wal q"
  "q_apply (idx_free io r q) = q_apply q" "q_nextMsgID (idx_free io r q) = q_nextMsgID q" "q_reserved (idx_free io r q) = q_reserved q"
  "q_receipts (idx_free io r q) = q_receipts q" "q_stopped (idx_free io r q) = q_stopped q"
  using slots_FreeSlot [of io r "q_idx q" "q_pages q"]
  by (simp_all add: idx_free_def FreeSlot_def split: prod.split)

lemma page_free_fields [simp]:
  "q_idx (page_free io r q) = q_idx q" "q_pages (page_free io r q) = snd (Release io r (q_pages q))"
  "q_dead (page_free io r q) = q_dead q" "q_cfg (page_free io r q) = q_cfg q" "q_wal (page_free io r q) = q_wal q"
  "q_apply (page_free io r q) = q_apply q" "q_nextMsgID (page_free io r q) = q_nextMsgID q" "q_reserved (page_free io r q) = q_reserved q"
  "q_receipts (page_free io r q) = q_receipts q" "q_stopped (page_free io r q) = q_stopped q"
  by (simp_all add: page_free_def)

lemma core_idx_free: "core_inv H D P T X sl q \<Longrightarrow> core_inv H D P T X sl (idx_free io r q)"
  by (rule core_inv_cong [where q = q])
    (use index_inv_FreeSlot [of "q_idx q" io r "q_pages q"] in \<open>auto simp: idx_free_def split: prod.splits\<close>)

lemma core_page_free [simp]: "core_inv H D P T X sl (page_free io r q) = core_inv H D P T X sl q"
  by (simp add: page_free_def)

section \<open>Ack\<close>

definition ack_record :: "u64 \<Rightarrow> u64 \<Rightarrow> Record" where
  "ack_record m nonce = mk_rec OpAck (BAck \<lparr>ak_MsgID = m, ak_Nonce = nonce\<rparr>)"

text \<open>
  What a handler that settles a lease does: a receipt that names no current lease is rejected and
  nothing changes; otherwise the record is committed, and the message map changes as the handler says
  if and only if the commit succeeds.
\<close>

definition settles :: "commit_io \<Rightarrow> string \<Rightarrow> (u64 \<Rightarrow> u64 \<Rightarrow> Record) \<Rightarrow> (u64 \<Rightarrow> (u64 \<rightharpoonup> amsg) \<Rightarrow> (u64 \<rightharpoonup> amsg)) \<Rightarrow>
    Queue \<Rightarrow> (queue_error + unit) \<Rightarrow> Queue \<Rightarrow> bool" where
  "settles io receipt rc upd q res q' \<longleftrightarrow>
    (case current (messages q) receipt of
       None \<Rightarrow> res = Inl ErrBadReceipt \<and> q' = q
     | Some (m, nonce) \<Rightarrow>
         (case submitCommit io [] [rc m nonce] q of
            (cr, qc) \<Rightarrow> q_wal q' = q_wal qc \<and>
              (case cr_err cr of
                 None \<Rightarrow> res = Inr () \<and> messages q' = upd m (messages q)
               | Some e \<Rightarrow> res = Inl e \<and> messages q' = messages q)))"

lemma submit_dropped:
  assumes "submitCommit io refs recs (drop_lease m q) = (cr, q2)"
  obtains qc where "submitCommit io refs recs q = (cr, qc)" "q_wal qc = q_wal q2"
proof -
  have "fst (submitCommit io refs recs (drop_lease m q)) = fst (submitCommit io refs recs q)"
    "q_wal (snd (submitCommit io refs recs (drop_lease m q))) = q_wal (snd (submitCommit io refs recs q))"
    by (rule submitCommit_cong; simp)+
  then show ?thesis using assms that by (cases "submitCommit io refs recs q") simp
qed

lemma Ack_spec:
  assumes i: "q_inv F q" and a: "q_Ack io receipt q = (res, q')"
  shows "q_inv F q' \<and> settles (qi_commit io 0) receipt ack_record (\<lambda>m M. M(m := None)) q res q'"
proof (cases "current (messages q) receipt")
  case None
  then show ?thesis using a i take_lease_bad [OF i None] by (simp add: q_Ack_def settles_def)
next
  case (Some x)
  obtain m nonce where x: "x = (m, nonce)" by force
  obtain r s where s: "q_slots q r = Some s" "s_State s = StateInflight" "s_MsgID s = m" "s_LeaseNonce s = nonce"
    "take_lease receipt q = (Some (m, lease_of r s, s), drop_lease m q)"
    by (rule take_lease_ok [OF i Some [unfolded x]])
  obtain cr q2 where sub: "submitCommit (qi_commit io 0) [] [ack_record m nonce] (drop_lease (s_MsgID s) q) = (cr, q2)" by force
  obtain qc where qc: "submitCommit (qi_commit io 0) [] [ack_record m nonce] q = (cr, qc)" "q_wal qc = q_wal q2"
    by (rule submit_dropped [OF sub])
  note t = lease_taken [OF i s(1,2) sub]
  have li: "li_nonce (lease_of r s) = nonce" "li_indexRef (lease_of r s) = r" using s(4) by (simp_all add: lease_of_def)
  show ?thesis
  proof (cases "cr_err cr")
    case err: (Some e)
    have "res = Inl e" "q' = restoreLeaseLocked (lease_of r s) s q2"
      using a s(3,5) sub err li by (simp_all add: q_Ack_def ack_record_def)
    then show ?thesis
      using restore_lease [OF i s(1,2) sub] Some x qc err by (simp add: settles_def)
  next
    case None
    let ?q3 = "idx_free (qi_release io 1) r (page_free (qi_release io 0) (s_PayloadRef s) q2)"
    have res: "res = Inr ()" and q': "q' = (finish cr ?q3)\<lparr>q_statAcked := q_statAcked (finish cr ?q3) + 1\<rparr>"
      using a s(3,5) sub None li t(8) by (simp_all add: q_Ack_def ack_record_def Let_def)
    have "core_inv {#} {#} {#} {} {#} (without r q) ?q3"
      using core_idx_free [of "{#}" "{#}" "{#}" "{}" "{#}" "without r q"] t(1,3) by simp
    then have "q_inv F q' \<and> messages q' = (messages q)(s_MsgID s := None)"
      by (intro delete_message [OF i s(1), where ?io1.0 = "qi_release io 0" and ?io2.0 = "qi_release io 1"])
        (simp_all add: q' t(3-5))
    then show ?thesis using Some x qc None res s(3) by (simp add: settles_def q')
  qed
qed

section \<open>Nack\<close>

definition nack_at :: "i64 \<Rightarrow> i64 \<Rightarrow> i64" where
  "nack_at now delayMs = (if 0 < sint delayMs then now + delayMs else now)"

text \<open>A message whose attempts are used up is dead-lettered, otherwise it is requeued.\<close>

definition exhausted :: "Config \<Rightarrow> amsg \<Rightarrow> bool" where
  "exhausted cfg a \<longleftrightarrow> 0 < cfg_MaxAttempts cfg \<and> cfg_MaxAttempts cfg \<le> am_attempts a"

definition nack_record :: "Config \<Rightarrow> i64 \<Rightarrow> (u64 \<rightharpoonup> amsg) \<Rightarrow> u64 \<Rightarrow> u64 \<Rightarrow> Record" where
  "nack_record cfg at M m nonce =
    (if exhausted cfg (the (M m)) then mk_rec OpDead (BDead \<lparr>de_MsgID = m, de_Reason = 1\<rparr>)
     else mk_rec OpNack (BNack \<lparr>na_MsgID = m, na_Nonce = nonce, na_RequeueAtMs = at\<rparr>))"

definition nacked :: "Config \<Rightarrow> i64 \<Rightarrow> i64 \<Rightarrow> amsg \<Rightarrow> amsg" where
  "nacked cfg at now2 a =
    a\<lparr>am_status := if exhausted cfg a then Dead else if sint at \<le> sint now2 then Waiting else Later at\<rparr>"

definition nack_upd :: "Config \<Rightarrow> i64 \<Rightarrow> i64 \<Rightarrow> u64 \<Rightarrow> (u64 \<rightharpoonup> amsg) \<Rightarrow> u64 \<rightharpoonup> amsg" where
  "nack_upd cfg at now2 m M = M(m := map_option (nacked cfg at now2) (M m))"

lemma unleased_fields [simp]:
  "s_MsgID (unleased st s) = s_MsgID s" "s_State (unleased st s) = st" "s_PayloadRef (unleased st s) = s_PayloadRef s"
  "s_PayloadLen (unleased st s) = s_PayloadLen s" "s_Priority (unleased st s) = s_Priority s"
  "s_EnqueuedAtMs (unleased st s) = s_EnqueuedAtMs s" "s_Attempts (unleased st s) = s_Attempts s"
  "s_AvailableAtMs (unleased st s) = s_AvailableAtMs s"
  by (simp_all add: unleased_def)

lemma msg_of_update:
  assumes "s_PayloadRef s' = s_PayloadRef s" "s_PayloadLen s' = s_PayloadLen s" "s_Priority s' = s_Priority s"
    "s_EnqueuedAtMs s' = s_EnqueuedAtMs s" "s_Attempts s' = s_Attempts s"
  shows "msg_of p s' = (msg_of p s)\<lparr>am_status := status_of s'\<rparr>"
  unfolding msg_of_def body_def assms by simp

lemma nack_requeue_spec:
  assumes i: "q_inv F q" and s: "q_slots q r = Some s"
    and c: "core_inv {#} {#} {#} {} {#} (without r q2) q2" and f: "fresh_id r (without r q2) (s_MsgID s) q2"
    and e: "q_slots q2 = q_slots q" "q_pages q2 = q_pages q" "q_dead q2 = q_dead q"
    and n: "nack_requeue now2 at r s q2 = (b, q3)"
  shows "q_inv F q3 \<and> messages q3 = (messages q)(s_MsgID s \<mapsto>
      (msg_of (q_pages q) s)\<lparr>am_status := if sint at \<le> sint now2 then Waiting else Later at\<rparr>)"
    "q_wal q3 = q_wal q2" "b = (sint at \<le> sint now2)"
proof -
  let ?st = "if sint at \<le> sint now2 then StateReady else StateDelayed"
  let ?s = "(unleased ?st s)\<lparr>s_AvailableAtMs := at\<rparr>"
  have q3: "q3 = (if sint at \<le> sint now2 then ready_push now2 ?s r (idx_put r ?s q2)
      else (idx_put r ?s q2)\<lparr>q_delayed := tw_add (delayed_key r ?s) (q_delayed q2)\<rparr>)"
    using n by (auto simp: nack_requeue_def delayed_key_def Let_def split: if_splits)
  show "b = (sint at \<le> sint now2)" using n by (auto simp: nack_requeue_def Let_def split: if_splits)
  show "q_wal q3 = q_wal q2" unfolding q3 by simp
  have inv: "queue_inv q3"
  proof (cases "sint at \<le> sint now2")
    case True
    then show ?thesis unfolding q3 if_P [OF True] by (intro put_ready [OF c]) (simp_all add: f)
  next
    case False
    then show ?thesis unfolding q3 if_not_P [OF False] by (intro put_delayed [OF c]) (simp_all add: f)
  qed
  have st: "status_of ?s = (if sint at \<le> sint now2 then Waiting else Later at)"
    by (simp add: status_of_def)
  have m: "msg_of (q_pages q) ?s = (msg_of (q_pages q) s)\<lparr>am_status := if sint at \<le> sint now2 then Waiting else Later at\<rparr>"
    unfolding st [symmetric] by (rule msg_of_update) simp_all
  have "q_inv F q3 \<and> messages q3 = (messages q)(s_MsgID s \<mapsto> msg_of (q_pages q) ?s)"
  proof (rule replace_message [OF i s inv])
    show "q_slots q3 = (q_slots q)(r \<mapsto> ?s)" unfolding q3 by (simp add: e)
    show "q_pages q3 = q_pages q" unfolding q3 by (simp add: e)
    have "q_dead q3 = q_dead q" unfolding q3 by (simp add: e)
    then show "q_dead q3 = q_dead q \<or> (\<exists>dm. q_dead q3 = q_dead q @ [dm] \<and> dm_indexRef dm = r \<and> dm_Payload dm = body (q_pages q) s)" ..
  qed simp_all
  then show "q_inv F q3 \<and> messages q3 = (messages q)(s_MsgID s \<mapsto>
      (msg_of (q_pages q) s)\<lparr>am_status := if sint at \<le> sint now2 then Waiting else Later at\<rparr>)" unfolding m .
qed

lemma deadLetter_spec:
  assumes i: "q_inv F q" and s: "q_slots q r = Some s"
    and c: "core_inv {#} {#} {#} {} {#} (without r q2) q2" and f: "fresh_id r (without r q2) (s_MsgID s) q2"
    and e: "q_slots q2 = q_slots q" "q_pages q2 = q_pages q" "q_dead q2 = q_dead q"
  shows "q_inv F (deadLetterLocked s r (body (q_pages q) s) q2) \<and> messages (deadLetterLocked s r (body (q_pages q) s) q2) =
      (messages q)(s_MsgID s \<mapsto> (msg_of (q_pages q) s)\<lparr>am_status := Dead\<rparr>)" (is "q_inv F ?q3 \<and> _")
    "q_wal (deadLetterLocked s r (body (q_pages q) s) q2) = q_wal q2"
proof -
  note d = put_dead [OF c f, of "body (q_pages q) s"]
  show "q_wal ?q3 = q_wal q2" by (simp add: deadLetterLocked_def)
  have "q_inv F ?q3 \<and> messages ?q3 = (messages q)(s_MsgID s \<mapsto> msg_of (q_pages q) (unleased StateDead s))"
  proof (rule replace_message [OF i s d(1)])
    show "q_slots ?q3 = (q_slots q)(r \<mapsto> unleased StateDead s)" unfolding d(2) by (simp add: e)
    show "q_pages ?q3 = q_pages q" by (simp add: deadLetterLocked_def e)
    show "q_dead ?q3 = q_dead q \<or> (\<exists>dm. q_dead ?q3 = q_dead q @ [dm] \<and> dm_indexRef dm = r \<and> dm_Payload dm = body (q_pages q) s)"
      unfolding d(3) by (rule disjI2) (simp add: e dead_key_def)
  qed simp_all
  moreover have "msg_of (q_pages q) (unleased StateDead s) = (msg_of (q_pages q) s)\<lparr>am_status := status_of (unleased StateDead s)\<rparr>"
    by (rule msg_of_update) simp_all
  moreover have "status_of (unleased StateDead s) = Dead" by (simp add: status_of_def)
  ultimately show "q_inv F ?q3 \<and> messages ?q3 = (messages q)(s_MsgID s \<mapsto> (msg_of (q_pages q) s)\<lparr>am_status := Dead\<rparr>)" by metis
qed

lemma to_dead_exhausted: "q_cfg q2 = q_cfg q \<Longrightarrow> to_dead s q2 \<longleftrightarrow> exhausted (q_cfg q) (msg_of p s)"
  by (simp add: to_dead_def exhausted_def msg_of_def)

lemma Nack_done:
  assumes i: "q_inv F q" and s: "q_slots q r = Some s" "s_State s = StateInflight"
    and sub: "submitCommit io refs recs (drop_lease (s_MsgID s) q) = (cr, q2)"
    and n: "(if to_dead s q2 then map_option (\<lambda>payload. (False, deadLetterLocked s r payload q2)) (readPayloadLocked s q2)
             else Some (nack_requeue now2 at r s q2)) = out"
  obtains b q3 where "out = Some (b, q3)" "q_inv F q3" "q_wal q3 = q_wal q2"
    "messages q3 = (messages q)(s_MsgID s \<mapsto> nacked (q_cfg q) at now2 (msg_of (q_pages q) s))"
proof -
  note t = lease_taken [OF i s sub]
  note d = to_dead_exhausted [OF t(6), of s "q_pages q"]
  show ?thesis
  proof (cases "to_dead s q2")
    case True
    have "readPayloadLocked s q2 = Some (body (q_pages q) s)"
      using readPayload_body [of F "q_slots q" q2 r s] q_invD(2) [OF i] t(4,8) s(1) by simp
    then have "out = Some (False, deadLetterLocked s r (body (q_pages q) s) q2)" using n True by simp
    moreover have "nacked (q_cfg q) at now2 (msg_of (q_pages q) s) = (msg_of (q_pages q) s)\<lparr>am_status := Dead\<rparr>"
      using d True by (simp add: nacked_def)
    ultimately show ?thesis using that deadLetter_spec [OF i s(1) t(1-5)] by metis
  next
    case False
    obtain b q3 where q3: "nack_requeue now2 at r s q2 = (b, q3)" by force
    then have "out = Some (b, q3)" using n False by simp
    moreover have "nacked (q_cfg q) at now2 (msg_of (q_pages q) s) =
        (msg_of (q_pages q) s)\<lparr>am_status := if sint at \<le> sint now2 then Waiting else Later at\<rparr>"
      using d False by (simp add: nacked_def)
    ultimately show ?thesis using that nack_requeue_spec [OF i s(1) t(1-5) q3] by metis
  qed
qed

lemma Nack_spec:
  fixes now delayMs
  assumes i: "q_inv F q" and a: "q_Nack io now now2 receipt delayMs q = (res, q')"
  defines "at \<equiv> nack_at now delayMs"
  shows "q_inv F q' \<and> settles (qi_commit io 0) receipt (nack_record (q_cfg q) at (messages q)) (nack_upd (q_cfg q) at now2) q res q'"
proof (cases "current (messages q) receipt")
  case None
  then show ?thesis using a i take_lease_bad [OF i None] by (simp add: q_Nack_def settles_def)
next
  case (Some x)
  obtain m nonce where x: "x = (m, nonce)" by force
  obtain r s where s: "q_slots q r = Some s" "s_State s = StateInflight" "s_MsgID s = m" "s_LeaseNonce s = nonce"
    "take_lease receipt q = (Some (m, lease_of r s, s), drop_lease m q)"
    by (rule take_lease_ok [OF i Some [unfolded x]])
  let ?rc = "nack_record (q_cfg q) at (messages q) m nonce"
  have M: "messages q m = Some (msg_of (q_pages q) s)" using view_Some [OF q_invD(4) [OF i] s(1)] s(3) by simp
  obtain cr q2 where sub: "submitCommit (qi_commit io 0) [] [?rc] (drop_lease (s_MsgID s) q) = (cr, q2)" by force
  obtain qc where qc: "submitCommit (qi_commit io 0) [] [?rc] q = (cr, qc)" "q_wal qc = q_wal q2"
    by (rule submit_dropped [OF sub])
  note t = lease_taken [OF i s(1,2) sub]
  have li: "li_nonce (lease_of r s) = nonce" "li_indexRef (lease_of r s) = r" using s(4) by (simp_all add: lease_of_def)
  have dead: "to_dead s (drop_lease m q) = exhausted (q_cfg q) (msg_of (q_pages q) s)" "to_dead s q2 = to_dead s (drop_lease m q)"
    using t(6) by (simp_all add: to_dead_def exhausted_def msg_of_def)
  have rc: "?rc = (if to_dead s (drop_lease m q) then mk_rec OpDead (BDead \<lparr>de_MsgID = m, de_Reason = 1\<rparr>)
      else mk_rec OpNack (BNack \<lparr>na_MsgID = m, na_Nonce = nonce, na_RequeueAtMs = at\<rparr>))"
    using M by (simp add: nack_record_def dead(1))
  let ?out = "if to_dead s q2 then map_option (\<lambda>payload. (False, deadLetterLocked s r payload q2)) (readPayloadLocked s q2)
             else Some (nack_requeue now2 at r s q2)"
  have hd: "q_Nack io now now2 receipt delayMs q =
      (case cr_err cr of Some e \<Rightarrow> (Inl e, restoreLeaseLocked (lease_of r s) s q2)
       | None \<Rightarrow> (case ?out of None \<Rightarrow> (Inl Panic, q2)
           | Some (b, q3) \<Rightarrow> (let q4 = finish cr q3; q5 = (if b then notify q4 else q4)
               in (Inr (), q5\<lparr>q_statNacked := q_statNacked q5 + 1\<rparr>))))"
    using s(3,5) sub unfolding rc q_Nack_def at_def [unfolded nack_at_def, symmetric]
    by (cases "to_dead s (drop_lease m q)"; cases "cr_err cr") (simp_all add: li dead(2) Let_def)
  show ?thesis
  proof (cases "cr_err cr")
    case err: (Some e)
    have "res = Inl e" "q' = restoreLeaseLocked (lease_of r s) s q2" using a err unfolding hd by simp_all
    then show ?thesis using restore_lease [OF i s(1,2) sub] Some x qc err by (simp add: settles_def)
  next
    case None
    obtain b q3 where o: "?out = Some (b, q3)" "q_inv F q3" "q_wal q3 = q_wal q2"
      "messages q3 = (messages q)(s_MsgID s \<mapsto> nacked (q_cfg q) at now2 (msg_of (q_pages q) s))"
      by (rule Nack_done [OF i s(1,2) sub refl])
    let ?q5 = "if b then notify (finish cr q3) else finish cr q3"
    have res: "res = Inr ()" "q' = ?q5\<lparr>q_statNacked := q_statNacked ?q5 + 1\<rparr>"
      using a None unfolding hd o(1) by (simp_all add: Let_def)
    have "q_inv F q' \<and> messages q' = messages q3 \<and> q_wal q' = q_wal q3"
      using o(2) by (simp add: res(2))
    then show ?thesis using Some x qc None res(1) s(3) o M by (simp add: settles_def nack_upd_def)
  qed
qed

end
