(* ===== verification/Queue_Lease.thy ===== *)
theory Queue_Lease
  imports Queue_Settle
begin

text \<open>
  \<open>Lease\<close> against the abstract specification: due messages become ready, then the most urgent ready
  messages are leased, each with its payload, one more attempt and a receipt for the new lease; when the
  leases cannot be committed they are taken back.
\<close>

section \<open>Promotion\<close>

definition a_promote :: "i64 \<Rightarrow> amsg \<Rightarrow> amsg" where
  "a_promote now a =
    (case am_status a of Later t \<Rightarrow> if sint t \<le> sint now then a\<lparr>am_status := Waiting\<rparr> else a | _ \<Rightarrow> a)"

definition promote_msgs :: "i64 \<Rightarrow> (u64 \<rightharpoonup> amsg) \<Rightarrow> u64 \<rightharpoonup> amsg" where
  "promote_msgs now M = (\<lambda>m. map_option (a_promote now) (M m))"

lemma msg_of_state:
  "msg_of p (s\<lparr>s_State := StateReady\<rparr>) = (msg_of p s)\<lparr>am_status := Waiting\<rparr>"
  by (simp add: msg_of_def body_def status_of_def split: sum.split)

lemma msg_of_promote: "msg_of p (promote_due now s) = a_promote now (msg_of p s)"
proof (cases "due now s")
  case True
  then have "am_status (msg_of p s) = Later (s_AvailableAtMs s)" "sint (s_AvailableAtMs s) \<le> sint now"
    by (simp_all add: due_def msg_of_def status_of_def)
  then show ?thesis using True by (simp add: promote_due_def a_promote_def msg_of_state)
next
  case False
  then have "am_status (msg_of p s) = Later t \<Longrightarrow> \<not> sint t \<le> sint now" for t
    by (auto simp: due_def msg_of_def status_of_def split: if_splits)
  then show ?thesis using False by (auto simp: promote_due_def a_promote_def split: status.split)
qed

lemma prefs_map:
  assumes "\<And>s. s_PayloadRef (f s) = s_PayloadRef s" "\<And>s. s_PayloadLen (f s) = s_PayloadLen s"
  shows "prefs (\<lambda>r. map_option f (sl r)) = prefs sl"
  using assms by (intro ext) (simp add: prefs_def option.map_comp comp_def)

lemma promote_spec:
  assumes i: "q_inv F q"
  shows "q_inv F (promoteLocked now q) \<and> messages (promoteLocked now q) = promote_msgs now (messages q)"
proof (rule q_invI)
  note q = q_invD [OF i]
  have f: "s_PayloadRef (promote_due now s) = s_PayloadRef s" "s_PayloadLen (promote_due now s) = s_PayloadLen s"
    "s_MsgID (promote_due now s) = s_MsgID s" for s by (simp_all add: promote_due_def)
  note pl = promoteLocked_inv [OF q(1), of now]
  show "queue_inv (promoteLocked now q)" by (rule pl(1))
  show "heap_inv F (prefs (q_slots (promoteLocked now q))) (q_pages (promoteLocked now q))"
    unfolding pl(2) promoteLocked_fields prefs_map [OF f(1,2)] by (rule q(2))
  show "view (q_slots (promoteLocked now q)) (q_pages (promoteLocked now q)) (promote_msgs now (messages q))"
    unfolding pl(2) promoteLocked_fields promote_msgs_def by (rule view_map [OF q(4) f(3) msg_of_promote])
  show "dead_ok (promoteLocked now q)"
  proof (rule dead_ok_update [OF q(3)])
    fix d s assume "q_slots (promoteLocked now q) (dm_indexRef d) = Some s"
    then obtain s0 where "q_slots q (dm_indexRef d) = Some s0" "s = promote_due now s0" unfolding pl(2) by auto
    then show "\<exists>s0. q_slots q (dm_indexRef d) = Some s0 \<and> s_PayloadRef s = s_PayloadRef s0 \<and> s_PayloadLen s = s_PayloadLen s0"
      using f by blast
  qed simp_all
qed

section \<open>Rewriting several slots\<close>

definition same_msg :: "Slot \<Rightarrow> Slot \<Rightarrow> bool" where
  "same_msg s s' \<longleftrightarrow> s_MsgID s' = s_MsgID s \<and> s_PayloadRef s' = s_PayloadRef s \<and> s_PayloadLen s' = s_PayloadLen s"

definition msg_list :: "Store \<Rightarrow> (u64 \<times> Slot) list \<Rightarrow> (u64 \<times> amsg) list" where
  "msg_list p gs = map (\<lambda>(r, s). (s_MsgID s, msg_of p s)) gs"

lemma view_many:
  assumes "view sl p M" "ids_ok n sl" "distinct (map fst gs)"
    "\<And>r s'. (r, s') \<in> set gs \<Longrightarrow> \<exists>s. sl r = Some s \<and> same_msg s s'"
    "\<And>r s'. (r, s') \<in> set gs \<Longrightarrow> s_State s' \<in> {StateReady, StateDelayed, StateInflight, StateDead}"
  shows "view (sl ++ map_of gs) p (M ++ map_of (msg_list p gs))"
  using assms
proof (induction gs arbitrary: sl M)
  case Nil
  then show ?case by (simp add: msg_list_def)
next
  case (Cons g gs)
  obtain r s' where g: "g = (r, s')" by force
  obtain s where s: "sl r = Some s" "same_msg s s'" using Cons.prems(4) [of r s'] g by auto
  have id: "s_MsgID s' = s_MsgID s" using s(2) by (simp add: same_msg_def)
  have nr: "r \<notin> fst ` set gs" using Cons.prems(3) g by simp
  have st: "s_State s' \<in> {StateReady, StateDelayed, StateInflight, StateDead}" using Cons.prems(5) [of r s'] g by simp
  have old: "\<exists>y. sl x = Some y \<and> same_msg y x'" if "(x, x') \<in> set gs" for x x'
    using Cons.prems(4) [of x x'] that by simp
  have IH: "view (sl(r \<mapsto> s') ++ map_of gs) p (M(s_MsgID s \<mapsto> msg_of p s') ++ map_of (msg_list p gs))"
  proof (rule Cons.IH)
    show "view (sl(r \<mapsto> s')) p (M(s_MsgID s \<mapsto> msg_of p s'))" by (rule view_update [OF Cons.prems(1,2) s(1) id])
    show "ids_ok n (sl(r \<mapsto> s'))" by (rule ids_ok_update [OF Cons.prems(2) s(1) id st])
    show "distinct (map fst gs)" using Cons.prems(3) by simp
    fix x x' assume x: "(x, x') \<in> set gs"
    have "x \<noteq> r" using nr x by force
    then show "\<exists>y. (sl(r \<mapsto> s')) x = Some y \<and> same_msg y x'" using old [OF x] by simp
    show "s_State x' \<in> {StateReady, StateDelayed, StateInflight, StateDead}" using Cons.prems(5) [of x x'] x by simp
  qed
  have "r \<notin> dom (map_of gs)" using nr by (simp add: dom_map_of_conv_image_fst)
  then have 1: "sl(r \<mapsto> s') ++ map_of gs = sl ++ map_of (g # gs)" using g by (simp add: map_add_upd_left)
  have "s_MsgID s' \<notin> fst ` set (msg_list p gs)"
  proof
    assume "s_MsgID s' \<in> fst ` set (msg_list p gs)"
    then obtain x x' where x: "(x, x') \<in> set gs" "s_MsgID x' = s_MsgID s'" by (auto simp: msg_list_def)
    obtain y where y: "sl x = Some y" "s_MsgID x' = s_MsgID y" using old [OF x(1)] by (auto simp: same_msg_def)
    have "x = r" by (rule ids_okD(4) [OF Cons.prems(2) s(1) y(1)]) (use x(2) y(2) id in simp)
    then show False using nr x(1) by force
  qed
  then have "s_MsgID s \<notin> dom (map_of (msg_list p gs))" by (simp add: dom_map_of_conv_image_fst id)
  then have 2: "M(s_MsgID s \<mapsto> msg_of p s') ++ map_of (msg_list p gs) = M ++ map_of (msg_list p (g # gs))"
    using g by (simp add: map_add_upd_left msg_list_def id)
  show ?case using IH unfolding 1 2 .
qed

lemma prefs_many:
  assumes "\<And>r s'. (r, s') \<in> set gs \<Longrightarrow> \<exists>s. sl r = Some s \<and> same_msg s s'"
  shows "prefs (sl ++ map_of gs) = prefs sl"
proof
  fix r
  show "prefs (sl ++ map_of gs) r = prefs sl r"
  proof (cases "map_of gs r")
    case (Some s')
    then obtain s where "sl r = Some s" "same_msg s s'" using assms [OF map_of_SomeD [OF Some]] by blast
    then show ?thesis using Some by (simp add: prefs_def same_msg_def map_add_def)
  qed (simp add: prefs_def map_add_def)
qed

lemma replace_messages:
  assumes i: "q_inv F q" and c: "queue_inv q'" and sl: "q_slots q' = q_slots q ++ map_of gs"
    and g: "distinct (map fst gs)" "\<And>r s'. (r, s') \<in> set gs \<Longrightarrow> \<exists>s. q_slots q r = Some s \<and> same_msg s s'"
    and eq: "q_pages q' = q_pages q" "q_dead q' = q_dead q"
  shows "q_inv F q' \<and> messages q' = messages q ++ map_of (msg_list (q_pages q) gs)"
proof (rule q_invI [OF c])
  note q = q_invD [OF i]
  have "prefs (q_slots q ++ map_of gs) = prefs (q_slots q)" by (rule prefs_many) (rule g(2))
  then show "heap_inv F (prefs (q_slots q')) (q_pages q')" using q(2) unfolding sl eq by simp
  have st: "s_State s' \<in> {StateReady, StateDelayed, StateInflight, StateDead}" if "(r, s') \<in> set gs" for r s'
  proof -
    have "map_of gs r = Some s'" by (rule map_of_is_SomeI [OF g(1) that])
    then have "q_slots q' r = Some s'" unfolding sl by (simp add: map_add_def)
    then show ?thesis by (rule ids_okD(3) [OF core_invD(2) [OF c]])
  qed
  show "view (q_slots q') (q_pages q') (messages q ++ map_of (msg_list (q_pages q) gs))"
    unfolding sl eq by (rule view_many [OF q(4,5) g(1)]) (rule g(2), assumption, rule st)
  show "dead_ok q'"
  proof (rule dead_ok_update [OF q(3) eq(2,1)])
    fix d s assume "q_slots q' (dm_indexRef d) = Some s"
    then consider "map_of gs (dm_indexRef d) = Some s" | "q_slots q (dm_indexRef d) = Some s" unfolding sl by auto
    then show "\<exists>s0. q_slots q (dm_indexRef d) = Some s0 \<and> s_PayloadRef s = s_PayloadRef s0 \<and> s_PayloadLen s = s_PayloadLen s0"
    proof cases
      case 1
      then show ?thesis using g(2) [OF map_of_SomeD [OF 1]] by (auto simp: same_msg_def)
    qed blast
  qed
qed

section \<open>Leases on messages\<close>

definition lease_msg :: "i64 \<Rightarrow> u64 \<Rightarrow> amsg \<Rightarrow> amsg" where
  "lease_msg until nonce a = a\<lparr>am_attempts := am_attempts a + 1, am_status := Leased nonce until\<rparr>"

definition delivery_of :: "i64 \<Rightarrow> u64 \<Rightarrow> u64 \<Rightarrow> amsg \<Rightarrow> Delivery" where
  "delivery_of until nonce m a =
    \<lparr>d_ID = m, d_Payload = am_payload a, d_Priority = am_priority a, d_Attempt = am_attempts a + 1,
     d_Receipt = encodeReceipt m (am_attempts a + 1) nonce, d_LeaseUntilMs = until\<rparr>"

definition lease_record :: "i64 \<Rightarrow> u64 \<Rightarrow> u64 \<Rightarrow> amsg \<Rightarrow> Record" where
  "lease_record until nonce m a = mk_rec OpLease
    (BLease \<lparr>le_MsgID = m, le_Nonce = nonce, le_Attempt = am_attempts a + 1, le_LeaseUntilMs = until\<rparr>)"

text \<open>
  The 16-bit attempt counter wraps around, and a rolled-back lease whose counter wrapped to 0 leaves it
  at 0; in every other case the rollback restores the message.
\<close>

definition unlease_msg :: "amsg \<Rightarrow> amsg" where
  "unlease_msg a = a\<lparr>am_attempts := if am_attempts a + 1 = 0 then 0 else am_attempts a\<rparr>"

fun per_lease :: "(u64 \<Rightarrow> u64 \<Rightarrow> amsg \<Rightarrow> 'a) \<Rightarrow> (nat \<Rightarrow> u64) \<Rightarrow> nat \<Rightarrow> (u64 \<rightharpoonup> amsg) \<Rightarrow> u64 list \<Rightarrow> 'a list" where
  "per_lease f nonces i M [] = []"
| "per_lease f nonces i M (m # ms) = f (nonces i) m (the (M m)) # per_lease f nonces (Suc i) M ms"

abbreviation ids_of :: "(u64 \<times> Slot) list \<Rightarrow> u64 list" where
  "ids_of g \<equiv> map (\<lambda>(r, s). s_MsgID s) g"

lemma msg_of_lease: "msg_of p (lease_slot until nonce s) = lease_msg until nonce (msg_of p s)"
  by (simp add: msg_of_def body_def status_of_def lease_slot_def lease_msg_def split: sum.split)

lemma msg_of_unlease:
  "s_State s = StateReady \<Longrightarrow> msg_of p (unlease_back (lease_slot until nonce s)) = unlease_msg (msg_of p s)"
  by (auto simp: msg_of_def body_def status_of_def lease_slot_def unlease_back_def unleased_def unlease_msg_def Let_def
      word_gt_0 split: sum.split)

lemma fill_payload_body:
  assumes "fits (s_PayloadRef s, s_PayloadLen s) p"
  shows "fill_payload p (mk_leased until nonce s) = delivery_of until nonce (s_MsgID s) (msg_of p s)"
  using assms by (auto simp: fits_def fill_payload_def mk_leased_def delivery_of_def msg_of_def body_def)

lemma ls_rec_mk: "ls_rec (mk_leased until nonce s) = lease_record until nonce (s_MsgID s) (msg_of p s)"
  by (simp add: lease_record_def mk_rec_def mk_leased_def msg_of_def)

lemma leases_per_lease:
  assumes "\<forall>(r, s) \<in> set g. M (s_MsgID s) = Some (msg_of p s) \<and> fits (s_PayloadRef s, s_PayloadLen s) p"
  shows "map (fill_payload p) (leases nonces until i g) = per_lease (delivery_of until) nonces i M (ids_of g) \<and>
    map ls_rec (leases nonces until i g) = per_lease (lease_record until) nonces i M (ids_of g) \<and>
    msg_list p (granted nonces until i g) = per_lease (\<lambda>nonce m a. (m, lease_msg until nonce a)) nonces i M (ids_of g)"
  using assms
  by (induction nonces until i g rule: leases.induct)
    (auto simp: msg_list_def fill_payload_body ls_rec_mk [of _ _ _ p] msg_of_lease)

lemma unleased_list:
  assumes "\<forall>(r, s) \<in> set g. s_State s = StateReady"
  shows "msg_list p (map (\<lambda>(r, s). (r, unlease_back s)) (granted nonces until i g)) =
    map (\<lambda>(r, s). (s_MsgID s, unlease_msg (msg_of p s))) g"
  using assms
  by (induction nonces until i g rule: granted.induct) (auto simp: msg_list_def msg_of_unlease)

lemma map_of_unleased:
  assumes "\<forall>(r, s) \<in> set g. M (s_MsgID s) = Some (msg_of p s)"
  shows "map_of (map (\<lambda>(r, s). (s_MsgID s, unlease_msg (msg_of p s))) g) m =
      (if m \<in> set (ids_of g) then map_option unlease_msg (M m) else None)"
  using assms by (induction g) auto

lemma unlease_all:
  assumes "\<forall>(r, s) \<in> set g. M (s_MsgID s) = Some (msg_of p s)"
  shows "M ++ map_of (map (\<lambda>(r, s). (s_MsgID s, unlease_msg (msg_of p s))) g) =
    (\<lambda>m. map_option (if m \<in> set (ids_of g) then unlease_msg else (\<lambda>a. a)) (M m))"
proof
  fix m
  have "M m \<noteq> None" if "m \<in> set (ids_of g)" using that assms by auto
  then show "(M ++ map_of (map (\<lambda>(r, s). (s_MsgID s, unlease_msg (msg_of p s))) g)) m =
      map_option (if m \<in> set (ids_of g) then unlease_msg else (\<lambda>a. a)) (M m)"
    unfolding map_add_def map_of_unleased [OF assms] by (auto simp: map_option.identity split: option.split)
qed

section \<open>The messages that are taken\<close>

text \<open>
  The entries of the ready heap name the messages whose status is \<open>Waiting\<close>.
\<close>

lemma ready_entry:
  assumes "q_inv F q" "e \<in> set (rh_entries (q_ready q))"
  obtains s where "q_slots q (he_indexRef e) = Some s" "s_State s = StateReady" "s_MsgID s = he_msgID e"
proof -
  have "e\<lparr>he_cachedPri := 0\<rparr> \<in># ready_view q + {#}" using assms(2) by (simp add: ready_view_def)
  then obtain r s where s: "q_slots q r = Some s" "s_State s = StateReady" "ready_key r s = e\<lparr>he_cachedPri := 0\<rparr>"
    using rt.member [OF core_invD(3) [OF q_invD(1) [OF assms(1)]]] by blast
  have "r = he_indexRef e" "s_MsgID s = he_msgID e"
    using arg_cong [OF s(3), of he_indexRef] arg_cong [OF s(3), of he_msgID] by (simp_all add: ready_key_def)
  then show ?thesis using that s by simp
qed

lemma drain_heap:
  assumes "q_inv F q" "k \<le> rh_Len (q_ready q)"
  shows "set (fst (drain rh_pop k (q_ready q))) \<subseteq> set (rh_entries (q_ready q))" "length (fst (drain rh_pop k (q_ready q))) = k"
proof -
  obtain es h' where d: "drain rh_pop k (q_ready q) = (es, h')" by force
  have "rh_inv (q_dir q) (q_ready q)" using core_invD(1) [OF q_invD(1) [OF assms(1)]] by (simp add: shape_inv_def)
  moreover have "k \<le> size (rh_elems (q_ready q))" using assms(2) by (simp add: rh_elems_def rh_Len_def)
  ultimately have m: "mset (rh_entries (q_ready q)) = mset es + mset (rh_entries h')" "length es = k"
    using rhq.drain_ordered [OF _ _ d] unfolding rh_elems_def by blast+
  from arg_cong [OF m(1), of set_mset] have "set es \<subseteq> set (rh_entries (q_ready q))" by simp
  then show "set (fst (drain rh_pop k (q_ready q))) \<subseteq> set (rh_entries (q_ready q))" "length (fst (drain rh_pop k (q_ready q))) = k"
    using d m(2) by simp_all
qed

context tracker
begin

lemma size_card:
  assumes "tracks key st M sl"
  shows "size M = card {r. \<exists>s. sl r = Some s \<and> s_State s = st}"
proof -
  let ?R = "{r. \<exists>s. sl r = Some s \<and> s_State s = st}"
  have "count M k \<le> 1" for k using assms unfolding tracks_def by (simp split: if_splits)
  then have "M = mset_set (set_mset M)"
    by (intro multiset_eqI) (simp add: count_mset_set' not_in_iff order.antisym)
  then have "size M = card (set_mset M)" by (metis size_mset_set)
  also have "set_mset M = (\<lambda>r. key r (the (sl r))) ` ?R"
    by (auto simp: member [OF assms] image_iff) (metis option.sel)+
  also have "card \<dots> = card ?R" by (rule card_image) (auto simp: inj_on_def dest: key_ref)
  finally show ?thesis .
qed

end

text \<open>References and ids of the messages in one state correspond.\<close>

lemma card_ids:
  assumes "q_inv F q"
  shows "card {r. \<exists>s. q_slots q r = Some s \<and> Q s} = card {m. \<exists>r s. q_slots q r = Some s \<and> s_MsgID s = m \<and> Q s}"
proof -
  let ?R = "{r. \<exists>s. q_slots q r = Some s \<and> Q s}"
  have inj: "inj_on (\<lambda>r. s_MsgID (the (q_slots q r))) ?R"
  proof (rule inj_onI)
    fix x y assume "x \<in> ?R" "y \<in> ?R" and eq: "s_MsgID (the (q_slots q x)) = s_MsgID (the (q_slots q y))"
    then obtain s s' where s: "q_slots q x = Some s" "q_slots q y = Some s'" by blast
    have "s_MsgID s = s_MsgID s'" using eq unfolding s by simp
    then show "x = y" by (rule ids_okD(4) [OF q_invD(5) [OF assms] s(2,1)])
  qed
  have "(\<lambda>r. s_MsgID (the (q_slots q r))) ` ?R = {m. \<exists>r s. q_slots q r = Some s \<and> s_MsgID s = m \<and> Q s}"
  proof (intro set_eqI iffI)
    fix m assume "m \<in> {m. \<exists>r s. q_slots q r = Some s \<and> s_MsgID s = m \<and> Q s}"
    then obtain r s where "q_slots q r = Some s" "s_MsgID s = m" "Q s" by blast
    then show "m \<in> (\<lambda>r. s_MsgID (the (q_slots q r))) ` ?R" by (intro image_eqI [of _ _ r]) simp_all
  next
    fix m assume "m \<in> (\<lambda>r. s_MsgID (the (q_slots q r))) ` ?R"
    then obtain r s where "q_slots q r = Some s" "Q s" "m = s_MsgID (the (q_slots q r))" by blast
    then have "q_slots q r = Some s \<and> s_MsgID s = m \<and> Q s" by simp
    then show "m \<in> {m. \<exists>r s. q_slots q r = Some s \<and> s_MsgID s = m \<and> Q s}" by blast
  qed
  then show ?thesis using card_image [OF inj] by simp
qed

definition with_status :: "(status \<Rightarrow> bool) \<Rightarrow> (u64 \<rightharpoonup> amsg) \<Rightarrow> u64 set" where
  "with_status Q M = {m. \<exists>a. M m = Some a \<and> Q (am_status a)}"

lemma with_status_slots:
  assumes "q_inv F q"
  shows "with_status Q (messages q) = {m. \<exists>r s. q_slots q r = Some s \<and> s_MsgID s = m \<and> Q (status_of s)}"
proof -
  have "am_status (msg_of p s) = status_of s" for p s by (simp add: msg_of_def)
  then have "Q (am_status a) \<longleftrightarrow> Q (status_of s)" if "a = msg_of p s" for a p s using that by simp
  then show ?thesis unfolding with_status_def viewD [OF q_invD(4) [OF assms]] by blast
qed

lemma state_status:
  assumes "q_inv F q" "q_slots q r = Some s"
  shows "s_State s = StateReady \<longleftrightarrow> status_of s = Waiting" "s_State s = StateDelayed \<longleftrightarrow> (\<exists>t. status_of s = Later t)"
    "s_State s = StateInflight \<longleftrightarrow> (\<exists>n u. status_of s = Leased n u)" "s_State s = StateDead \<longleftrightarrow> status_of s = Dead"
  using ids_okD(3) [OF q_invD(5) [OF assms(1)] assms(2)] by (auto simp: status_of_def)

lemma ready_count:
  assumes "q_inv F q"
  shows "rh_Len (q_ready q) = card (with_status (\<lambda>st. st = Waiting) (messages q))"
proof -
  have "rh_Len (q_ready q) = size (ready_view q + {#})" by (simp add: ready_view_def rh_Len_def)
  also have "\<dots> = card {r. \<exists>s. q_slots q r = Some s \<and> s_State s = StateReady}"
    by (rule rt.size_card [OF core_invD(3) [OF q_invD(1) [OF assms]]])
  also have "\<dots> = card {m. \<exists>r s. q_slots q r = Some s \<and> s_MsgID s = m \<and> s_State s = StateReady}" by (rule card_ids [OF assms])
  also have "\<dots> = card (with_status (\<lambda>st. st = Waiting) (messages q))"
    unfolding with_status_slots [OF assms] using state_status(1) [OF assms] by metis
  finally show ?thesis .
qed

section \<open>Lease\<close>

definition lease_max :: "int \<Rightarrow> nat" where
  "lease_max mx = (if mx \<le> 0 then 1 else nat mx)"

definition lease_until :: "i64 \<Rightarrow> i64 \<Rightarrow> Queue \<Rightarrow> i64" where
  "lease_until now vis q = now + (if sint vis \<le> 0 then visibilityMs (q_cfg q) else vis)"

text \<open>
  The messages \<open>ms\<close> are the ones that a lease of at most \<open>mx\<close> has to take: as many waiting messages as
  there are up to the limit, in the order in which the ready heap gives them out.
\<close>

definition lease_choice :: "nat \<Rightarrow> readyHeap \<Rightarrow> (u64 \<rightharpoonup> amsg) \<Rightarrow> u64 list \<Rightarrow> bool" where
  "lease_choice mx h M ms \<longleftrightarrow> distinct ms \<and> set ms \<subseteq> with_status (\<lambda>st. st = Waiting) M \<and>
     length ms = min mx (card (with_status (\<lambda>st. st = Waiting) M)) \<and>
     ms = map he_msgID (fst (drain rh_pop (length ms) h))"

definition lease_result :: "(nat \<Rightarrow> u64) \<Rightarrow> i64 \<Rightarrow> (u64 \<rightharpoonup> amsg) \<Rightarrow> u64 list \<Rightarrow> queue_error option \<Rightarrow>
    (queue_error + Delivery list) \<Rightarrow> (u64 \<rightharpoonup> amsg) \<Rightarrow> bool" where
  "lease_result nonces until M ms err res M' \<longleftrightarrow>
    (case err of
       None \<Rightarrow> res = Inr (per_lease (delivery_of until) nonces 0 M ms) \<and>
               M' = M ++ map_of (per_lease (\<lambda>nonce m a. (m, lease_msg until nonce a)) nonces 0 M ms)
     | Some e \<Rightarrow> res = Inl e \<and> M' = (\<lambda>m. map_option (if m \<in> set ms then unlease_msg else (\<lambda>a. a)) (M m)))"

definition lease_err :: "commit_io \<Rightarrow> (nat \<Rightarrow> u64) \<Rightarrow> i64 \<Rightarrow> (u64 \<rightharpoonup> amsg) \<Rightarrow> u64 list \<Rightarrow> Queue \<Rightarrow> queue_error option" where
  "lease_err io nonces until M ms q =
    (if cfg_DurableLeases (q_cfg q) \<and> ms \<noteq> []
     then cr_err (fst (submitCommit io [] (per_lease (lease_record until) nonces 0 M ms) q)) else None)"

text \<open>What the loop takes, in terms of the messages.\<close>

lemma lease_taken_ids:
  assumes i: "q_inv F q" and g: "length g = min mx (rh_Len (q_ready q))" "distinct (map fst g)"
    "\<forall>(r, s) \<in> set g. q_slots q r = Some s \<and> s_State s = StateReady"
    "map fst g = map he_indexRef (fst (drain rh_pop (length g) (q_ready q)))"
  shows "lease_choice mx (q_ready q) (messages q) (ids_of g)"
    "\<forall>(r, s) \<in> set g. messages q (s_MsgID s) = Some (msg_of (q_pages q) s) \<and> fits (s_PayloadRef s, s_PayloadLen s) (q_pages q)"
proof -
  note q = q_invD [OF i]
  let ?es = "fst (drain rh_pop (length g) (q_ready q))"
  have d: "set ?es \<subseteq> set (rh_entries (q_ready q))" "length ?es = length g" using drain_heap [OF i, of "length g"] g(1) by simp_all
  have slot: "q_slots q r = Some s \<and> s_State s = StateReady" if "(r, s) \<in> set g" for r s using g(3) that by blast
  show "\<forall>(r, s) \<in> set g. messages q (s_MsgID s) = Some (msg_of (q_pages q) s) \<and> fits (s_PayloadRef s, s_PayloadLen s) (q_pages q)"
  proof (intro ballI, clarify)
    fix r s assume "(r, s) \<in> set g"
    then have s: "q_slots q r = Some s" using slot by blast
    show "messages q (s_MsgID s) = Some (msg_of (q_pages q) s) \<and> fits (s_PayloadRef s, s_PayloadLen s) (q_pages q)"
      using view_Some [OF q(4) s] heap_invD(6) [OF q(2) prefs_Some [of "q_slots q", OF s]] by blast
  qed
  have ids: "ids_of g = map he_msgID ?es"
  proof (rule nth_equalityI)
    fix k assume "k < length (ids_of g)"
    then have k: "k < length g" "k < length ?es" using d(2) by simp_all
    obtain r s where rs: "g ! k = (r, s)" by force
    have s: "q_slots q r = Some s" using slot [of r s] rs nth_mem [OF k(1)] by simp
    have r: "r = he_indexRef (?es ! k)" using arg_cong [OF g(4), of "\<lambda>xs. xs ! k"] rs k by simp
    obtain s' where s': "q_slots q (he_indexRef (?es ! k)) = Some s'" "s_MsgID s' = he_msgID (?es ! k)"
      by (rule ready_entry [OF i, of "?es ! k"]) (use d(1) nth_mem [OF k(2)] in blast)
    then have "s' = s" using s unfolding r by simp
    then show "ids_of g ! k = map he_msgID ?es ! k" using s'(2) rs k by simp
  qed (simp add: d(2))
  have dist: "distinct (ids_of g)"
    unfolding distinct_conv_nth
  proof (intro allI impI)
    fix j k assume jk: "j < length (ids_of g)" "k < length (ids_of g)" "j \<noteq> k"
    obtain r s r' s' where rs: "g ! j = (r, s)" "g ! k = (r', s')" by force
    have "q_slots q r = Some s" "q_slots q r' = Some s'"
      using slot [of r s] slot [of r' s'] rs nth_mem [of j g] nth_mem [of k g] jk by simp_all
    moreover have "r \<noteq> r'" using nth_eq_iff_index_eq [OF g(2), of j k] rs jk by simp
    ultimately have "s_MsgID s \<noteq> s_MsgID s'" using ids_okD(4) [OF q(5), of r s r' s'] by metis
    then show "ids_of g ! j \<noteq> ids_of g ! k" using rs jk by simp
  qed
  have sub: "set (ids_of g) \<subseteq> with_status (\<lambda>st. st = Waiting) (messages q)"
  proof
    fix m assume "m \<in> set (ids_of g)"
    then obtain r s where rs: "(r, s) \<in> set g" "m = s_MsgID s" by auto
    note s = slot [OF rs(1)]
    then have "status_of s = Waiting" using state_status(1) [OF i, of r s] by blast
    then show "m \<in> with_status (\<lambda>st. st = Waiting) (messages q)"
      unfolding with_status_slots [OF i] using s rs(2) by blast
  qed
  show "lease_choice mx (q_ready q) (messages q) (ids_of g)"
    unfolding lease_choice_def
  proof (intro conjI dist sub)
    have len: "length (ids_of g) = length g" by simp
    show "length (ids_of g) = min mx (card (with_status (\<lambda>st. st = Waiting) (messages q)))"
      unfolding len g(1) ready_count [OF i] ..
    show "ids_of g = map he_msgID (fst (drain rh_pop (length (ids_of g)) (q_ready q)))" unfolding len by (rule ids)
  qed
qed

lemma granted_same:
  "(r, s') \<in> set (granted nonces until i g) \<Longrightarrow> \<exists>s. (r, s) \<in> set g \<and> same_msg s s' \<and> s_State s' = StateInflight"
  by (induction nonces until i g rule: granted.induct) (auto simp: same_msg_def)

definition taken :: "nat \<Rightarrow> Queue \<Rightarrow> (u64 \<times> Slot) list \<Rightarrow> bool" where
  "taken mx q g \<longleftrightarrow> length g = min mx (rh_Len (q_ready q)) \<and> distinct (map fst g) \<and>
     (\<forall>(r, s) \<in> set g. q_slots q r = Some s \<and> s_State s = StateReady) \<and>
     map fst g = map he_indexRef (fst (drain rh_pop (length g) (q_ready q)))"

lemma takenD:
  assumes "taken mx q g"
  shows "length g = min mx (rh_Len (q_ready q))" "distinct (map fst g)"
    "\<forall>(r, s) \<in> set g. q_slots q r = Some s \<and> s_State s = StateReady"
    "map fst g = map he_indexRef (fst (drain rh_pop (length g) (q_ready q)))"
  using assms unfolding taken_def by blast+

lemma granted_slots:
  assumes "taken mx q g" "(r, s') \<in> set (granted nonces until 0 g)"
  shows "\<exists>s. q_slots q r = Some s \<and> same_msg s s'"
  using granted_same [OF assms(2)] takenD(3) [OF assms(1)] by blast

lemma lease_loop_msgs:
  assumes i: "q_inv F q" and l: "lease_loop nonces until 0 mx q = (ls, q1)"
  obtains g where "taken mx q g" "ls = leases nonces until 0 g" "q_slots q1 = q_slots q ++ map_of (granted nonces until 0 g)"
    "same_base q q1" "q_inv F q1"
    "messages q1 = messages q ++ map_of (per_lease (\<lambda>nonce m a. (m, lease_msg until nonce a)) nonces 0 (messages q) (ids_of g))"
proof -
  obtain g where g: "taken mx q g" "ls = leases nonces until 0 g" "q_slots q1 = q_slots q ++ map_of (granted nonces until 0 g)"
    "queue_inv q1" "same_base q q1"
    using lease_loop_spec [OF q_invD(1) [OF i] l] unfolding taken_def diff_zero by blast
  have dist: "distinct (map fst (granted nonces until 0 g))" using takenD(2) [OF g(1)] by simp
  have base: "q_pages q1 = q_pages q" "q_dead q1 = q_dead q" using g(5) by (simp_all add: same_base_def)
  have "q_inv F q1 \<and> messages q1 = messages q ++ map_of (msg_list (q_pages q) (granted nonces until 0 g))"
    by (rule replace_messages [OF i g(4,3) dist granted_slots [OF g(1)] base])
  moreover note leases_per_lease [OF lease_taken_ids(2) [OF i takenD [OF g(1)]], of nonces until 0]
  ultimately show ?thesis using that [OF g(1-3,5)] by simp
qed

lemma lease_rollback:
  fixes now
  assumes i: "q_inv F q" and g: "taken mx q g" and c: "queue_inv q2"
    and sl: "q_slots q2 = q_slots q ++ map_of (granted nonces until 0 g)" and eq: "q_pages q2 = q_pages q" "q_dead q2 = q_dead q"
  defines "q' \<equiv> rollbackLeases now (map ls_delivery (leases nonces until 0 g)) q2"
  shows "q_inv F q' \<and> messages q' = (\<lambda>m. map_option (if m \<in> set (ids_of g) then unlease_msg else (\<lambda>a. a)) (messages q m))"
proof -
  let ?gr = "granted nonces until 0 g" and ?undo = "map (\<lambda>(r, s). (r, unlease_back s)) (granted nonces until 0 g)"
  have dist: "distinct (map fst ?gr)" using takenD(2) [OF g] by simp
  have "\<forall>(r, s) \<in> set ?gr. q_slots q2 r = Some s"
    unfolding sl using map_of_is_SomeI [OF dist] by (auto simp: map_add_Some_iff)
  note rb = rollback_spec [OF c takenD(2) [OF g] this, of now, folded rollbackLeases_def, folded q'_def]
  have "map_of ?gr ++ map_of ?undo = map_of ?undo"
    by (rule ext) (simp add: map_add_def map_of_map_snd split: option.split)
  then have sl': "q_slots q' = q_slots q ++ map_of ?undo" using rb unfolding sl by (simp add: map_add_assoc [symmetric])
  have eq': "q_pages q' = q_pages q" "q_dead q' = q_dead q" using rb eq by (simp_all add: same_base_def)
  have slot: "\<exists>s. q_slots q r = Some s \<and> same_msg s s'" if s': "(r, s') \<in> set ?undo" for r s'
  proof -
    obtain s1 where s1: "(r, s1) \<in> set ?gr" "s' = unlease_back s1" using s' by auto
    then show ?thesis using granted_slots [OF g s1(1)] by (auto simp: same_msg_def)
  qed
  have "distinct (map fst ?undo)" unfolding fst_map_snd by (rule dist)
  note rm = replace_messages [OF i conjunct1 [OF rb] sl' this slot eq']
  have rdy: "\<forall>(r, s) \<in> set g. s_State s = StateReady" "\<forall>(r, s) \<in> set g. messages q (s_MsgID s) = Some (msg_of (q_pages q) s)"
    using takenD(3) [OF g] lease_taken_ids(2) [OF i takenD [OF g]] by blast+
  then show ?thesis using rm unfolding unleased_list [OF rdy(1)] unlease_all [OF rdy(2)] by blast
qed

lemma Lease_panic:
  assumes "q_inv F q" "q_Lease io nonces now now2 mx vis q = (res, q')" "leaseCap < mx"
  shows "q_inv F q' \<and> res = Inl Panic \<and> messages q' = promote_msgs now (messages q)"
  using promote_spec [OF assms(1), of now] assms(2,3) by (simp add: q_Lease_def)

lemma Lease_spec:
  fixes now vis mx
  assumes i: "q_inv F q" and l: "q_Lease io nonces now now2 mx vis q = (res, q')" and mx: "\<not> leaseCap < mx"
  defines "M \<equiv> promote_msgs now (messages q)" and "until \<equiv> lease_until now vis q"
  shows "q_inv F q' \<and> (\<exists>ms. lease_choice (lease_max mx) (q_ready (promoteLocked now q)) M ms \<and>
    lease_result nonces until M ms (lease_err (qi_commit io 0) nonces until M ms q) res (messages q'))"
proof -
  let ?q0 = "promoteLocked now q"
  have i0: "q_inv F ?q0" and M0: "messages ?q0 = M" using promote_spec [OF i, of now] unfolding M_def by blast+
  obtain ls q1 where lp: "lease_loop nonces until 0 (lease_max mx) ?q0 = (ls, q1)" by force
  obtain g where g: "taken (lease_max mx) ?q0 g" "ls = leases nonces until 0 g"
    "q_slots q1 = q_slots ?q0 ++ map_of (granted nonces until 0 g)" "same_base ?q0 q1" "q_inv F q1"
    "messages q1 = M ++ map_of (per_lease (\<lambda>nonce m a. (m, lease_msg until nonce a)) nonces 0 M (ids_of g))"
    by (rule lease_loop_msgs [OF i0 lp, unfolded M0])
  let ?recs = "per_lease (lease_record until) nonces 0 M (ids_of g)"
  note t = lease_taken_ids [OF i0 takenD [OF g(1)]]
  note pl = leases_per_lease [OF t(2), of nonces until 0, folded g(2), unfolded M0]
  have base: "q_cfg q1 = q_cfg q" "q_wal q1 = q_wal q" "q_apply q1 = q_apply q" "q_stopped q1 = q_stopped q"
    "q_pages q1 = q_pages q" using g(4) by (simp_all add: same_base_def)
  define fin where "fin = (\<lambda>qx :: Queue. (Inr (map (fill_payload (q_pages qx)) ls) :: queue_error + Delivery list,
      qx\<lparr>q_statDelivered := q_statDelivered qx + word_of_nat (length ls)\<rparr>))"
  have fin: "q_inv F (snd (fin qx)) \<and> lease_result nonces until M (ids_of g) None (fst (fin qx)) (messages (snd (fin qx)))"
    if "q_inv F qx" "messages qx = messages q1" "q_pages qx = q_pages q" for qx
    using that pl g(6) by (simp add: fin_def lease_result_def)
  have recs: "(if cfg_DurableLeases (q_cfg q1) then map ls_rec ls else []) = (if cfg_DurableLeases (q_cfg q) then ?recs else [])"
    using pl base(1) by simp
  have lq: "q_Lease io nonces now now2 mx vis q =
      (if \<not> (cfg_DurableLeases (q_cfg q) \<and> ids_of g \<noteq> []) then fin q1
       else (case submitCommit (qi_commit io 0) [] ?recs q1 of
               (res, q2) \<Rightarrow> (case cr_err res of
                    Some e \<Rightarrow> (Inl e, rollbackLeases now2 (map ls_delivery ls) q2)
                  | None \<Rightarrow> fin (finish res q2))))"
    using lp unfolding q_Lease_def until_def [unfolded lease_until_def, symmetric] lease_max_def [symmetric] Let_def
    by (cases g) (simp_all add: mx recs fin_def split: prod.split option.split)
  have "q_inv F q' \<and> lease_result nonces until M (ids_of g) (lease_err (qi_commit io 0) nonces until M (ids_of g) q) res (messages q')"
  proof (cases "cfg_DurableLeases (q_cfg q) \<and> ids_of g \<noteq> []")
    case False
    have "fin q1 = (res, q')" "lease_err (qi_commit io 0) nonces until M (ids_of g) q = None"
      using l False unfolding lq lease_err_def by auto
    then show ?thesis using fin [OF g(5) refl base(5)] by simp
  next
    case True
    obtain cr q2 where sub: "submitCommit (qi_commit io 0) [] ?recs q1 = (cr, q2)" by force
    have err: "lease_err (qi_commit io 0) nonces until M (ids_of g) q = cr_err cr"
      unfolding lease_err_def if_P [OF True]
      using submitCommit_cong(1) [OF base(4,2,5,3), of "qi_commit io 0" "[]" ?recs] sub by simp
    note e = submitCommit_same [OF sub] and e' = submitCommit_q_inv [OF sub]
    show ?thesis
    proof (cases "cr_err cr")
      case None
      then have "fin (finish cr q2) = (res, q')" using l True sub unfolding lq by simp
      then show ?thesis using fin [of "finish cr q2"] e' e(8) g(5) base(5) err None by simp
    next
      case (Some x)
      then have r: "res = Inl x" "q' = rollbackLeases now2 (map ls_delivery (leases nonces until 0 g)) q2"
        using l True sub g(2) unfolding lq by simp_all
      have c: "queue_inv q2" using q_invD(1) [OF g(5)] e(7,12) by simp
      have "q_inv F q' \<and> messages q' = (\<lambda>m. map_option (if m \<in> set (ids_of g) then unlease_msg else (\<lambda>a. a)) (M m))"
        unfolding r(2) M0 [symmetric]
        by (rule lease_rollback [OF i0 g(1) c]) (use e g(3,4) in \<open>simp_all add: same_base_def\<close>)
      then show ?thesis unfolding err Some lease_result_def r(1) by simp
    qed
  qed
  then show ?thesis using t(1) unfolding M0 by blast
qed

end
