(* ===== verification/Queue_Tick.thy ===== *)
theory Queue_Tick
  imports Queue_Lease
begin

text \<open>
  The background tick against the abstract specification: due messages become ready, expired leases are
  given up (the message is ready again, or dead if its attempts are used up), and a checkpoint changes
  no message.
\<close>

section \<open>Withdrawn leases\<close>

text \<open>
  Between the critical sections of a tick, leases are withdrawn: their entries \<open>P\<close> are out of the wheel
  and their receipts \<open>T\<close> are gone, but the slots still say in flight.
\<close>

abbreviation held_inv :: "u64 set \<Rightarrow> wheelEntry multiset \<Rightarrow> u64 set \<Rightarrow> Queue \<Rightarrow> bool" where
  "held_inv F P T q \<equiv> place_inv {#} {#} P T {#} q \<and> data_inv F q"

lemma held_entry:
  assumes "held_inv F (add_mset e P) T q"
  obtains r s where "q_slots q r = Some s" "s_State s = StateInflight" "e = lease_key r s" "r = we_indexRef e"
    "s_MsgID s = we_msgID e" "we_nonce e = s_LeaseNonce s"
proof -
  have "e \<in># mset (q_inflight q) + add_mset e P" by simp
  then obtain r s where s: "q_slots q r = Some s" "s_State s = StateInflight" "lease_key r s = e"
    using it.member [OF core_invD(5) [OF conjunct1 [OF assms]]] by blast
  show ?thesis by (rule that [OF s(1,2) s(3) [symmetric]]) (simp_all add: s(3) [symmetric] lease_key_def)
qed

lemma held_removed:
  assumes h: "held_inv F (add_mset (lease_key r s) P) (insert (s_MsgID s) T) q"
    and s: "q_slots q r = Some s" "s_State s = StateInflight" and T: "s_MsgID s \<notin> T"
  shows "core_inv {#} {#} P T {#} (without r q) q" "fresh_id r (without r q) (s_MsgID s) q"
proof -
  have "core_inv {#} {#} P (insert (s_MsgID s) T - {s_MsgID s}) {#} (without r q) q"
    by (rule remove_lease [OF conjunct1 [OF h] s]) simp
  then show "core_inv {#} {#} P T {#} (without r q) q" using T by simp
  show "fresh_id r (without r q) (s_MsgID s) q" by (rule fresh_removed [OF conjunct1 [OF h] s(1) refl])
qed

lemma held_ready:
  fixes now
  assumes h: "held_inv F (add_mset (lease_key r s) P) (insert (s_MsgID s) T) q"
    and s: "q_slots q r = Some s" "s_State s = StateInflight" and T: "s_MsgID s \<notin> T"
  defines "q' \<equiv> ready_push now s r (idx_put r (unleased StateReady s) q)"
  shows "held_inv F P T q'" "messages q' = (messages q)(s_MsgID s \<mapsto> (msg_of (q_pages q) s)\<lparr>am_status := Waiting\<rparr>)"
proof -
  note rm = held_removed [OF h s T]
  have c: "place_inv {#} {#} P T {#} q'"
    unfolding q'_def by (rule put_ready [OF rm(1)]) (simp_all add: rm(2))
  have "data_inv F q' \<and> messages q' = (messages q)(s_MsgID s \<mapsto> msg_of (q_pages q) (unleased StateReady s))"
    by (rule replace_data [OF conjunct2 [OF h] s(1) c]) (simp_all add: q'_def)
  moreover have "msg_of (q_pages q) (unleased StateReady s) = (msg_of (q_pages q) s)\<lparr>am_status := status_of (unleased StateReady s)\<rparr>"
    by (rule msg_of_update) simp_all
  moreover have "status_of (unleased StateReady s) = Waiting" by (simp add: status_of_def)
  ultimately show "held_inv F P T q'" "messages q' = (messages q)(s_MsgID s \<mapsto> (msg_of (q_pages q) s)\<lparr>am_status := Waiting\<rparr>)"
    using c by simp_all
qed

lemma held_dead:
  assumes h: "held_inv F (add_mset (lease_key r s) P) (insert (s_MsgID s) T) q"
    and s: "q_slots q r = Some s" "s_State s = StateInflight" and T: "s_MsgID s \<notin> T"
  defines "q' \<equiv> deadLetterLocked s r (body (q_pages q) s) q"
  shows "held_inv F P T q'" "messages q' = (messages q)(s_MsgID s \<mapsto> (msg_of (q_pages q) s)\<lparr>am_status := Dead\<rparr>)"
    "q_slots q' = (q_slots q)(r \<mapsto> unleased StateDead s)" "q_pages q' = q_pages q" "q_cfg q' = q_cfg q"
proof -
  note rm = held_removed [OF h s T]
  note d = put_dead [OF rm, of "body (q_pages q) s", folded q'_def]
  show "q_slots q' = (q_slots q)(r \<mapsto> unleased StateDead s)" by (rule d(2))
  show pg: "q_pages q' = q_pages q" "q_cfg q' = q_cfg q" by (simp_all add: q'_def deadLetterLocked_def)
  have dd: "q_dead q' = q_dead q \<or> (\<exists>dm. q_dead q' = q_dead q @ [dm] \<and> dm_indexRef dm = r \<and> dm_Payload dm = body (q_pages q) s)"
    unfolding d(3) by (rule disjI2) (simp add: dead_key_def)
  have "data_inv F q' \<and> messages q' = (messages q)(s_MsgID s \<mapsto> msg_of (q_pages q) (unleased StateDead s))"
    by (rule replace_data [OF conjunct2 [OF h] s(1) d(1,2) _ _ _ pg(1) dd]) simp_all
  moreover have "msg_of (q_pages q) (unleased StateDead s) = (msg_of (q_pages q) s)\<lparr>am_status := status_of (unleased StateDead s)\<rparr>"
    by (rule msg_of_update) simp_all
  moreover have "status_of (unleased StateDead s) = Dead" by (simp add: status_of_def)
  ultimately show "held_inv F P T q'" "messages q' = (messages q)(s_MsgID s \<mapsto> (msg_of (q_pages q) s)\<lparr>am_status := Dead\<rparr>)"
    using d(1) by simp_all
qed

lemma held_restore:
  assumes h: "held_inv F (add_mset (lease_key r s) P) (insert (s_MsgID s) T) q"
    and s: "q_slots q r = Some s" "s_State s = StateInflight" and T: "s_MsgID s \<notin> T"
  defines "q' \<equiv> restoreLeaseLocked (lease_of r s) s q"
  shows "held_inv F P T q'" "messages q' = messages q" "q_slots q' = q_slots q" "q_pages q' = q_pages q" "q_cfg q' = q_cfg q"
proof -
  note rm = held_removed [OF h s T]
  have "map_of (q_receipts q) (s_MsgID s) = None"
    using receipts_okD [OF core_invD(7) [OF conjunct1 [OF h]], of "s_MsgID s"] by (metis insertI1 not_None_eq)
  moreover have "s_MsgID s \<noteq> 0" by (rule ids_okD(1) [OF data_invD(1) [OF conjunct2 [OF h]] s(1)])
  moreover have "s\<lparr>s_State := StateInflight, s_LeaseUntilMs := s_LeaseUntilMs s, s_LeaseNonce := s_LeaseNonce s\<rparr> = s"
    using s(2) by (cases s) simp
  ultimately have eq: "q' = grant_lease r s q"
    by (simp add: q'_def restoreLeaseLocked_def grant_lease_def lease_of_def lease_key_def Let_def)
  have "place_inv {#} {#} P (T - {s_MsgID s}) {#} q'"
    unfolding eq grant_lease_def by (rule put_lease [OF rm s(2)])
  then have c: "place_inv {#} {#} P T {#} q'" using T by simp
  have dd: "data_inv F q' \<and> messages q' = (messages q)(s_MsgID s \<mapsto> msg_of (q_pages q) s)"
    by (rule replace_data [OF conjunct2 [OF h] s(1) c]) (simp_all add: eq)
  then show "held_inv F P T q'" using c by blast
  have "(messages q)(s_MsgID s \<mapsto> msg_of (q_pages q) s) = messages q"
    using view_Some [OF data_invD(4) [OF conjunct2 [OF h]] s(1)] by (rule map_upd_triv)
  then show "messages q' = messages q" using dd by simp
  show "q_slots q' = q_slots q" "q_pages q' = q_pages q" "q_cfg q' = q_cfg q"
    unfolding eq using s(1) by (simp_all add: map_upd_triv)
qed

section \<open>The expiry loop\<close>

abbreviation pend :: "expiredEntry list \<Rightarrow> expiredEntry list" where
  "pend xs \<equiv> filter ee_toDead xs"

abbreviation pend_keys :: "expiredEntry list \<Rightarrow> wheelEntry multiset" where
  "pend_keys xs \<equiv> mset (map (\<lambda>x. lease_key (ee_indexRef x) (ee_slot x)) (pend xs))"

abbreviation pend_ids :: "expiredEntry list \<Rightarrow> u64 list" where
  "pend_ids xs \<equiv> map ee_msgID (pend xs)"

definition pend_ok :: "expiredEntry \<Rightarrow> Queue \<Rightarrow> bool" where
  "pend_ok x q \<longleftrightarrow> q_slots q (ee_indexRef x) = Some (ee_slot x) \<and> s_State (ee_slot x) = StateInflight \<and>
     s_MsgID (ee_slot x) = ee_msgID x \<and> ee_info x = lease_of (ee_indexRef x) (ee_slot x)"

definition expire_wait :: "Config \<Rightarrow> amsg \<Rightarrow> amsg" where
  "expire_wait cfg a = (if exhausted cfg a then a else a\<lparr>am_status := Waiting\<rparr>)"

definition map_some :: "u64 set \<Rightarrow> (amsg \<Rightarrow> amsg) \<Rightarrow> (u64 \<rightharpoonup> amsg) \<Rightarrow> u64 \<rightharpoonup> amsg" where
  "map_some S f M = (\<lambda>m. if m \<in> S then map_option f (M m) else M m)"

lemma map_some_insert:
  "M m = Some a \<Longrightarrow> m \<notin> S \<Longrightarrow> map_some S f (M(m \<mapsto> f a)) = map_some (insert m S) f M"
  by (rule ext) (simp add: map_some_def)

lemma map_some_fixed: "M m = Some a \<Longrightarrow> f a = a \<Longrightarrow> m \<notin> S \<Longrightarrow> map_some (insert m S) f M = map_some S f M"
  by (rule ext) (simp add: map_some_def)

lemma withdraw_held:
  assumes h: "held_inv F P T q" and q': "q' = q\<lparr>q_receipts := AList.delete m (q_receipts q), q_statExpired := n\<rparr>"
  shows "held_inv F P (insert m T) q'" "messages q' = messages q"
proof -
  note c = core_invD [OF conjunct1 [OF h]]
  have "receipts_ok (insert m T) (map_of (AList.delete m (q_receipts q))) (q_slots q)"
    using receipts_withdraw [OF c(7), of m] by simp
  then have "place_inv {#} {#} P (insert m T) {#} q'"
    using c unfolding q' by (simp add: core_inv_def shape_inv_def q_dir_def ready_view_def dead_view_def)
  moreover have "data_inv F q'" using conjunct2 [OF h] unfolding q' by (simp add: data_inv_def dead_ok_def)
  ultimately show "held_inv F P (insert m T) q'" by blast
  show "messages q' = messages q" by (rule messages_cong) (simp_all add: q')
qed

text \<open>One expired entry: the lease is found and withdrawn; the message becomes ready, or waits for its dead letter.\<close>

lemma expire_step:
  assumes h: "held_inv F (add_mset e P) T q" and T: "we_msgID e \<notin> T"
  obtains r s q2 where "q_slots q r = Some s" "s_State s = StateInflight" "e = lease_key r s" "s_MsgID s = we_msgID e"
    "r = we_indexRef e" "held_inv F (add_mset e P) (insert (we_msgID e) T) q2" "messages q2 = messages q" "q_idx q2 = q_idx q"
    "q_cfg q2 = q_cfg q" "q_pages q2 = q_pages q"
    "expire_loop now (e # es) q =
      (if to_dead s q2 then
         (case expire_loop now es q2 of
            (xs, pr, q3) \<Rightarrow> (\<lparr>ee_msgID = we_msgID e, ee_nonce = we_nonce e, ee_toDead = True,
               ee_indexRef = we_indexRef e, ee_slot = s, ee_info = lease_of r s\<rparr> # xs, pr, q3))
       else
         (case expire_loop now es (ready_push now s r (idx_put r (unleased StateReady s) q2)) of
            (xs, _, q3) \<Rightarrow> (\<lparr>ee_msgID = we_msgID e, ee_nonce = we_nonce e, ee_toDead = False,
               ee_indexRef = 0, ee_slot = zero_slot, ee_info = zero_info\<rparr> # xs, True, q3)))"
proof -
  obtain r s where s: "q_slots q r = Some s" "s_State s = StateInflight" "e = lease_key r s" "r = we_indexRef e"
    "s_MsgID s = we_msgID e" "we_nonce e = s_LeaseNonce s" by (rule held_entry [OF h])
  let ?q2 = "q\<lparr>q_receipts := AList.delete (we_msgID e) (q_receipts q), q_statExpired := q_statExpired q + 1\<rparr>"
  have rc: "map_of (q_receipts q) (we_msgID e) = Some (lease_of r s)"
    using receipts_okD [OF core_invD(7) [OF conjunct1 [OF h]], of "we_msgID e" "lease_of r s"] T s by blast
  have nc: "li_nonce (lease_of x s) = we_nonce e" for x using s(6) by (simp add: lease_of_def)
  have get: "GetByRef (we_indexRef e) (q_idx q) = Some s" using s(1,4) by (simp add: GetByRef_slots)
  show ?thesis
    by (rule that [OF s(1-3,5,4) withdraw_held [OF h refl, where m = "we_msgID e" and n = "q_statExpired q + 1"]])
      (simp_all add: rc nc get Let_def s(4))
qed

definition expired_out :: "u64 set \<Rightarrow> wheelEntry multiset \<Rightarrow> u64 set \<Rightarrow> u64 set \<Rightarrow> Queue \<Rightarrow> expiredEntry list \<Rightarrow> Queue \<Rightarrow> bool" where
  "expired_out F P T E q xs q' \<longleftrightarrow> held_inv F (pend_keys xs + P) (set (pend_ids xs) \<union> T) q' \<and>
    (\<forall>x \<in> set (pend xs). pend_ok x q' \<and> exhausted (q_cfg q) (msg_of (q_pages q) (ee_slot x))) \<and>
    distinct (pend_ids xs) \<and> set (pend_ids xs) \<subseteq> E \<and>
    messages q' = map_some E (expire_wait (q_cfg q)) (messages q) \<and> q_cfg q' = q_cfg q \<and> q_pages q' = q_pages q \<and>
    (\<forall>r s. q_slots q r = Some s \<and> s_MsgID s \<notin> E \<longrightarrow> q_slots q' r = Some s)"

lemma expired_outD:
  assumes "expired_out F P T E q xs q'"
  shows "held_inv F (pend_keys xs + P) (set (pend_ids xs) \<union> T) q'"
    "x \<in> set (pend xs) \<Longrightarrow> pend_ok x q' \<and> exhausted (q_cfg q) (msg_of (q_pages q) (ee_slot x))"
    "distinct (pend_ids xs)" "set (pend_ids xs) \<subseteq> E" "messages q' = map_some E (expire_wait (q_cfg q)) (messages q)"
    "q_cfg q' = q_cfg q" "q_pages q' = q_pages q" "q_slots q r = Some s \<Longrightarrow> s_MsgID s \<notin> E \<Longrightarrow> q_slots q' r = Some s"
  using assms unfolding expired_out_def by blast+

lemma expired_outI:
  assumes "held_inv F (pend_keys xs + P) (set (pend_ids xs) \<union> T) q'"
    "\<And>x. x \<in> set (pend xs) \<Longrightarrow> pend_ok x q' \<and> exhausted (q_cfg q) (msg_of (q_pages q) (ee_slot x))"
    "distinct (pend_ids xs)" "set (pend_ids xs) \<subseteq> E" "messages q' = map_some E (expire_wait (q_cfg q)) (messages q)"
    "q_cfg q' = q_cfg q" "q_pages q' = q_pages q" "\<And>r s. q_slots q r = Some s \<Longrightarrow> s_MsgID s \<notin> E \<Longrightarrow> q_slots q' r = Some s"
  shows "expired_out F P T E q xs q'"
  using assms unfolding expired_out_def by blast

lemma expire_dead:
  assumes ih: "expired_out F (add_mset (lease_key r s) P) (insert (s_MsgID s) T) E q2 xs q'"
    and q2: "messages q2 = messages q" "q_idx q2 = q_idx q" "q_cfg q2 = q_cfg q" "q_pages q2 = q_pages q"
    and s: "q_slots q r = Some s" "s_State s = StateInflight" "messages q (s_MsgID s) = Some (msg_of (q_pages q) s)"
    and E: "s_MsgID s \<notin> E" and ex: "exhausted (q_cfg q) (msg_of (q_pages q) s)"
    and x: "ee_toDead x" "ee_msgID x = s_MsgID s" "ee_indexRef x = r" "ee_slot x = s" "ee_info x = lease_of r s"
  shows "expired_out F P T (insert (s_MsgID s) E) q (x # xs) q'"
proof (rule expired_outI)
  note o = expired_outD [OF ih]
  show "held_inv F (pend_keys (x # xs) + P) (set (pend_ids (x # xs)) \<union> T) q'" using o(1) x by simp
  show "distinct (pend_ids (x # xs))" using o(3,4) E x by auto
  show "set (pend_ids (x # xs)) \<subseteq> insert (s_MsgID s) E" using o(4) x by auto
  show "messages q' = map_some (insert (s_MsgID s) E) (expire_wait (q_cfg q)) (messages q)"
    unfolding o(5) q2(1,3) using ex by (intro map_some_fixed [of "messages q", OF s(3) _ E, symmetric]) (simp add: expire_wait_def)
  show "q_cfg q' = q_cfg q" "q_pages q' = q_pages q" using o(6,7) q2 by simp_all
  have slots: "q_slots q' r' = Some s'" if "q_slots q r' = Some s'" "s_MsgID s' \<notin> E" for r' s'
    using o(8) [of r' s'] that q2(2) by simp
  then show "q_slots q' r' = Some s'" if "q_slots q r' = Some s'" "s_MsgID s' \<notin> insert (s_MsgID s) E" for r' s'
    using that by blast
  have "pend_ok x q'" unfolding pend_ok_def x using slots [OF s(1) E] s(2) by simp
  then show "pend_ok y q' \<and> exhausted (q_cfg q) (msg_of (q_pages q) (ee_slot y))" if "y \<in> set (pend (x # xs))" for y
    using that o(2) [of y] q2(3,4) ex x by auto
qed

lemma expire_requeue:
  assumes ih: "expired_out F P T E q3 xs q'"
    and q3: "messages q3 = (messages q)(s_MsgID s \<mapsto> (msg_of (q_pages q) s)\<lparr>am_status := Waiting\<rparr>)"
    "q_slots q3 = (q_slots q)(r \<mapsto> s')" "q_cfg q3 = q_cfg q" "q_pages q3 = q_pages q"
    and s: "q_slots q r = Some s" "messages q (s_MsgID s) = Some (msg_of (q_pages q) s)"
    and E: "s_MsgID s \<notin> E" and ex: "\<not> exhausted (q_cfg q) (msg_of (q_pages q) s)" and x: "\<not> ee_toDead x"
  shows "expired_out F P T (insert (s_MsgID s) E) q (x # xs) q'"
proof (rule expired_outI)
  note o = expired_outD [OF ih]
  show "held_inv F (pend_keys (x # xs) + P) (set (pend_ids (x # xs)) \<union> T) q'" using o(1) x by simp
  show "distinct (pend_ids (x # xs))" "set (pend_ids (x # xs)) \<subseteq> insert (s_MsgID s) E" using o(3,4) x by auto
  have "(msg_of (q_pages q) s)\<lparr>am_status := Waiting\<rparr> = expire_wait (q_cfg q) (msg_of (q_pages q) s)"
    using ex by (simp add: expire_wait_def)
  then show "messages q' = map_some (insert (s_MsgID s) E) (expire_wait (q_cfg q)) (messages q)"
    unfolding o(5) q3(1,3) using map_some_insert [of "messages q", OF s(2) E, of "expire_wait (q_cfg q)"] by simp
  show "q_cfg q' = q_cfg q" "q_pages q' = q_pages q" using o(6,7) q3 by simp_all
  show "q_slots q' r' = Some y" if "q_slots q r' = Some y" "s_MsgID y \<notin> insert (s_MsgID s) E" for r' y
  proof (rule o(8))
    have "r' \<noteq> r" using that s(1) by auto
    then show "q_slots q3 r' = Some y" using that(1) q3(2) by simp
  qed (use that in blast)
  show "pend_ok y q' \<and> exhausted (q_cfg q) (msg_of (q_pages q) (ee_slot y))" if "y \<in> set (pend (x # xs))" for y
    using that o(2) [of y] q3(3,4) x by auto
qed

lemma expire_loop_spec:
  assumes "held_inv F (mset es + P) T q" "distinct (map we_msgID es)" "we_msgID ` set es \<inter> T = {}"
    "expire_loop now es q = (xs, pr, q')"
  shows "expired_out F P T (we_msgID ` set es) q xs q'"
  using assms
proof (induction es arbitrary: T q xs pr q' P)
  case Nil
  then show ?case by (intro expired_outI) (simp_all add: map_some_def)
next
  case (Cons e es)
  have h: "held_inv F (add_mset e (mset es + P)) T q" "we_msgID e \<notin> T" using Cons.prems(1,3) by simp_all
  obtain r s q2 where s: "q_slots q r = Some s" "s_State s = StateInflight" "e = lease_key r s" "s_MsgID s = we_msgID e"
    "r = we_indexRef e" "held_inv F (add_mset e (mset es + P)) (insert (we_msgID e) T) q2" "messages q2 = messages q"
    "q_idx q2 = q_idx q" "q_cfg q2 = q_cfg q" "q_pages q2 = q_pages q" and
    step: "expire_loop now (e # es) q =
      (if to_dead s q2 then
         (case expire_loop now es q2 of
            (xs, pr, q3) \<Rightarrow> (\<lparr>ee_msgID = we_msgID e, ee_nonce = we_nonce e, ee_toDead = True,
               ee_indexRef = we_indexRef e, ee_slot = s, ee_info = lease_of r s\<rparr> # xs, pr, q3))
       else
         (case expire_loop now es (ready_push now s r (idx_put r (unleased StateReady s) q2)) of
            (xs, _, q3) \<Rightarrow> (\<lparr>ee_msgID = we_msgID e, ee_nonce = we_nonce e, ee_toDead = False,
               ee_indexRef = 0, ee_slot = zero_slot, ee_info = zero_info\<rparr> # xs, True, q3)))"
    by (rule expire_step [OF h])
  have dist: "distinct (map we_msgID es)" "s_MsgID s \<notin> we_msgID ` set es" using Cons.prems(2) s(4) by simp_all
  have E: "we_msgID ` set (e # es) = insert (s_MsgID s) (we_msgID ` set es)" using s(4) by simp
  have M: "messages q (s_MsgID s) = Some (msg_of (q_pages q) s)"
    by (rule view_Some [OF data_invD(4) [OF conjunct2 [OF h(1)]] s(1)])
  have T: "s_MsgID s \<notin> T" using h(2) s(4) by simp
  note td = to_dead_exhausted [OF s(9), of s "q_pages q"]
  show ?case
  proof (cases "to_dead s q2")
    case True
    obtain xs1 pr1 q3 where l: "expire_loop now es q2 = (xs1, pr1, q3)" by (metis prod_cases3)
    have hk: "held_inv F (mset es + add_mset (lease_key r s) P) (insert (s_MsgID s) T) q2"
      using s(6) unfolding s(4) s(3) [symmetric] by simp
    have dj: "we_msgID ` set es \<inter> insert (s_MsgID s) T = {}" using dist(2) Cons.prems(3) by auto
    show ?thesis
      using Cons.prems(4) expire_dead [OF Cons.IH [OF hk dist(1) dj l] s(7-10) s(1,2) M dist(2)] td True s(4,5)
      unfolding step l E if_P [OF True] by auto
  next
    case False
    let ?q3 = "ready_push now s r (idx_put r (unleased StateReady s) q2)"
    obtain xs1 pr1 q3 where l: "expire_loop now es ?q3 = (xs1, pr1, q3)" by (metis prod_cases3)
    have hk: "held_inv F (add_mset (lease_key r s) (mset es + P)) (insert (s_MsgID s) T) q2"
      using s(6) unfolding s(4) s(3) [symmetric] by simp
    have s2: "q_slots q2 r = Some s" using s(1,8) by simp
    note hr = held_ready [OF hk s2 s(2) T, of now]
    have dj: "we_msgID ` set es \<inter> T = {}" using Cons.prems(3) by auto
    have "xs = \<lparr>ee_msgID = we_msgID e, ee_nonce = we_nonce e, ee_toDead = False,
               ee_indexRef = 0, ee_slot = zero_slot, ee_info = zero_info\<rparr> # xs1" "q' = q3"
      using Cons.prems(4) unfolding step l if_not_P [OF False] by simp_all
    then show ?thesis
      unfolding E
      using expire_requeue [OF Cons.IH [OF hr(1) dist(1) dj l], of q s r "unleased StateReady s" "hd xs"] hr(2) s(1,7-10) M dist(2) td False
      by simp
  qed
qed

section \<open>The records of a tick\<close>

text \<open>The record of an expired lease, in terms of the message, and in terms of the entry of the loop.\<close>

definition tick_record :: "Config \<Rightarrow> (u64 \<rightharpoonup> amsg) \<Rightarrow> u64 \<Rightarrow> Record" where
  "tick_record cfg M m =
    (case M m of
       None \<Rightarrow> mk_rec OpExpire (BExpire \<lparr>ex_MsgID = m, ex_Nonce = 0\<rparr>)
     | Some a \<Rightarrow>
         (if exhausted cfg a then mk_rec OpDead (BDead \<lparr>de_MsgID = m, de_Reason = 2\<rparr>)
          else mk_rec OpExpire (BExpire \<lparr>ex_MsgID = m, ex_Nonce = (case am_status a of Leased n u \<Rightarrow> n | _ \<Rightarrow> 0)\<rparr>)))"

definition entry_record :: "expiredEntry \<Rightarrow> Record" where
  "entry_record x =
    (if ee_toDead x then mk_rec OpDead (BDead \<lparr>de_MsgID = ee_msgID x, de_Reason = 2\<rparr>)
     else mk_rec OpExpire (BExpire \<lparr>ex_MsgID = ee_msgID x, ex_Nonce = ee_nonce x\<rparr>))"

lemma expire_loop_records:
  assumes "held_inv F (mset es + P) T q" "distinct (map we_msgID es)" "we_msgID ` set es \<inter> T = {}"
    "expire_loop now es q = (xs, pr, q')" "\<forall>e \<in> set es. messages q (we_msgID e) = M (we_msgID e)"
  shows "map entry_record xs = map (tick_record (q_cfg q) M) (map we_msgID es)"
  using assms
proof (induction es arbitrary: T q xs pr q' P)
  case (Cons e es)
  have h: "held_inv F (add_mset e (mset es + P)) T q" "we_msgID e \<notin> T" using Cons.prems(1,3) by simp_all
  obtain r s q2 where s: "q_slots q r = Some s" "s_State s = StateInflight" "e = lease_key r s" "s_MsgID s = we_msgID e"
    "r = we_indexRef e" "held_inv F (add_mset e (mset es + P)) (insert (we_msgID e) T) q2" "messages q2 = messages q"
    "q_idx q2 = q_idx q" "q_cfg q2 = q_cfg q" "q_pages q2 = q_pages q" and
    step: "expire_loop now (e # es) q =
      (if to_dead s q2 then
         (case expire_loop now es q2 of
            (xs, pr, q3) \<Rightarrow> (\<lparr>ee_msgID = we_msgID e, ee_nonce = we_nonce e, ee_toDead = True,
               ee_indexRef = we_indexRef e, ee_slot = s, ee_info = lease_of r s\<rparr> # xs, pr, q3))
       else
         (case expire_loop now es (ready_push now s r (idx_put r (unleased StateReady s) q2)) of
            (xs, _, q3) \<Rightarrow> (\<lparr>ee_msgID = we_msgID e, ee_nonce = we_nonce e, ee_toDead = False,
               ee_indexRef = 0, ee_slot = zero_slot, ee_info = zero_info\<rparr> # xs, True, q3)))"
    by (rule expire_step [OF h])
  have dist: "distinct (map we_msgID es)" "s_MsgID s \<notin> we_msgID ` set es" using Cons.prems(2) s(4) by simp_all
  have "messages q (s_MsgID s) = Some (msg_of (q_pages q) s)"
    by (rule view_Some [OF data_invD(4) [OF conjunct2 [OF h(1)]] s(1)])
  then have M: "M (we_msgID e) = Some (msg_of (q_pages q) s)" using Cons.prems(5) s(4) by simp
  have n: "am_status (msg_of (q_pages q) s) = Leased (we_nonce e) (we_deadline e)"
    unfolding s(3) using s(2) by (simp add: msg_of_def status_of_def lease_key_def)
  note td = to_dead_exhausted [OF s(9), of s "q_pages q"]
  have rec: "tick_record (q_cfg q) M (we_msgID e) =
      (if to_dead s q2 then mk_rec OpDead (BDead \<lparr>de_MsgID = we_msgID e, de_Reason = 2\<rparr>)
       else mk_rec OpExpire (BExpire \<lparr>ex_MsgID = we_msgID e, ex_Nonce = we_nonce e\<rparr>))"
    by (simp add: tick_record_def M td n)
  have hk: "held_inv F (add_mset (lease_key r s) (mset es + P)) (insert (s_MsgID s) T) q2"
    using s(6) unfolding s(4) s(3) [symmetric] by simp
  show ?case
  proof (cases "to_dead s q2")
    case True
    obtain xs1 pr1 q3 where l: "expire_loop now es q2 = (xs1, pr1, q3)" by (metis prod_cases3)
    have hk': "held_inv F (mset es + add_mset (lease_key r s) P) (insert (s_MsgID s) T) q2" using hk by simp
    have dj: "we_msgID ` set es \<inter> insert (s_MsgID s) T = {}" using dist(2) Cons.prems(3) by auto
    have eq: "\<forall>e \<in> set es. messages q2 (we_msgID e) = M (we_msgID e)" using Cons.prems(5) s(7) by simp
    show ?thesis
      using Cons.prems(4) Cons.IH [OF hk' dist(1) dj l eq] rec True s(9)
      unfolding step l if_P [OF True] by (auto simp: entry_record_def)
  next
    case False
    let ?q3 = "ready_push now s r (idx_put r (unleased StateReady s) q2)"
    obtain xs1 pr1 q3 where l: "expire_loop now es ?q3 = (xs1, pr1, q3)" by (metis prod_cases3)
    have s2: "q_slots q2 r = Some s" and T: "s_MsgID s \<notin> T" using s(1,4,8) h(2) by simp_all
    note hr = held_ready [OF hk s2 s(2) T, of now]
    have dj: "we_msgID ` set es \<inter> T = {}" using Cons.prems(3) by auto
    have eq: "\<forall>e \<in> set es. messages ?q3 (we_msgID e) = M (we_msgID e)"
    proof
      fix y assume y: "y \<in> set es"
      then have "we_msgID y \<noteq> s_MsgID s" using dist(2) by (metis image_eqI)
      then show "messages ?q3 (we_msgID y) = M (we_msgID y)" unfolding hr(2) using Cons.prems(5) s(7) y by simp
    qed
    have c: "q_cfg ?q3 = q_cfg q" using s(9) by simp
    show ?thesis
      using Cons.prems(4) Cons.IH [OF hr(1) dist(1) dj l eq] rec False
      unfolding step l if_not_P [OF False] c by (auto simp: entry_record_def)
  qed
qed simp

section \<open>The commits of a tick\<close>

lemma data_inv_cong:
  assumes "q_idx q' = q_idx q" "q_pages q' = q_pages q" "q_dead q' = q_dead q" "q_nextMsgID q' = q_nextMsgID q"
  shows "data_inv F q' = data_inv F q"
  unfolding data_inv_def dead_ok_def assms ..

lemma held_commit:
  assumes "submitCommit io refs recs q = (res, q1)"
  shows "held_inv F P T q1 = held_inv F P T q" "messages q1 = messages q"
proof -
  note e = submitCommit_same [OF assms]
  show "held_inv F P T q1 = held_inv F P T q"
    unfolding e(12) e(7) using data_inv_cong [OF e(7,8,6,9)] by simp
  show "messages q1 = messages q" by (rule messages_cong [OF e(7,8)])
qed

lemma held_finish [simp]: "data_inv F (finish res q) = data_inv F q"
  by (rule data_inv_cong) simp_all

definition dead_msg :: "amsg \<Rightarrow> amsg" where
  "dead_msg a = a\<lparr>am_status := Dead\<rparr>"

lemma pend_other:
  assumes "pend_ok x q" "pend_ok y q" "ee_msgID y \<noteq> ee_msgID x" "q_slots q' = (q_slots q)(ee_indexRef x := v)"
  shows "pend_ok y q'"
proof -
  have "ee_indexRef y \<noteq> ee_indexRef x" using assms(1-3) unfolding pend_ok_def by auto
  then show ?thesis using assms(2,4) unfolding pend_ok_def by simp
qed

text \<open>
  The messages whose \<open>OpDead\<close> record is appended when the records are committed one after another, with the
  outcome \<open>io i\<close> for the i-th; a stopped queue commits nothing.
\<close>

fun died :: "(nat \<Rightarrow> commit_io) \<Rightarrow> bool \<Rightarrow> nat \<Rightarrow> Record list \<Rightarrow> WAL \<Rightarrow> u64 set" where
  "died io stopped i [] w = {}"
| "died io stopped i (r # rs) w =
    (if stopped then {}
     else (case AppendBatch (ci_wal (io i)) w [r] of
             (Inl e, w') \<Rightarrow> died io stopped (Suc i) rs w'
           | (Inr l, w') \<Rightarrow>
               (case rec_Body r of BDead d \<Rightarrow> {de_MsgID d} | _ \<Rightarrow> {}) \<union> died io stopped (Suc i) rs w'))"

lemma commit_one:
  assumes "submitCommit io [] [r] q = (res, q1)"
  shows "q_stopped q1 = q_stopped q"
    "q_stopped q \<Longrightarrow> cr_err res \<noteq> None"
    "\<not> q_stopped q \<Longrightarrow> (cr_err res = None \<longleftrightarrow> \<not> isl (fst (AppendBatch (ci_wal io) (q_wal q) [r]))) \<and>
       q_wal q1 = snd (AppendBatch (ci_wal io) (q_wal q) [r])"
  using assms submitCommit_same(11) [OF assms]
  by (auto simp: submitCommit_def commit_flush_def store_Sync_def Let_def split: if_splits sum.splits prod.splits)

lemma died_stopped: "died io True i rs w = {}"
  by (cases rs) simp_all

lemma died_step:
  assumes "submitCommit (io i) [] [r] q = (res, q1)" "q_wal q2 = q_wal q1" "q_stopped q2 = q_stopped q1"
  shows "died io (q_stopped q) i (r # rs) (q_wal q) =
    (if cr_err res = None then (case rec_Body r of BDead d \<Rightarrow> {de_MsgID d} | _ \<Rightarrow> {}) else {}) \<union>
    died io (q_stopped q2) (Suc i) rs (q_wal q2)"
  using commit_one [OF assms(1)] assms(2,3)
  by (cases "q_stopped q") (auto simp: died_stopped split: prod.splits sum.splits)

lemma settled_wal:
  "q_wal (finish res q) = q_wal q" "q_stopped (finish res q) = q_stopped q"
  "q_wal (deadLetterLocked s r p q) = q_wal q" "q_stopped (deadLetterLocked s r p q) = q_stopped q"
  "q_wal (restoreLeaseLocked info s q) = q_wal q" "q_stopped (restoreLeaseLocked info s q) = q_stopped q"
  by (simp_all add: finish_def deadLetterLocked_def restoreLeaseLocked_def Let_def)

text \<open>One withdrawn lease: its message becomes a dead letter, or the lease is restored.\<close>

lemma expire_commit_one:
  assumes h: "held_inv F (pend_keys (x # xs)) (set (pend_ids (x # xs))) q" and x: "ee_toDead x" "pend_ok x q"
    and d: "ee_msgID x \<notin> set (pend_ids xs)"
  obtains q2 b where "b \<longleftrightarrow> cr_err (fst (submitCommit (io i) [] [entry_record x] q)) = None"
    "q_wal q2 = q_wal (snd (submitCommit (io i) [] [entry_record x] q))" "q_stopped q2 = q_stopped (snd (submitCommit (io i) [] [entry_record x] q))"
    "expire_commits io i (x # xs) q = expire_commits io (Suc i) xs q2"
    "held_inv F (pend_keys xs) (set (pend_ids xs)) q2" "\<exists>v. q_slots q2 = (q_slots q)(ee_indexRef x := v)"
    "messages q2 = (if b then (messages q)(ee_msgID x := map_option dead_msg (messages q (ee_msgID x))) else messages q)"
    "q_cfg q2 = q_cfg q" "q_pages q2 = q_pages q"
proof -
  let ?r = "ee_indexRef x" and ?s = "ee_slot x"
  have s: "q_slots q ?r = Some ?s" "s_State ?s = StateInflight" "s_MsgID ?s = ee_msgID x" "ee_info x = lease_of ?r ?s"
    using x(2) by (simp_all add: pend_ok_def)
  obtain res q1 where sub: "submitCommit (io i) [] [mk_rec OpDead (BDead \<lparr>de_MsgID = ee_msgID x, de_Reason = 2\<rparr>)] q = (res, q1)" by force
  have er: "entry_record x = mk_rec OpDead (BDead \<lparr>de_MsgID = ee_msgID x, de_Reason = 2\<rparr>)" using x(1) by (simp add: entry_record_def)
  note e = submitCommit_same [OF sub]
  have h1: "held_inv F (add_mset (lease_key ?r ?s) (pend_keys xs)) (insert (s_MsgID ?s) (set (pend_ids xs))) q1"
    using h x(1) s(3) unfolding held_commit(1) [OF sub] by simp
  have s1: "q_slots q1 ?r = Some ?s" using s(1) e(7) by simp
  have T: "s_MsgID ?s \<notin> set (pend_ids xs)" using d s(3) by simp
  show ?thesis
  proof (cases "cr_err res")
    case (Some err)
    note hr = held_restore [OF h1 s1 s(2) T]
    show ?thesis
    proof (rule that [of False "restoreLeaseLocked (ee_info x) ?s q1"])
      show "expire_commits io i (x # xs) q = expire_commits io (Suc i) xs (restoreLeaseLocked (ee_info x) ?s q1)"
        using x(1) sub Some by simp
      show "\<exists>v. q_slots (restoreLeaseLocked (ee_info x) ?s q1) = (q_slots q)(?r := v)"
        unfolding s(4) hr(3) using e(7) by (intro exI [of _ "q_slots q ?r"]) simp
    qed (use hr held_commit(2) [OF sub] e Some in \<open>simp_all add: s(4) er sub settled_wal\<close>)
  next
    case None
    note hd = held_dead [OF h1 s1 s(2) T]
    have "s_MsgID ?s \<noteq> 0" by (rule ids_okD(1) [OF data_invD(1) [OF conjunct2 [OF h1]] s1])
    then have rp: "readPayloadLocked ?s q1 = Some (body (q_pages q1) ?s)"
      using readPayload_body [OF data_invD(2) [OF conjunct2 [OF h1]] s1] by simp
    have "messages q (ee_msgID x) = Some (msg_of (q_pages q) ?s)"
      using view_Some [OF data_invD(4) [OF conjunct2 [OF h]] s(1)] s(3) by simp
    then have m: "messages (deadLetterLocked ?s ?r (body (q_pages q1) ?s) q1) =
        (messages q)(ee_msgID x := map_option dead_msg (messages q (ee_msgID x)))"
      unfolding hd(2) held_commit(2) [OF sub] using s(3) e(8) by (simp add: dead_msg_def)
    show ?thesis
    proof (rule that [of True "finish res (deadLetterLocked ?s ?r (body (q_pages q1) ?s) q1)"])
      show "expire_commits io i (x # xs) q = expire_commits io (Suc i) xs (finish res (deadLetterLocked ?s ?r (body (q_pages q1) ?s) q1))"
        using x(1) sub None rp by simp
      show "\<exists>v. q_slots (finish res (deadLetterLocked ?s ?r (body (q_pages q1) ?s) q1)) = (q_slots q)(?r := v)"
        using hd(3) e(7) by (intro exI [of _ "Some (unleased StateDead ?s)"]) simp
    qed (use hd m e None in \<open>simp_all add: er sub settled_wal\<close>)
  qed
qed

lemma expire_commits_spec:
  assumes "held_inv F (pend_keys xs) (set (pend_ids xs)) q" "\<forall>x \<in> set (pend xs). pend_ok x q" "distinct (pend_ids xs)"
  shows "\<exists>q' S. expire_commits io i xs q = (True, q') \<and> q_inv F q' \<and> S \<subseteq> set (pend_ids xs) \<and>
    messages q' = map_some S dead_msg (messages q) \<and> q_cfg q' = q_cfg q \<and>
    S = died io (q_stopped q) i (map entry_record xs) (q_wal q)"
  using assms
proof (induction xs arbitrary: i q)
  case Nil
  then show ?case by (simp add: q_inv_data map_some_def)
next
  case (Cons x xs)
  show ?case
  proof (cases "ee_toDead x")
    case False
    obtain res q1 where sub: "submitCommit (io i) [] [mk_rec OpExpire (BExpire \<lparr>ex_MsgID = ee_msgID x, ex_Nonce = ee_nonce x\<rparr>)] q = (res, q1)"
      by force
    let ?q2 = "if cr_err res = None then finish res q1 else q1"
    have "held_inv F (pend_keys xs) (set (pend_ids xs)) q1" using Cons.prems(1) False unfolding held_commit(1) [OF sub] by simp
    then have h: "held_inv F (pend_keys xs) (set (pend_ids xs)) ?q2" "messages ?q2 = messages q" "q_cfg ?q2 = q_cfg q" "q_slots ?q2 = q_slots q"
      using held_commit(2) [OF sub] submitCommit_same(1,7) [OF sub] by simp_all
    have "\<forall>x \<in> set (pend xs). pend_ok x ?q2" using Cons.prems(2) False h(4) by (simp add: pend_ok_def)
    moreover have "died io (q_stopped q) i (map entry_record (x # xs)) (q_wal q) =
        died io (q_stopped ?q2) (Suc i) (map entry_record xs) (q_wal ?q2)"
      using died_step [of io i "entry_record x" q res q1 ?q2] sub False by (simp add: entry_record_def mk_rec_def finish_def)
    ultimately show ?thesis
      using Cons.IH [OF h(1), of "Suc i"] Cons.prems(3) False sub h by simp
  next
    case True
    have p: "pend_ok x q" "ee_msgID x \<notin> set (pend_ids xs)" using Cons.prems(2,3) True by simp_all
    obtain q2 b where
      b: "b \<longleftrightarrow> cr_err (fst (submitCommit (io i) [] [entry_record x] q)) = None"
        "q_wal q2 = q_wal (snd (submitCommit (io i) [] [entry_record x] q))" "q_stopped q2 = q_stopped (snd (submitCommit (io i) [] [entry_record x] q))"
      and o: "expire_commits io i (x # xs) q = expire_commits io (Suc i) xs q2"
      "held_inv F (pend_keys xs) (set (pend_ids xs)) q2" "\<exists>v. q_slots q2 = (q_slots q)(ee_indexRef x := v)"
      "messages q2 = (if b then (messages q)(ee_msgID x := map_option dead_msg (messages q (ee_msgID x))) else messages q)"
      "q_cfg q2 = q_cfg q" "q_pages q2 = q_pages q"
      by (rule expire_commit_one [OF Cons.prems(1) True p])
    have "\<forall>y \<in> set (pend xs). pend_ok y q2"
    proof
      fix y assume y: "y \<in> set (pend xs)"
      then have "ee_msgID y \<in> set (pend_ids xs)" by simp
      then have "ee_msgID y \<noteq> ee_msgID x" using p(2) by metis
      then show "pend_ok y q2" using pend_other [OF p(1)] o(3) Cons.prems(2) y True by auto
    qed
    from Cons.IH [OF o(2) this, of "Suc i"] obtain q' S where q': "expire_commits io (Suc i) xs q2 = (True, q')" "q_inv F q'"
      "S \<subseteq> set (pend_ids xs)" "messages q' = map_some S dead_msg (messages q2)" "q_cfg q' = q_cfg q2"
      "S = died io (q_stopped q2) (Suc i) (map entry_record xs) (q_wal q2)"
      using Cons.prems(3) True by auto
    have "died io (q_stopped q) i (map entry_record (x # xs)) (q_wal q) = (if b then insert (ee_msgID x) S else S)"
      using died_step [of io i "entry_record x" q _ _ q2, OF surjective_pairing b(2,3)] b(1) True unfolding q'(6) by (simp add: entry_record_def mk_rec_def)
    moreover have "ee_msgID x \<notin> S" using p(2) q'(3) by blast
    then have "messages q' = map_some (if b then insert (ee_msgID x) S else S) dead_msg (messages q)"
      unfolding q'(4) o(4) by (auto simp: map_some_def fun_eq_iff)
    moreover have "(if b then insert (ee_msgID x) S else S) \<subseteq> set (pend_ids (x # xs))" using q'(3) True by auto
    ultimately show ?thesis using q'(1,2,5) o(1,5) by (intro exI [of _ q'] exI [of _ "if b then insert (ee_msgID x) S else S"]) simp
  qed
qed

section \<open>Checkpoints\<close>

lemma index_Checkpoint_live: "index_Checkpoint io lsn idx = (ok, idx') \<Longrightarrow> ix_live idx' = ix_live idx"
  by (auto simp: index_Checkpoint_def Let_def split: if_splits)

lemma same_index:
  assumes "ix_live idx' = ix_live idx"
  shows "slots idx' = slots idx" "index_inv idx' = index_inv idx" "Scan idx' = Scan idx"
proof -
  show "slots idx' = slots idx" by (rule ext) (simp add: slots_def GetByRef_def assms)
  show "index_inv idx' = index_inv idx" "Scan idx' = Scan idx" by (simp_all only: index_inv_def Scan_def assms)
qed

lemma same_queue:
  assumes "ix_live i = ix_live (q_idx q)"
  shows "q_inv F (q\<lparr>q_idx := i\<rparr>) = q_inv F q" "messages (q\<lparr>q_idx := i\<rparr>) = messages q"
proof -
  note e = same_index [OF assms]
  show "q_inv F (q\<lparr>q_idx := i\<rparr>) = q_inv F q"
    by (simp add: q_inv_def core_inv_def shape_inv_def q_dir_def ready_view_def dead_view_def dead_ok_def e)
  show "messages (q\<lparr>q_idx := i\<rparr>) = messages q" by (rule ext) (simp add: messages_def findSlot_def e)
qed

lemma Checkpoint_same:
  assumes "q_Checkpoint xio rm q = (ok, q')"
  shows "q_inv F q' = q_inv F q" "messages q' = messages q" "q_cfg q' = q_cfg q"
proof -
  obtain c idx where i: "index_Checkpoint xio (checkpoint_lsn q) (q_idx q) = (c, idx)" by force
  note e = same_queue [OF index_Checkpoint_live [OF i]]
  obtain w where "q' = q\<lparr>q_idx := idx\<rparr> \<or> q' = q\<lparr>q_idx := idx\<rparr>\<lparr>q_wal := w\<rparr>"
    using assms i by (cases c) (auto simp: q_Checkpoint_def Let_def split: prod.splits)
  then show "q_inv F q' = q_inv F q" "messages q' = messages q" "q_cfg q' = q_cfg q"
    using e q_inv_other(9) [of F w "q\<lparr>q_idx := idx\<rparr>"] messages_other(9) [of w "q\<lparr>q_idx := idx\<rparr>"] by auto
qed

section \<open>The tick\<close>

definition lease_over :: "i64 \<Rightarrow> amsg \<Rightarrow> bool" where
  "lease_over now a = (case am_status a of Leased n u \<Rightarrow> sint u \<le> sint now | _ \<Rightarrow> False)"

text \<open>The effect of a tick on a message; \<open>ok\<close> says that the record of its death, if any, was committed.\<close>

definition tick_msg :: "Config \<Rightarrow> i64 \<Rightarrow> bool \<Rightarrow> amsg \<Rightarrow> amsg" where
  "tick_msg cfg now ok a0 =
    (let a = a_promote now a0 in
     if \<not> lease_over now a then a
     else if \<not> exhausted cfg a then a\<lparr>am_status := Waiting\<rparr>
     else if ok then a\<lparr>am_status := Dead\<rparr> else a)"

text \<open>The order in which expired leases are handled: earliest deadline first.\<close>

definition lease_end :: "(u64 \<rightharpoonup> amsg) \<Rightarrow> u64 \<Rightarrow> int" where
  "lease_end M m = (case M m of Some a \<Rightarrow> (case am_status a of Leased n u \<Rightarrow> sint u | _ \<Rightarrow> 0) | None \<Rightarrow> 0)"

definition expiry_order :: "i64 \<Rightarrow> (u64 \<rightharpoonup> amsg) \<Rightarrow> u64 list \<Rightarrow> bool" where
  "expiry_order now M ms \<longleftrightarrow> distinct ms \<and> set ms = {m. \<exists>a. M m = Some a \<and> lease_over now a} \<and>
     sorted_wrt (\<lambda>m m'. lease_end M m \<le> lease_end M m') ms"

lemma expired_ids:
  assumes i: "q_inv F q" and p: "tw_popExpired now (q_inflight q) = (es, w)"
  shows "held_inv F (mset es) {} (q\<lparr>q_inflight := w\<rparr>)" "distinct (map we_msgID es)"
    "we_msgID ` set es = {m. \<exists>a. messages q m = Some a \<and> lease_over now a}"
    "sorted_wrt (\<lambda>m m'. lease_end (messages q) m \<le> lease_end (messages q) m') (map we_msgID es)"
proof -
  note q = q_invD [OF i]
  note pi = pop_inflight [OF q(1) p]
  let ?q = "q\<lparr>q_inflight := w\<rparr>"
  have c: "core_inv {#} {#} (mset es) {} {#} (q_slots q) ?q" using pi(1) by simp
  have "data_inv F ?q" using i data_inv_cong [of ?q q F] unfolding q_inv_data by simp
  then show "held_inv F (mset es) {} ?q" using c by simp
  note t = core_invD(5) [OF c]
  have mem: "e \<in> set es \<or> e \<in> set w \<longleftrightarrow> (\<exists>r s. q_slots q r = Some s \<and> s_State s = StateInflight \<and> lease_key r s = e)" for e
    using it.member [OF t, of e] by auto
  have "distinct es"
    unfolding distinct_count_atmost_1
  proof
    fix e
    have "count (mset w) e + count (mset es) e \<le> 1" using t unfolding tracks_def by (simp split: if_splits)
    moreover have "e \<in> set es \<longleftrightarrow> 0 < count (mset es) e" by simp
    ultimately show "count (mset es) e = (if e \<in> set es then 1 else 0)" by (simp only: split: if_splits) linarith
  qed
  moreover have "inj_on we_msgID (set es)"
  proof (rule inj_onI)
    fix x y assume xy: "x \<in> set es" "y \<in> set es" "we_msgID x = we_msgID y"
    obtain r s r' s' where s: "q_slots q r = Some s" "lease_key r s = x" "q_slots q r' = Some s'" "lease_key r' s' = y"
      using mem [of x] mem [of y] xy by blast
    then have "s_MsgID s' = s_MsgID s" using xy(3) by (auto simp: lease_key_def)
    then have "r' = r" by (rule ids_okD(4) [OF q(5) s(1,3)])
    then show "x = y" using s by simp
  qed
  ultimately show "distinct (map we_msgID es)" by (simp add: distinct_map)
  have over: "lease_over now (msg_of (q_pages q) s) \<longleftrightarrow> s_State s = StateInflight \<and> sint (s_LeaseUntilMs s) \<le> sint now" for s
    by (auto simp: lease_over_def msg_of_def status_of_def)
  show "we_msgID ` set es = {m. \<exists>a. messages q m = Some a \<and> lease_over now a}"
  proof (intro set_eqI iffI)
    fix m assume "m \<in> we_msgID ` set es"
    then obtain e where e: "e \<in> set es" "m = we_msgID e" by blast
    then obtain r s where s: "q_slots q r = Some s" "s_State s = StateInflight" "lease_key r s = e" using mem [of e] by blast
    have "m = s_MsgID s" "sint (s_LeaseUntilMs s) \<le> sint now" using s(3) e pi(2) by (auto simp: lease_key_def)
    then show "m \<in> {m. \<exists>a. messages q m = Some a \<and> lease_over now a}"
      using view_Some [OF q(4) s(1)] over s(2) by blast
  next
    fix m assume "m \<in> {m. \<exists>a. messages q m = Some a \<and> lease_over now a}"
    then obtain r s where s: "q_slots q r = Some s" "s_MsgID s = m" "lease_over now (msg_of (q_pages q) s)"
      unfolding viewD [OF q(4)] by blast
    have "lease_key r s \<notin> set w" using s(3) pi(3) over by (auto simp: lease_key_def)
    then have "lease_key r s \<in> set es" using mem [of "lease_key r s"] s over by blast
    then show "m \<in> we_msgID ` set es" using s(2) by (force simp: lease_key_def)
  qed
  have dl: "lease_end (messages q) (we_msgID e) = sint (we_deadline e)" if "e \<in> set es" for e
  proof -
    obtain r s where s: "q_slots q r = Some s" "s_State s = StateInflight" "lease_key r s = e" using mem [of e] \<open>e \<in> set es\<close> by blast
    have "messages q (s_MsgID s) = Some (msg_of (q_pages q) s)" by (rule view_Some [OF q(4) s(1)])
    then show ?thesis unfolding s(3) [symmetric] using s(2) by (simp add: lease_end_def lease_key_def msg_of_def status_of_def)
  qed
  have "tw_inv (q_inflight q)" using core_invD(1) [OF q(1)] by (simp add: shape_inv_def)
  then have "sorted_wrt (\<lambda>a b. sint (we_deadline a) \<le> sint (we_deadline b)) es" using tw_popExpired_spec [OF _ p] by blast
  then show "sorted_wrt (\<lambda>m m'. lease_end (messages q) m \<le> lease_end (messages q) m') (map we_msgID es)"
    unfolding sorted_wrt_map by (rule sorted_wrt_mono_rel [rotated]) (simp add: dl)
qed

lemma refresh_view:
  "image_mset (\<lambda>e. e\<lparr>he_cachedPri := 0\<rparr>) (mset (rh_entries (rh_refresh now h))) =
   image_mset (\<lambda>e. e\<lparr>he_cachedPri := 0\<rparr>) (mset (rh_entries h))"
  by (auto simp: rh_refresh_def image_mset.compositionality comp_def)

lemma refresh_same:
  assumes "q_inv F q" "q' = q\<lparr>q_ready := rh_refresh (Some now) (q_ready q)\<rparr>"
  shows "q_inv F q'" "messages q' = messages q" "q_cfg q' = q_cfg q"
proof -
  have "ready_view q' = ready_view q" by (simp add: assms(2) ready_view_def refresh_view)
  then show "q_inv F q'"
    using assms(1) unfolding assms(2)
    by (simp add: q_inv_def core_inv_def shape_inv_def q_dir_def dead_view_def dead_ok_def rh_inv_refresh)
  show "messages q' = messages q" by (rule messages_cong) (simp_all add: assms(2))
  show "q_cfg q' = q_cfg q" by (simp add: assms(2))
qed

lemma tick_compose:
  assumes E: "E = {m. \<exists>a. promote_msgs now M m = Some a \<and> lease_over now a}"
    and S: "\<And>m. m \<in> S \<Longrightarrow> m \<in> E \<and> (\<exists>a. promote_msgs now M m = Some a \<and> exhausted cfg a)"
  shows "map_some S dead_msg (map_some E (expire_wait cfg) (promote_msgs now M)) =
    (\<lambda>m. map_option (tick_msg cfg now (m \<in> S)) (M m))"
proof
  fix m
  show "map_some S dead_msg (map_some E (expire_wait cfg) (promote_msgs now M)) m = map_option (tick_msg cfg now (m \<in> S)) (M m)"
  proof (cases "M m")
    case (Some a)
    then have a: "promote_msgs now M m = Some (a_promote now a)" by (simp add: promote_msgs_def)
    then have "m \<in> E \<longleftrightarrow> lease_over now (a_promote now a)" "m \<in> S \<Longrightarrow> m \<in> E \<and> exhausted cfg (a_promote now a)"
      using S [of m] by (auto simp: E)
    then show ?thesis using Some a by (auto simp: map_some_def tick_msg_def expire_wait_def dead_msg_def Let_def)
  qed (simp add: map_some_def promote_msgs_def)
qed

lemma expire_loop_wal:
  "q_wal (snd (snd (expire_loop now es q))) = q_wal q" "q_stopped (snd (snd (expire_loop now es q))) = q_stopped q"
proof (induction es arbitrary: q)
  case (Cons e es)
  {
    case 1
    show ?case
      by (simp only: expire_loop.simps Let_def case_prod_beta snd_conv Cons.IH if_distrib [of snd] if_distrib [of q_wal] ready_push_fields
          idx_put_fields split: option.split) simp
  next
    case 2
    show ?case
      by (simp only: expire_loop.simps Let_def case_prod_beta snd_conv Cons.IH if_distrib [of snd] if_distrib [of q_stopped] ready_push_fields
          idx_put_fields split: option.split) simp
  }
qed simp_all

lemma tick_locked_spec:
  assumes i: "q_inv F q" and t: "tick_locked now q = (xs, pr, q3)"
  defines "E \<equiv> {m. \<exists>a. promote_msgs now (messages q) m = Some a \<and> lease_over now a}"
  shows "held_inv F (pend_keys xs) (set (pend_ids xs)) q3" "\<forall>x \<in> set (pend xs). pend_ok x q3" "distinct (pend_ids xs)"
    "messages q3 = map_some E (expire_wait (q_cfg q)) (promote_msgs now (messages q))" "q_cfg q3 = q_cfg q"
    "m \<in> set (pend_ids xs) \<Longrightarrow> m \<in> E \<and> (\<exists>a. promote_msgs now (messages q) m = Some a \<and> exhausted (q_cfg q) a)"
    "\<exists>ms. expiry_order now (promote_msgs now (messages q)) ms \<and>
      map entry_record xs = map (tick_record (q_cfg q) (promote_msgs now (messages q))) ms"
    "q_wal q3 = q_wal q" "q_stopped q3 = q_stopped q"
proof -
  define q1 where "q1 = (if 0 < sint (cfg_AgeBoostMs (q_cfg q)) then q\<lparr>q_ready := rh_refresh (Some now) (q_ready q)\<rparr> else q)"
  have q1: "q_inv F q1" "messages q1 = messages q" "q_cfg q1 = q_cfg q"
    using i refresh_same [OF i refl, of now] by (simp_all add: q1_def)
  define q2 where "q2 = promoteLocked now q1"
  have q2: "q_inv F q2" "messages q2 = promote_msgs now (messages q)" "q_cfg q2 = q_cfg q"
    using promote_spec [OF q1(1), of now] q1(2,3) by (simp_all add: q2_def)
  obtain es w where p: "tw_popExpired now (q_inflight q2) = (es, w)" by force
  obtain pr' where l: "expire_loop now es (q2\<lparr>q_inflight := w\<rparr>) = (xs, pr', q3)"
    using t p unfolding tick_locked_def q1_def [symmetric] q2_def [symmetric] Let_def by (auto split: prod.splits)
  note x = expired_ids [OF q2(1) p]
  have m2: "messages (q2\<lparr>q_inflight := w\<rparr>) = messages q2" by (rule messages_cong) simp_all
  have h: "held_inv F (mset es + {#}) {} (q2\<lparr>q_inflight := w\<rparr>)" using x(1) by simp
  have E: "we_msgID ` set es = E" unfolding x(3) q2(2) E_def ..
  note o = expired_outD [OF expire_loop_spec [OF h x(2) _ l, unfolded E]]
  have rc: "map entry_record xs = map (tick_record (q_cfg q) (promote_msgs now (messages q))) (map we_msgID es)"
    using expire_loop_records [OF h x(2) _ l, of "promote_msgs now (messages q)"] m2 q2(2,3) by simp
  have "expiry_order now (promote_msgs now (messages q)) (map we_msgID es)"
    using x(2-4) unfolding q2(2) by (simp add: expiry_order_def)
  with rc show "\<exists>ms. expiry_order now (promote_msgs now (messages q)) ms \<and>
      map entry_record xs = map (tick_record (q_cfg q) (promote_msgs now (messages q))) ms" by blast
  have "q_wal q1 = q_wal q" "q_stopped q1 = q_stopped q" by (simp_all add: q1_def)
  then have "q_wal q2 = q_wal q" "q_stopped q2 = q_stopped q" by (simp_all add: q2_def)
  then show "q_wal q3 = q_wal q" "q_stopped q3 = q_stopped q" using expire_loop_wal [of now es "q2\<lparr>q_inflight := w\<rparr>"] l by simp_all
  show hq: "held_inv F (pend_keys xs) (set (pend_ids xs)) q3" using o(1) by simp
  show "\<forall>x \<in> set (pend xs). pend_ok x q3" "distinct (pend_ids xs)" using o(2,3) by simp_all
  show m3: "messages q3 = map_some E (expire_wait (q_cfg q)) (promote_msgs now (messages q))"
    using o(5) m2 q2 by simp
  show "q_cfg q3 = q_cfg q" using o(6) q2(3) by simp
  assume "m \<in> set (pend_ids xs)"
  then obtain x where x: "x \<in> set (pend xs)" "m = ee_msgID x" by auto
  then have mE: "m \<in> E" using o(4) by auto
  have ok: "pend_ok x q3" "exhausted (q_cfg q) (msg_of (q_pages q3) (ee_slot x))" using o(2,7) x(1) q2(3) by simp_all
  have "messages q3 m = Some (msg_of (q_pages q3) (ee_slot x))"
    using view_Some [OF data_invD(4) [OF conjunct2 [OF hq]], of "ee_indexRef x" "ee_slot x"] ok(1) x(2) by (simp add: pend_ok_def)
  then obtain a where a: "promote_msgs now (messages q) m = Some a" "expire_wait (q_cfg q) a = msg_of (q_pages q3) (ee_slot x)"
    unfolding m3 map_some_def using mE by auto
  have "exhausted (q_cfg q) a" using ok(2) unfolding a(2) [symmetric] by (simp add: expire_wait_def exhausted_def split: if_splits)
  then show "m \<in> E \<and> (\<exists>a. promote_msgs now (messages q) m = Some a \<and> exhausted (q_cfg q) a)" using mE a(1) by blast
qed

lemma tick_checkpoint_same:
  "q_inv F (tick_checkpoint xio rm now q) = q_inv F q" "messages (tick_checkpoint xio rm now q) = messages q"
proof -
  obtain ok q1 where c: "q_Checkpoint xio rm q = (ok, q1)" by force
  show "q_inv F (tick_checkpoint xio rm now q) = q_inv F q" "messages (tick_checkpoint xio rm now q) = messages q"
    using Checkpoint_same(1,2) [OF c] c by (simp_all add: tick_checkpoint_def)
qed

lemma tick_spec:
  assumes i: "q_inv F q"
  shows "\<exists>q' ms. tick io xio rm now q = (True, q') \<and> q_inv F q' \<and> expiry_order now (promote_msgs now (messages q)) ms \<and>
    messages q' = (\<lambda>m. map_option (tick_msg (q_cfg q) now
      (m \<in> died (qi_commit io) (q_stopped q) 0 (map (tick_record (q_cfg q) (promote_msgs now (messages q))) ms) (q_wal q)))
      (messages q m))"
proof -
  obtain xs pr q1 where t: "tick_locked now q = (xs, pr, q1)" by (metis prod_cases3)
  note l = tick_locked_spec [OF i t]
  obtain ms where ms: "expiry_order now (promote_msgs now (messages q)) ms"
    "map entry_record xs = map (tick_record (q_cfg q) (promote_msgs now (messages q))) ms" using l(7) by blast
  define S where "S = died (qi_commit io) (q_stopped q) 0 (map (tick_record (q_cfg q) (promote_msgs now (messages q))) ms) (q_wal q)"
  obtain q2 where c: "expire_commits (qi_commit io) 0 xs q1 = (True, q2)" "q_inv F q2" "S \<subseteq> set (pend_ids xs)"
    "messages q2 = map_some S dead_msg (messages q1)"
    using expire_commits_spec [OF l(1-3), of "qi_commit io" 0] unfolding S_def ms(2) [symmetric] l(8,9) by blast
  have m: "messages q2 = (\<lambda>m. map_option (tick_msg (q_cfg q) now (m \<in> S)) (messages q m))"
    unfolding c(4) l(4) by (rule tick_compose [OF refl]) (use l(6) c(3) in blast)
  let ?q3 = "if pr then notify q2 else q2"
  have q3: "q_inv F ?q3" "messages ?q3 = messages q2" using c(2) by simp_all
  note tc = tick_checkpoint_same(1) [of F xio rm now ?q3]
  have "tick io xio rm now q = (True, tick_checkpoint xio rm now ?q3)" using t c(1) by (simp add: tick_def)
  moreover have "q_inv F (tick_checkpoint xio rm now ?q3)" using tc q3(1) by blast
  moreover have "messages (tick_checkpoint xio rm now ?q3) = (\<lambda>m. map_option (tick_msg (q_cfg q) now (m \<in> S)) (messages q m))"
    using tick_checkpoint_same(2) [of xio rm now ?q3] q3(2) m by (simp only:)
  ultimately show ?thesis using ms(1) unfolding S_def by blast
qed

end
