(* ===== verification/Queue_Enqueue.thy ===== *)
theory Queue_Enqueue
  imports Queue_Tick
begin

text \<open>
  \<open>Enqueue\<close> against the abstract specification: it adds all messages of the request, with their payloads,
  under new consecutive ids, or none of them, and in that case every page-store slot it took is released.
\<close>

section \<open>Payload slots\<close>

definition avail_at :: "i64 \<Rightarrow> EnqueueRequest \<Rightarrow> i64" where
  "avail_at now r = (if 0 < sint (er_DelayMs r) then now + er_DelayMs r else now)"

text \<open>The payload slot of an item holds the payload of its request.\<close>

definition stored :: "i64 \<Rightarrow> Store \<Rightarrow> EnqueueRequest \<Rightarrow> item \<Rightarrow> bool" where
  "stored now p r it \<longleftrightarrow> it_availMs it = avail_at now r \<and> it_prio it = er_Priority r \<and>
     (\<exists>data. store_Read (it_ref it) p = Inr data \<and> length (er_Payload r) \<le> length data \<and>
        take (length (er_Payload r)) data = er_Payload r)"

definition small :: "EnqueueRequest \<Rightarrow> bool" where
  "small r \<longleftrightarrow> length (er_Payload r) \<le> 2 ^ 32 - 2 ^ 21"

lemma small_len:
  assumes "small r"
  shows "unat (word_of_nat (length (er_Payload r)) :: u32) = length (er_Payload r)"
    "uint (payload_size r) \<le> 2 ^ 32 - 2 ^ 21" "length (er_Payload r) \<le> unat (payload_size r)"
proof -
  let ?n = "length (er_Payload r)"
  have n: "?n \<le> 4292870144" using assms by (simp add: small_def)
  then have u: "unat (word_of_nat ?n :: u32) = ?n" by (simp add: unsigned_of_nat take_bit_nat_eq_self)
  then show "unat (word_of_nat ?n :: u32) = ?n" .
  have e: "unat (payload_size r) = (if ?n = 0 then 1 else ?n)"
    using u by (auto simp: payload_size_def Let_def simp flip: unat_eq_zero)
  then show "?n \<le> unat (payload_size r)" by simp
  have "unat (payload_size r) \<le> 4292870144" using e n by (simp split: if_splits)
  then have "int (unat (payload_size r)) \<le> int 4292870144" by (simp only: of_nat_le_iff)
  then show "uint (payload_size r) \<le> 2 ^ 32 - 2 ^ 21" by simp
qed

lemma alloc_one:
  assumes h: "heap_inv F pr p" and rm: "room (Suc n) p" and r: "small r"
    and a: "Alloc io (payload_size r) p = (Inr (ref, lo, hi), p1)"
  defines "p2 \<equiv> (if er_Payload r \<noteq> [] then store_copy (PageID ref) (nat lo) (take (nat (hi - lo)) (er_Payload r)) p1 else p1)"
  shows "grows p ref p2" "room n p2"
    "\<exists>data. store_Read ref p2 = Inr data \<and> length (er_Payload r) \<le> length data \<and> take (length (er_Payload r)) data = er_Payload r"
proof -
  note rm' = room_Alloc [OF rm a]
  note c = Alloc_copy [OF heap_invD(1) [OF h] rm'(1) small_len(2) [OF r] a small_len(3) [OF r]]
  obtain old where old: "store_Read ref p1 = Inr old"
    by (rule Alloc_read [OF heap_invD(1) [OF h] rm'(1) small_len(2) [OF r] a])
  note g = Alloc_grows [OF heap_invD(1) [OF h] rm'(1) small_len(2) [OF r] a]
  show "grows p ref p2" using c(1) g by (simp add: p2_def)
  show "room n p2" using c(3) rm'(2) by (simp add: p2_def room_def)
  show "\<exists>data. store_Read ref p2 = Inr data \<and> length (er_Payload r) \<le> length data \<and> take (length (er_Payload r)) data = er_Payload r"
    using c(2) old by (simp add: p2_def)
qed

lemma alloc_payloads_spec:
  assumes "heap_inv F pr p" "room (n + length rs) p" "\<forall>r \<in> set rs. small r" "alloc_payloads io now i rs p = (err, its, p')"
  shows "heap_inv (F \<union> set (map it_ref its)) pr p' \<and> room n p' \<and> distinct (map it_ref its) \<and>
    set (map it_ref its) \<inter> live p = {} \<and> same_reads (live p) p p' \<and> (err = None \<longrightarrow> list_all2 (stored now p') rs its)"
  using assms
proof (induction rs arbitrary: i p F its p' err)
  case Nil
  then show ?case by (simp add: same_reads_def)
next
  case (Cons r rs)
  obtain a p1 where al: "Alloc (io i) (payload_size r) p = (a, p1)" by force
  have rm: "room (Suc (n + length rs)) p" using Cons.prems(2) by simp
  have sm: "small r" "\<forall>r \<in> set rs. small r" using Cons.prems(3) by simp_all
  note rm' = room_Alloc [OF rm al]
  show ?case
  proof (cases a)
    case (Inl e)
    then have o: "its = []" "p' = p1" "err = Some (PageErr e)" using Cons.prems(4) al by simp_all
    have eq: "heap_eq p p1" using Alloc_failed [OF heap_invD(1) [OF Cons.prems(1)] rm'(1)] al Inl by simp
    show ?thesis using heap_eq_inv [OF Cons.prems(1) eq] room_mono [OF rm'(2), of n] by (simp add: o)
  next
    case (Inr b)
    obtain ref lo hi where b: "b = (ref, lo, hi)" by (metis prod_cases3)
    define p2 where "p2 = (if er_Payload r \<noteq> [] then store_copy (PageID ref) (nat lo) (take (nat (hi - lo)) (er_Payload r)) p1 else p1)"
    define it where "it = \<lparr>it_ref = ref, it_msgID = 0, it_indexRef = 0, it_availMs = avail_at now r, it_prio = er_Priority r\<rparr>"
    note one = alloc_one [OF Cons.prems(1) rm sm(1) al [unfolded Inr b], folded p2_def]
    note hg = heap_grows [OF Cons.prems(1) one(1)]
    obtain err1 its1 p3 where rest: "alloc_payloads io now (Suc i) rs p2 = (err1, its1, p3)" by (metis prod_cases3)
    have o: "err = err1" "its = it # its1" "p' = p3"
      using Cons.prems(4) al Inr b rest by (auto simp: p2_def it_def avail_at_def Let_def)
    note IH = Cons.IH [OF hg(1) one(2) sm(2) rest]
    have lv: "live p2 = insert ref (live p)" using one(1) by (simp add: grows_def)
    have "store_Read ref p3 = store_Read ref p2" using IH lv by (simp add: same_reads_def)
    then have st: "stored now p3 r it" using one(3) by (simp add: stored_def it_def)
    have "same_reads (live p) p p3" using hg(3) IH lv by (simp add: same_reads_def)
    moreover have "distinct (map it_ref its)" "set (map it_ref its) \<inter> live p = {}"
      using IH lv hg(2) unfolding o by (auto simp: it_def)
    ultimately show ?thesis using IH st unfolding o by (simp add: it_def)
  qed
qed

section \<open>Ids and index slots\<close>

fun next_ids :: "u64 \<Rightarrow> nat \<Rightarrow> u64 list" where
  "next_ids m 0 = []"
| "next_ids m (Suc n) = (m + 1) # next_ids (m + 1) n"

lemma length_next_ids [simp]: "length (next_ids m n) = n"
  by (induction n arbitrary: m) simp_all

lemma next_ids_fresh:
  assumes "unat m + n < 2 ^ 64" "x \<in> set (next_ids m n)"
  shows "m < x" "x \<le> m + word_of_nat n"
proof -
  have "m < x \<and> x \<le> m + word_of_nat n" using assms
  proof (induction n arbitrary: m)
    case (Suc n)
    have u: "unat (m + 1) = unat m + 1" using Suc.prems(1) by (simp add: unat_word_ariths(1))
    have b: "unat (m + 1) + n < 2 ^ 64" using Suc.prems(1) u by simp
    have lt: "m < m + 1" using u by (simp add: word_less_nat_alt)
    have e: "m + word_of_nat (Suc n) = (m + 1) + word_of_nat n" by (simp add: ac_simps)
    have "unat ((m + 1) + word_of_nat n) = unat (m + 1) + n"
      using b by (simp add: unat_word_ariths(1) unsigned_of_nat take_bit_nat_eq_self)
    then have le: "m + 1 \<le> (m + 1) + word_of_nat n" by (simp add: word_le_nat_alt)
    show ?case
    proof (cases "x = m + 1")
      case True
      then show ?thesis using lt le unfolding e by simp
    next
      case False
      then have "m + 1 < x \<and> x \<le> (m + 1) + word_of_nat n" using Suc.IH [OF b] Suc.prems(2) by simp
      then show ?thesis using lt unfolding e by (meson order_less_trans)
    qed
  qed simp
  then show "m < x" "x \<le> m + word_of_nat n" by blast+
qed

lemma next_ids_distinct: "unat m + n < 2 ^ 64 \<Longrightarrow> distinct (next_ids m n)"
proof (induction n arbitrary: m)
  case (Suc n)
  have u: "unat (m + 1) + n < 2 ^ 64" using Suc.prems by (simp add: unat_word_ariths(1))
  then have "m + 1 \<notin> set (next_ids (m + 1) n)" using next_ids_fresh(1) [OF u] by blast
  then show ?case using Suc.IH [OF u] by simp
qed simp

lemma AllocSlot_grows:
  assumes h: "heap_inv F pr p" and rm: "room (Suc n) p" and a: "AllocSlot io p = (x, p1)"
  shows "case x of Inl e \<Rightarrow> heap_eq p p1 | Inr ref \<Rightarrow> grows p ref p1" "room n p1"
proof -
  obtain y where y: "Alloc io (SizeClasses ! 0) p = (y, p1)" using a by (auto simp: AllocSlot_def split: prod.splits sum.splits)
  note rm' = room_Alloc [OF rm y]
  show "room n p1" by (rule rm'(2))
  have sz: "uint (SizeClasses ! 0) \<le> 2 ^ 32 - 2 ^ 21" by (simp add: SizeClasses_def)
  show "case x of Inl e \<Rightarrow> heap_eq p p1 | Inr ref \<Rightarrow> grows p ref p1"
    using a y Alloc_failed [OF heap_invD(1) [OF h] rm'(1)] Alloc_grows [OF heap_invD(1) [OF h] rm'(1) sz]
    by (auto simp: AllocSlot_def split: prod.splits sum.splits)
qed

definition set_ids :: "item list \<Rightarrow> (u64 \<times> u64) list \<Rightarrow> item list" where
  "set_ids its xs = map2 (\<lambda>it (m, r). it\<lparr>it_msgID := m, it_indexRef := r\<rparr>) its xs"

lemma assign_ids_spec:
  assumes "heap_inv F pr p" "room (n + length its) p" "assign_ids io i its m p = (err, its', m', p')"
  shows "heap_inv (F \<union> set (map it_indexRef its')) pr p' \<and> distinct (map it_indexRef its') \<and>
    set (map it_indexRef its') \<inter> live p = {} \<and> same_reads (live p) p p' \<and>
    (\<exists>k \<le> length its. m' = m + word_of_nat k) \<and>
    (err = None \<longrightarrow> m' = m + word_of_nat (length its) \<and> length its' = length its \<and>
      its' = set_ids its (zip (next_ids m (length its)) (map it_indexRef its')))"
  using assms
proof (induction its arbitrary: i m p F its' m' p' err)
  case Nil
  then show ?case by (simp add: same_reads_def set_ids_def)
next
  case (Cons it its)
  have rm: "room (Suc (n + length its)) p" using Cons.prems(2) by simp
  obtain a p1 where al: "AllocSlot (io i) p = (a, p1)" by force
  note g = AllocSlot_grows [OF Cons.prems(1) rm al]
  show ?case
  proof (cases a)
    case (Inl e)
    then have o: "its' = []" "p' = p1" "err = Some (PageErr e)" "m' = m + 1" using Cons.prems(3) al by (simp_all add: Let_def)
    have eq: "heap_eq p p1" using g(1) Inl by simp
    have "\<exists>k \<le> length (it # its). m' = m + word_of_nat k" using o(4) by (intro exI [of _ 1]) simp
    then show ?thesis using heap_eq_inv [OF Cons.prems(1) eq] by (simp add: o)
  next
    case (Inr ref)
    have gr: "grows p ref p1" using g(1) Inr by simp
    note hg = heap_grows [OF Cons.prems(1) gr]
    obtain err1 its1 m1 p2 where rest: "assign_ids io (Suc i) its (m + 1) p1 = (err1, its1, m1, p2)" by (metis prod_cases4)
    have o: "err = err1" "its' = it\<lparr>it_msgID := m + 1, it_indexRef := ref\<rparr> # its1" "m' = m1" "p' = p2"
      using Cons.prems(3) al Inr rest by (simp_all add: Let_def)
    note IH = Cons.IH [OF hg(1) g(2) rest]
    have lv: "live p1 = insert ref (live p)" using gr by (simp add: grows_def)
    obtain k where k: "k \<le> length its" "m1 = (m + 1) + word_of_nat k" using IH by blast
    have "\<exists>k \<le> length (it # its). m' = m + word_of_nat k"
      using k o(3) by (intro exI [of _ "Suc k"]) (simp add: ac_simps)
    moreover have "same_reads (live p) p p2" using hg(3) IH lv by (simp add: same_reads_def)
    moreover have "distinct (map it_indexRef its')" "set (map it_indexRef its') \<inter> live p = {}"
      using IH lv hg(2) unfolding o by auto
    moreover have "err = None \<longrightarrow> m' = m + word_of_nat (length (it # its)) \<and> length its' = length (it # its) \<and>
      its' = set_ids (it # its) (zip (next_ids m (length (it # its))) (map it_indexRef its'))"
      using IH unfolding o by (simp add: set_ids_def ac_simps)
    moreover have "heap_inv (F \<union> set (map it_indexRef its')) pr p'" using IH unfolding o by simp
    ultimately show ?thesis unfolding o(4) by blast
  qed
qed

section \<open>References in hand\<close>

lemma payload_owned: "q_slots q r = Some s \<Longrightarrow> s_PayloadRef s \<in> owned (prefs (q_slots q))"
  using owned_mem [of "prefs (q_slots q)" r] prefs_Some [of "q_slots q" r s] by simp

lemma q_inv_pages:
  assumes i: "q_inv F q" and h: "heap_inv F' (prefs (q_slots q)) p'" and r: "same_reads (owned (prefs (q_slots q))) (q_pages q) p'"
    and q': "q_pages q' = p'" "q_slots q' = q_slots q" "q_dead q' = q_dead q" "queue_inv q'"
  shows "q_inv F' q' \<and> messages q' = messages q"
proof (rule q_invI [OF q'(4)])
  note q = q_invD [OF i]
  have b: "body p' s = body (q_pages q) s" if "q_slots q x = Some s" for x s
    by (rule body_same [OF r payload_owned [OF that] refl refl])
  show "heap_inv F' (prefs (q_slots q')) (q_pages q')" unfolding q' by (rule h)
  show "view (q_slots q') (q_pages q') (messages q)" unfolding q' by (rule view_pages [OF q(4) b])
  show "dead_ok q'" using q(3) b unfolding dead_ok_def q' by metis
qed

lemma q_inv_next:
  assumes i: "q_inv F q" and n: "q_nextMsgID q \<le> m"
  shows "q_inv F (q\<lparr>q_nextMsgID := m\<rparr>)" "messages (q\<lparr>q_nextMsgID := m\<rparr>) = messages q"
proof -
  note q = q_invD [OF i]
  have "ids_ok m (q_slots q)"
  proof (rule ids_okI)
    fix r s assume s: "q_slots q r = Some s"
    show "s_MsgID s \<noteq> 0 \<and> s_MsgID s \<le> m \<and> s_State s \<in> {StateReady, StateDelayed, StateInflight, StateDead}"
      using ids_okD(1-3) [OF q(5) s] n by (meson order_trans)
    show "r = r'" if "q_slots q r' = Some s'" "s_MsgID s = s_MsgID s'" for r' s'
      using ids_okD(4) [OF q(5) that(1) s that(2)] .
  qed
  then have "queue_inv (q\<lparr>q_nextMsgID := m\<rparr>)"
    using core_invD [OF q(1)] by (simp add: core_inv_def shape_inv_def q_dir_def ready_view_def dead_view_def)
  then show "q_inv F (q\<lparr>q_nextMsgID := m\<rparr>)" using q(2,3) by (simp add: q_inv_def dead_ok_def)
  show "messages (q\<lparr>q_nextMsgID := m\<rparr>) = messages q" by (rule messages_cong) simp_all
qed

lemma release_hand:
  assumes i: "q_inv (insert r F) q" and r: "r \<notin> F"
  shows "q_inv F (page_free io r q) \<and> messages (page_free io r q) = messages q"
    "q_inv F (idx_free io r q) \<and> messages (idx_free io r q) = messages q"
proof -
  note q = q_invD [OF i]
  note rel = heap_release [OF q(2), of r io]
  have h: "heap_inv F (prefs (q_slots q)) (snd (Release io r (q_pages q)))" using rel(1) r by simp
  have out: "r \<notin> owned (prefs (q_slots q))" using heap_invD(3) [OF q(2)] by simp
  have rd: "same_reads (owned (prefs (q_slots q))) (q_pages q) (snd (Release io r (q_pages q)))"
    using rel(2) out heap_invD(2) [OF q(2)] by (simp add: same_reads_def) blast
  show "q_inv F (page_free io r q) \<and> messages (page_free io r q) = messages q"
    by (rule q_inv_pages [OF i h rd]) (use q(1) in simp_all)
  have "q_slots q r = None" using out by (auto simp: owned_def prefs_def domIff)
  then have sl: "q_slots (idx_free io r q) = q_slots q" by (simp add: fun_upd_idem)
  have "core_inv {#} {#} {#} {} {#} (q_slots (idx_free io r q)) (idx_free io r q)"
    unfolding sl by (rule core_idx_free [OF q(1)])
  then show "q_inv F (idx_free io r q) \<and> messages (idx_free io r q) = messages q"
    by (intro q_inv_pages [OF i h rd _ sl]) simp_all
qed

lemma release_hand_frame:
  assumes i: "q_inv (insert r F) q" and r: "r \<notin> F"
  shows "same_reads F (q_pages q) (q_pages (page_free io r q))" "same_reads F (q_pages q) (q_pages (idx_free io r q))"
  using heap_release(2) [OF q_invD(2) [OF i], of r io] heap_invD(2) [OF q_invD(2) [OF i]] r by (auto simp: same_reads_def)

lemma same_reads_chain: "same_reads S p p' \<Longrightarrow> same_reads S p' p'' \<Longrightarrow> same_reads S p p''"
  by (simp add: same_reads_def)

lemma release_refs_spec:
  assumes "q_inv (F \<union> set rs) q" "distinct rs" "set rs \<inter> F = {}"
  shows "q_inv F (release_refs io i rs q) \<and> messages (release_refs io i rs q) = messages q \<and>
    same_reads F (q_pages q) (q_pages (release_refs io i rs q))"
  using assms
proof (induction rs arbitrary: i q)
  case (Cons r rs)
  have "q_inv (insert r (F \<union> set rs)) q" "r \<notin> F \<union> set rs" using Cons.prems by simp_all
  note rel = release_hand(1) [OF this, of "io i"] and fr = release_hand_frame(1) [OF this, of "io i"]
  then show ?case using Cons.IH [OF conjunct1 [OF rel]] Cons.prems by (auto simp: same_reads_def)
qed (simp add: same_reads_def)

lemma free_slots_spec:
  assumes "q_inv (F \<union> set rs) q" "distinct rs" "set rs \<inter> F = {}"
  shows "q_inv F (free_slots io i rs q) \<and> messages (free_slots io i rs q) = messages q \<and>
    same_reads F (q_pages q) (q_pages (free_slots io i rs q))"
  using assms
proof (induction rs arbitrary: i q)
  case (Cons r rs)
  have "q_inv (insert r (F \<union> set rs)) q" "r \<notin> F \<union> set rs" using Cons.prems by simp_all
  note rel = release_hand(2) [OF this, of "io i"] and fr = release_hand_frame(2) [OF this, of "io i"]
  then show ?case using Cons.IH [OF conjunct1 [OF rel]] Cons.prems by (auto simp: same_reads_def)
qed (simp add: same_reads_def)

lemma enqueue_fail_spec:
  assumes i: "q_inv (F \<union> set (map it_ref its) \<union> set (map it_indexRef ids)) q"
    and d: "distinct (map it_ref its)" "distinct (map it_indexRef ids)" "set (map it_ref its) \<inter> F = {}"
      "set (map it_indexRef ids) \<inter> (F \<union> set (map it_ref its)) = {}"
  shows "q_inv F (enqueue_fail io n its ids q) \<and> messages (enqueue_fail io n its ids q) = messages q \<and>
    same_reads F (q_pages q) (q_pages (enqueue_fail io n its ids q))"
proof -
  let ?q1 = "release_refs (qi_release io) 0 (map it_ref its) q"
  have "q_inv ((F \<union> set (map it_indexRef ids)) \<union> set (map it_ref its)) q" using i by (simp add: ac_simps)
  note r = release_refs_spec [OF this d(1), of "qi_release io" 0]
  have r1: "q_inv (F \<union> set (map it_indexRef ids)) ?q1" "messages ?q1 = messages q" "same_reads F (q_pages q) (q_pages ?q1)"
    using r d(3,4) by (auto simp: same_reads_def)
  note r2 = free_slots_spec [OF r1(1) d(2), of "qi_release io" "length its"]
  have "set (map it_indexRef ids) \<inter> F = {}" using d(4) by auto
  from r2 [OF this] show ?thesis using r1 same_reads_chain unfolding enqueue_fail_def Let_def by auto
qed

section \<open>New messages\<close>

definition new_msg :: "i64 \<Rightarrow> EnqueueRequest \<Rightarrow> amsg" where
  "new_msg now r = \<lparr>am_payload = er_Payload r, am_priority = er_Priority r, am_attempts = 0, am_enqueuedAt = now,
     am_status = (if sint now < sint (avail_at now r) then Later (avail_at now r) else Waiting)\<rparr>"

lemma item_slot_msg:
  assumes "stored now p r it" "small r"
  shows "msg_of p (item_slot now r it) = new_msg now r" "fits (it_ref it, s_PayloadLen (item_slot now r it)) p"
proof -
  obtain data where d: "store_Read (it_ref it) p = Inr data" "length (er_Payload r) \<le> length data"
    "take (length (er_Payload r)) data = er_Payload r" using assms(1) by (auto simp: stored_def)
  have a: "it_availMs it = avail_at now r" "it_prio it = er_Priority r" using assms(1) by (simp_all add: stored_def)
  show "msg_of p (item_slot now r it) = new_msg now r"
    using d a small_len(1) [OF assms(2)] by (simp add: msg_of_def body_def item_slot_def new_msg_def status_of_def)
  show "fits (it_ref it, s_PayloadLen (item_slot now r it)) p"
    using d small_len(1) [OF assms(2)] by (simp add: fits_def item_slot_def)
qed

lemma apply_item_inv:
  assumes c: "queue_inv q" and f: "fresh_id (it_indexRef it) (q_slots q) (it_msgID it) q"
  shows "queue_inv (apply_item now now2 r it q)" "q_slots (apply_item now now2 r it q) = (q_slots q)(it_indexRef it \<mapsto> item_slot now r it)"
    "q_pages (apply_item now now2 r it q) = q_pages q" "q_dead (apply_item now now2 r it q) = q_dead q"
    "q_nextMsgID (apply_item now now2 r it q) = q_nextMsgID q"
proof -
  let ?r = "it_indexRef it" and ?s = "item_slot now r it"
  show "q_slots (apply_item now now2 r it q) = (q_slots q)(?r \<mapsto> ?s)" "q_pages (apply_item now now2 r it q) = q_pages q"
    "q_dead (apply_item now now2 r it q) = q_dead q" "q_nextMsgID (apply_item now now2 r it q) = q_nextMsgID q"
    by (simp_all add: apply_item_def Let_def)
  have none: "without ?r q = q_slots q" using f by (simp add: fresh_id_def fun_upd_idem)
  have c': "core_inv {#} {#} {#} {} {#} (without ?r q) q" unfolding none by (rule c)
  have id: "s_MsgID ?s = it_msgID it" by (simp add: item_slot_def)
  have f': "fresh_id ?r (without ?r q) (s_MsgID ?s) q" unfolding none id by (rule f)
  have key: "delayed_key ?r ?s = \<lparr>we_deadline = it_availMs it, we_msgID = it_msgID it, we_indexRef = ?r, we_nonce = 0\<rparr>"
    by (simp add: delayed_key_def item_slot_def)
  show "queue_inv (apply_item now now2 r it q)"
  proof (cases "s_State ?s = StateReady")
    case True
    then show ?thesis
      using put_ready [OF c' f' True refl refl refl, of now2] by (simp add: apply_item_def Let_def)
  next
    case False
    then have "s_State ?s = StateDelayed" by (simp add: item_slot_def split: if_splits)
    then show ?thesis
      using put_delayed [OF c' f'] False unfolding key by (simp add: apply_item_def Let_def)
  qed
qed

lemma apply_item_spec:
  assumes i: "q_inv F q" and r: "it_indexRef it \<in> F" "it_ref it \<in> F" "it_indexRef it \<noteq> it_ref it"
    and m: "it_msgID it \<noteq> 0" "it_msgID it \<le> q_nextMsgID q" "messages q (it_msgID it) = None"
    and st: "stored now (q_pages q) rq it" "small rq"
  shows "q_inv (F - {it_indexRef it, it_ref it}) (apply_item now now2 rq it q) \<and>
    messages (apply_item now now2 rq it q) = (messages q)(it_msgID it \<mapsto> new_msg now rq)" (is "q_inv ?F ?q' \<and> _")
proof -
  let ?r = "it_indexRef it" and ?s = "item_slot now rq it"
  note q = q_invD [OF i] and ms = item_slot_msg [OF st]
  have "?r \<notin> owned (prefs (q_slots q))" using heap_invD(3) [OF q(2)] r(1) by blast
  then have none: "q_slots q ?r = None" by (auto simp: owned_def prefs_def domIff)
  have new: "s_MsgID y \<noteq> it_msgID it" if "q_slots q x = Some y" for x y
    using view_Some [OF q(4) that] m(3) by auto
  have f: "fresh_id ?r (q_slots q) (it_msgID it) q" unfolding fresh_id_def using none m(1,2) new by blast
  note a = apply_item_inv [OF q(1) f, of now now2 rq]
  have id: "s_MsgID ?s = it_msgID it" "s_PayloadRef ?s = it_ref it" by (simp_all add: item_slot_def)
  show ?thesis
  proof (rule q_invI [OF a(1)])
    show "heap_inv ?F (prefs (q_slots ?q')) (q_pages ?q')"
      unfolding a(2,3) prefs_insert id(2) by (rule heap_adopt [OF q(2) r ms(2)])
    have "view ((q_slots q)(?r \<mapsto> ?s)) (q_pages q) ((messages q)(s_MsgID ?s \<mapsto> msg_of (q_pages q) ?s))"
    proof (rule view_put [OF q(4)])
      show "x = ?r" if "q_slots q x = Some y" "s_MsgID y = s_MsgID ?s" for x y using new [OF that(1)] that(2) id(1) by simp
      show "s_MsgID y = s_MsgID ?s" if "q_slots q ?r = Some y" for y using that none by simp
    qed
    then show "view (q_slots ?q') (q_pages ?q') ((messages q)(it_msgID it \<mapsto> new_msg now rq))"
      unfolding a(2,3) id(1) ms(1) .
    have out: "dm_Payload d = body (q_pages q) y" if d: "d \<in> set (q_dead q)" "((q_slots q)(?r \<mapsto> ?s)) (dm_indexRef d) = Some y" for d y
    proof -
      obtain x z where xz: "q_slots q x = Some z" "dead_key x z = d\<lparr>dm_Payload := []\<rparr>"
        by (rule dead_ids [OF q(1) d(1)])
      have "x = dm_indexRef d" using arg_cong [OF xz(2), of dm_indexRef] by (simp add: dead_key_def)
      then have "dm_indexRef d \<noteq> ?r" using xz(1) none by auto
      then show ?thesis using d q(3) unfolding dead_ok_def by simp
    qed
    then show "dead_ok ?q'" unfolding dead_ok_def a(2-4) by blast
  qed
qed

lemma apply_items_spec:
  assumes "q_inv (F \<union> set (map it_ref its) \<union> set (map it_indexRef its)) q"
    "distinct (map it_ref its @ map it_indexRef its)" "set (map it_ref its @ map it_indexRef its) \<inter> F = {}"
    "list_all2 (stored now (q_pages q)) reqs its" "\<forall>r \<in> set reqs. small r" "distinct (map it_msgID its)"
    "\<forall>m \<in> set (map it_msgID its). m \<noteq> 0 \<and> m \<le> q_nextMsgID q \<and> messages q m = None"
  shows "q_inv F (apply_items now now2 reqs its q) \<and>
    messages (apply_items now now2 reqs its q) = messages q ++ map_of (zip (map it_msgID its) (map (new_msg now) reqs))"
  using assms
proof (induction now now2 reqs its q rule: apply_items.induct)
  case (1 now now2 r rs it its q)
  let ?q1 = "apply_item now now2 r it q"
  let ?F = "F \<union> set (map it_ref (it # its)) \<union> set (map it_indexRef (it # its))"
  have st: "stored now (q_pages q) r it" "list_all2 (stored now (q_pages q)) rs its" "small r" using "1.prems"(4,5) by simp_all
  have F: "it_indexRef it \<in> ?F" "it_ref it \<in> ?F" "it_indexRef it \<noteq> it_ref it" using "1.prems"(2) by auto
  have m: "it_msgID it \<noteq> 0" "it_msgID it \<le> q_nextMsgID q" "messages q (it_msgID it) = None" using "1.prems"(7) by simp_all
  note a = apply_item_spec [OF "1.prems"(1) F m st(1,3), of now2]
  have pg: "q_pages ?q1 = q_pages q" "q_nextMsgID ?q1 = q_nextMsgID q" by (simp_all add: apply_item_def Let_def)
  have "?F - {it_indexRef it, it_ref it} = F \<union> set (map it_ref its) \<union> set (map it_indexRef its)"
    using "1.prems"(2,3) by auto
  then have i1: "q_inv (F \<union> set (map it_ref its) \<union> set (map it_indexRef its)) ?q1" using a by simp
  have id: "it_msgID it \<notin> set (map it_msgID its)" using "1.prems"(6) by simp
  have "\<forall>m \<in> set (map it_msgID its). m \<noteq> 0 \<and> m \<le> q_nextMsgID ?q1 \<and> messages ?q1 m = None"
  proof
    fix m assume m: "m \<in> set (map it_msgID its)"
    then have "m \<noteq> it_msgID it" using id by metis
    moreover have "m \<in> set (map it_msgID (it # its))" using m by simp
    ultimately have "m \<noteq> it_msgID it" "m \<in> set (map it_msgID (it # its))" by blast+
    then show "m \<noteq> 0 \<and> m \<le> q_nextMsgID ?q1 \<and> messages ?q1 m = None"
      using bspec [OF "1.prems"(7), of m] a pg(2) by simp
  qed
  then have IH: "q_inv F (apply_items now now2 rs its ?q1) \<and>
      messages (apply_items now now2 rs its ?q1) = messages ?q1 ++ map_of (zip (map it_msgID its) (map (new_msg now) rs))"
    by (intro "1.IH" [OF i1]) (use "1.prems" st(2) pg(1) in auto)
  have "length its = length rs" using st(2) by (simp add: list_all2_lengthD)
  then have out: "it_msgID it \<notin> dom (map_of (zip (map it_msgID its) (map (new_msg now) rs)))" using id by (simp add: dom_map_of_zip)
  show ?case
    using IH unfolding conjunct2 [OF a] map_add_upd_left [OF out]
    by (simp only: apply_items.simps list.map zip_Cons_Cons map_of.simps fst_conv snd_conv map_add_upd)
qed simp_all

lemma apply_items_pages: "q_pages (apply_items now now2 reqs its q) = q_pages q"
  by (induction now now2 reqs its q rule: apply_items.induct) (simp_all add: apply_item_def Let_def)

section \<open>Enqueue\<close>

lemma set_ids_fields:
  assumes "length xs = length its"
  shows "map it_ref (set_ids its xs) = map it_ref its" "map it_msgID (set_ids its xs) = map fst xs"
    "list_all2 (stored now p) reqs its \<Longrightarrow> list_all2 (stored now p) reqs (set_ids its xs)"
  using assms
proof (induction xs its arbitrary: reqs rule: list_induct2)
  case (Cons x xs it its)
  {
    case 1
    then show ?case using Cons.IH by (simp add: set_ids_def case_prod_beta)
  next
    case 2
    then show ?case using Cons.IH by (simp add: set_ids_def case_prod_beta)
  next
    case 3
    then show ?case using Cons.IH by (auto simp: set_ids_def case_prod_beta list_all2_Cons2 stored_def)
  }
qed (simp_all add: set_ids_def)

lemma stored_same:
  assumes "list_all2 (stored now p) reqs its" "same_reads S p p'" "set (map it_ref its) \<subseteq> S"
  shows "list_all2 (stored now p') reqs its"
  using assms(1,3)
proof (induction rule: list_all2_induct)
  case (Cons r rs it its)
  then have "store_Read (it_ref it) p' = store_Read (it_ref it) p" using assms(2) by (simp add: same_reads_def)
  then have "stored now p' r it" using Cons.hyps(1) unfolding stored_def by metis
  then show ?case using Cons by simp
qed simp

lemma next_ids_new:
  assumes i: "q_inv F q" and n: "unat (q_nextMsgID q) + n < 2 ^ 64" and m: "m \<in> set (next_ids (q_nextMsgID q) n)"
  shows "m \<noteq> 0" "m \<le> q_nextMsgID q + word_of_nat n" "messages q m = None"
proof -
  note f = next_ids_fresh [OF n m]
  show "m \<noteq> 0" using f(1) by auto
  show "m \<le> q_nextMsgID q + word_of_nat n" by (rule f(2))
  show "messages q m = None"
  proof (rule ccontr)
    assume "messages q m \<noteq> None"
    then obtain r s where "q_slots q r = Some s" "s_MsgID s = m" using viewD [OF q_invD(4) [OF i], of m] by (metis not_None_eq)
    then show False using ids_okD(2) [OF q_invD(5) [OF i]] f(1) by (metis leD)
  qed
qed

lemma le_add_nat:
  assumes "unat (m :: u64) + n < 2 ^ 64" "k \<le> n"
  shows "m \<le> m + word_of_nat k"
proof -
  have "unat (m + word_of_nat k) = unat m + k"
    using assms by (simp add: unat_word_ariths(1) unsigned_of_nat take_bit_nat_eq_self)
  then show ?thesis by (simp add: word_le_nat_alt)
qed

definition enqueued :: "i64 \<Rightarrow> EnqueueRequest list \<Rightarrow> u64 \<Rightarrow> (u64 \<rightharpoonup> amsg) \<Rightarrow> (queue_error + u64 list) \<Rightarrow> (u64 \<rightharpoonup> amsg) \<Rightarrow> bool" where
  "enqueued now reqs nid M res M' \<longleftrightarrow>
    (case res of
       Inr ids \<Rightarrow> ids = next_ids nid (length reqs) \<and> M' = M ++ map_of (zip ids (map (new_msg now) reqs))
     | Inl e \<Rightarrow> M' = M)"

text \<open>The resources an enqueue may use up before a counter wraps around.\<close>

definition enough :: "EnqueueRequest list \<Rightarrow> Queue \<Rightarrow> bool" where
  "enough reqs q \<longleftrightarrow> room (2 * length reqs) (q_pages q) \<and> unat (q_nextMsgID q) + length reqs < 2 ^ 64 \<and> (\<forall>r \<in> set reqs. small r)"

lemma enqueue_commit_spec:
  assumes i: "q_inv (F \<union> set (map it_ref its) \<union> set (map it_indexRef its')) q"
    and its: "its' = set_ids its xs" "length xs = length its" "map fst xs = next_ids nid (length reqs)"
    and d: "distinct (map it_ref its)" "distinct (map it_indexRef its')" "set (map it_ref its) \<inter> F = {}"
      "set (map it_indexRef its') \<inter> (F \<union> set (map it_ref its)) = {}"
    and st: "list_all2 (stored now (q_pages q)) reqs its" "\<forall>r \<in> set reqs. small r"
    and ids: "unat nid + length reqs < 2 ^ 64" "\<forall>m \<in> set (next_ids nid (length reqs)). m \<noteq> 0 \<and> m \<le> q_nextMsgID q \<and> messages q m = None"
    and c: "enqueue_commit io now now2 reqs its its' q = (res, q')"
  shows "q_inv F q' \<and> enqueued now reqs nid (messages q) res (messages q') \<and> same_reads F (q_pages q) (q_pages q')"
proof -
  obtain cr q2 where sub: "submitCommit (qi_commit io 0) (map it_ref its') (map2 (enqueue_rec now) reqs its') q = (cr, q2)" by force
  note e = submitCommit_same [OF sub] and e' = submitCommit_q_inv [OF sub]
  have f: "map it_ref its' = map it_ref its" "map it_msgID its' = next_ids nid (length reqs)"
    "list_all2 (stored now (q_pages q)) reqs its'"
    using set_ids_fields(1,2) [OF its(2)] set_ids_fields(3) [OF its(2) st(1)] its by simp_all
  show ?thesis
  proof (cases "cr_err cr")
    case (Some err)
    have o: "res = Inl err" "q' = enqueue_fail io (length reqs) its its' q2"
      using c sub Some by (simp_all add: enqueue_commit_def)
    have "q_inv (F \<union> set (map it_ref its) \<union> set (map it_indexRef its')) q2" using i e'(1) by blast
    note ef = enqueue_fail_spec [OF this d, of io "length reqs"]
    then show ?thesis using e'(2) e(8) unfolding o enqueued_def by simp
  next
    case None
    let ?q3 = "apply_items now now2 reqs its' q2"
    have "q_inv F ?q3 \<and> messages ?q3 = messages q2 ++ map_of (zip (map it_msgID its') (map (new_msg now) reqs))"
    proof (rule apply_items_spec)
      show "q_inv (F \<union> set (map it_ref its') \<union> set (map it_indexRef its')) q2" using i e'(1) f(1) by (metis set_map)
      show "distinct (map it_ref its' @ map it_indexRef its')" "set (map it_ref its' @ map it_indexRef its') \<inter> F = {}"
        unfolding f(1) distinct_append set_append using d by blast+
      show "distinct (map it_msgID its')" unfolding f(2) by (rule next_ids_distinct [OF ids(1)])
      show "\<forall>m \<in> set (map it_msgID its'). m \<noteq> 0 \<and> m \<le> q_nextMsgID q2 \<and> messages q2 m = None"
        unfolding f(2) e(9) e'(2) by (rule ids(2))
    qed (use f(3) st(2) e(8) in simp_all)
    moreover have "res = Inr (map it_msgID its')" "q_inv F q' = q_inv F ?q3" "messages q' = messages ?q3" "q_pages q' = q_pages ?q3"
      using c sub None by (auto simp: enqueue_commit_def Let_def)
    ultimately show ?thesis using e'(2) f(2) e(8) apply_items_pages [of now now2 reqs its' q2] by (simp add: enqueued_def same_reads_def)
  qed
qed

lemma enqueue_reserved_spec:
  assumes i: "q_inv F q" and n: "enough reqs q" and c: "enqueue_reserved io now now2 reqs q = (res, q')"
  shows "q_inv F q' \<and> enqueued now reqs (q_nextMsgID q) (messages q) res (messages q') \<and> same_reads F (q_pages q) (q_pages q')"
proof -
  note q = q_invD [OF i]
  have rm: "room (length reqs + length reqs) (q_pages q)" "unat (q_nextMsgID q) + length reqs < 2 ^ 64" "\<forall>r \<in> set reqs. small r"
    using n by (simp_all add: enough_def mult_2)
  obtain err its p where al: "alloc_payloads (qi_payload io) now 0 reqs (q_pages q) = (err, its, p)" by (metis prod_cases3)
  note a = alloc_payloads_spec [OF q(2) rm(1,3) al]
  have sub: "F \<subseteq> live (q_pages q)" "owned (prefs (q_slots q)) \<subseteq> live (q_pages q)" using heap_invD(2) [OF q(2)] by blast+
  have a3: "set (map it_ref its) \<inter> F = {}" using a sub(1) by blast
  let ?q1 = "q\<lparr>q_pages := p\<rparr>"
  have q1: "q_inv (F \<union> set (map it_ref its)) ?q1 \<and> messages ?q1 = messages q"
    by (rule q_inv_pages [OF i]) (use a sub q(1) in \<open>auto simp: same_reads_def\<close>)
  have f1: "same_reads F (q_pages q) (q_pages ?q1)" using a sub(1) by (auto simp: same_reads_def)
  show ?thesis
  proof (cases err)
    case (Some e)
    have o: "res = Inl e" "q' = enqueue_fail io (length reqs) its [] ?q1" using c al Some by (simp_all add: enqueue_reserved_def)
    show ?thesis
      using enqueue_fail_spec [of F its "[]" ?q1 io "length reqs"] q1 a a3 same_reads_chain [OF f1] unfolding o enqueued_def by simp
  next
    case None
    have len: "length its = length reqs" "list_all2 (stored now p) reqs its" using a None by (auto dest: list_all2_lengthD)
    obtain err2 ids nid p' where as: "assign_ids (qi_index io) 0 its (q_nextMsgID q) p = (err2, ids, nid, p')" by (metis prod_cases4)
    have h1: "heap_inv (F \<union> set (map it_ref its)) (prefs (q_slots q)) p" "room (0 + length its) p" using a len by simp_all
    note s = assign_ids_spec [OF h1 as]
    have lv: "live p = F \<union> set (map it_ref its) \<union> owned (prefs (q_slots q))" by (rule heap_invD(2) [OF h1(1)])
    have s3: "set (map it_indexRef ids) \<inter> (F \<union> set (map it_ref its)) = {}" using s lv by blast
    let ?q2 = "q\<lparr>q_pages := p', q_nextMsgID := nid\<rparr>"
    have "q_nextMsgID q \<le> nid" using s le_add_nat [OF rm(2)] len(1) by auto
    note nx = q_inv_next [OF i this]
    have c2: "core_inv {#} {#} {#} {} {#} (q_slots q) ?q2"
      by (rule core_inv_cong [where q = "q\<lparr>q_nextMsgID := nid\<rparr>"]) (use q_invD(1) [OF nx(1)] in simp_all)
    have "same_reads (owned (prefs (q_slots q))) (q_pages q) p'"
      by (rule same_reads_trans [of "live (q_pages q)" _ p "live p"]) (use a s sub lv in blast)+
    then have "q_inv (F \<union> set (map it_ref its) \<union> set (map it_indexRef ids)) ?q2 \<and> messages ?q2 = messages (q\<lparr>q_nextMsgID := nid\<rparr>)"
      by (intro q_inv_pages [OF nx(1)]) (use s c2 in simp_all)
    then have q2: "q_inv (F \<union> set (map it_ref its) \<union> set (map it_indexRef ids)) ?q2" "messages ?q2 = messages q" using nx(2) by simp_all
    have f2: "same_reads F (q_pages q) (q_pages ?q2)" using f1 s lv by (auto simp: same_reads_def)
    show ?thesis
    proof (cases err2)
      case (Some e)
      have o: "res = Inl e" "q' = enqueue_fail io (length reqs) its ids ?q2"
        using c al None as Some by (simp_all add: enqueue_reserved_def)
      show ?thesis
        using enqueue_fail_spec [OF q2(1) _ _ a3 s3, of io "length reqs"] q2(2) s a same_reads_chain [OF f2] unfolding o enqueued_def by simp
    next
      case n2: None
      have o: "enqueue_commit io now now2 reqs its ids ?q2 = (res, q')" using c al None as n2 by (simp add: enqueue_reserved_def)
      have st: "list_all2 (stored now (q_pages ?q2)) reqs its"
        using stored_same [OF len(2), of "live p" p'] s lv by auto
      have ids: "ids = set_ids its (zip (next_ids (q_nextMsgID q) (length its)) (map it_indexRef ids))" "length ids = length its"
        "nid = q_nextMsgID q + word_of_nat (length its)"
        using s n2 by blast+
      have "q_inv F q' \<and> enqueued now reqs (q_nextMsgID q) (messages ?q2) res (messages q') \<and> same_reads F (q_pages ?q2) (q_pages q')"
        by (rule enqueue_commit_spec [OF q2(1) ids(1) _ _ _ _ a3 s3 st rm(3,2) _ o])
          (use s a len ids(2,3) next_ids_new [OF i rm(2)] q2(2) in \<open>auto simp: map_fst_zip\<close>)
      then show ?thesis unfolding q2(2) using same_reads_chain [OF f2] by blast
    qed
  qed
qed

lemma Enqueue_full:
  assumes i: "q_inv F q" and n: "enough reqs q" and c: "q_Enqueue io now now2 reqs q = (res, q')"
  shows "q_inv F q' \<and> enqueued now reqs (q_nextMsgID q) (messages q) res (messages q') \<and> same_reads F (q_pages q) (q_pages q')"
proof -
  have e: "enqueued now [] (q_nextMsgID q) (messages q) (Inr []) (messages q)" "enqueued now reqs (q_nextMsgID q) (messages q) (Inl x) (messages q)" for x
    by (simp_all add: enqueued_def)
  have f: "same_reads F (q_pages q) (q_pages q)" by (simp add: same_reads_def)
  let ?q = "q\<lparr>q_reserved := q_reserved q + int (length reqs)\<rparr>"
  show ?thesis
  proof (cases "reqs = []")
    case True
    then show ?thesis using c i f e(1) by (simp add: q_Enqueue_def)
  next
    case ne: False
    show ?thesis
    proof (cases "find (\<lambda>r. sint (maxDelayMs (q_cfg q)) < sint (er_DelayMs r)) reqs")
      case (Some r)
      then show ?thesis using c ne i f e(2) by (auto simp: q_Enqueue_def Let_def)
    next
      case None
      show ?thesis
      proof (cases "over_depth (length reqs) q")
        case True
        then show ?thesis using c ne None i f e(2) by (auto simp: q_Enqueue_def Let_def)
      next
        case False
        have "enqueue_reserved io now now2 reqs ?q = (res, q')" using c ne None False by (simp add: q_Enqueue_def Let_def)
        moreover have "q_inv F ?q" "enough reqs ?q" using i n by (simp_all add: enough_def)
        ultimately show ?thesis using enqueue_reserved_spec [of F ?q reqs io now now2 res q'] by simp
      qed
    qed
  qed
qed

lemma Enqueue_spec:
  assumes "q_inv F q" "enough reqs q" "q_Enqueue io now now2 reqs q = (res, q')"
  shows "q_inv F q' \<and> enqueued now reqs (q_nextMsgID q) (messages q) res (messages q')"
  using Enqueue_full [OF assms] by blast

end
