(* ===== verification/Queue_Replay.thy ===== *)
theory Queue_Replay
  imports Queue_Enqueue
begin

text \<open>
  The replay of dead letters against the abstract specification: the selected dead messages are enqueued
  again, with the same payload and priority but new ids and no attempts, and then deleted; if the enqueue
  fails they stay dead.
\<close>

section \<open>Enqueue does not look at the dead letters\<close>

abbreviation with_dead :: "DeadMessage list \<Rightarrow> Queue \<Rightarrow> Queue" where
  "with_dead ds q \<equiv> q\<lparr>q_dead := ds\<rparr>"

lemma dead_commute_steps:
  "idx_put r s (with_dead ds q) = with_dead ds (idx_put r s q)"
  "ready_push now s r (with_dead ds q) = with_dead ds (ready_push now s r q)"
  "page_free io r (with_dead ds q) = with_dead ds (page_free io r q)"
  "idx_free io r (with_dead ds q) = with_dead ds (idx_free io r q)"
  "finish res (with_dead ds q) = with_dead ds (finish res q)"
  "notify (with_dead ds q) = with_dead ds (notify q)"
  by (simp_all add: idx_put_def ready_push_def page_free_def idx_free_def finish_def notify_def split: prod.split)

lemma dead_commute_submit:
  "submitCommit io refs recs (with_dead ds q) = (fst (submitCommit io refs recs q), with_dead ds (snd (submitCommit io refs recs q)))"
  by (simp add: submitCommit_def commit_flush_def Let_def split: prod.split)

lemma dead_commute_apply: "apply_items now now2 reqs its (with_dead ds q) = with_dead ds (apply_items now now2 reqs its q)"
proof (induction now now2 reqs its q rule: apply_items.induct)
  case (1 now now2 r rs it its q)
  have "apply_item now now2 r it (with_dead ds q) = with_dead ds (apply_item now now2 r it q)"
    by (simp add: apply_item_def Let_def dead_commute_steps)
  then show ?case using "1.IH" by simp
qed simp_all

lemma dead_commute_release:
  "release_refs io i rs (with_dead ds q) = with_dead ds (release_refs io i rs q)"
  "free_slots io i rs (with_dead ds q) = with_dead ds (free_slots io i rs q)"
  by (induction rs arbitrary: i q) (simp_all add: dead_commute_steps)

lemma dead_commute_fail: "enqueue_fail io n its ids (with_dead ds q) = with_dead ds (enqueue_fail io n its ids q)"
  by (simp add: enqueue_fail_def Let_def dead_commute_release)

lemma dead_commute_commit:
  assumes "enqueue_commit io now now2 reqs its its' q = (res, q')"
  shows "enqueue_commit io now now2 reqs its its' (with_dead ds q) = (res, with_dead ds q')"
  using assms
  by (auto simp: enqueue_commit_def dead_commute_submit dead_commute_fail dead_commute_apply finish_def notify_def Let_def
      split: prod.splits option.splits)

lemma dead_commute_reserved:
  assumes "enqueue_reserved io now now2 reqs q = (res, q')"
  shows "enqueue_reserved io now now2 reqs (with_dead ds q) = (res, with_dead ds q')"
proof -
  obtain err its p where al: "alloc_payloads (qi_payload io) now 0 reqs (q_pages q) = (err, its, p)" by (metis prod_cases3)
  obtain err2 ids nid p' where as: "assign_ids (qi_index io) 0 its (q_nextMsgID q) p = (err2, ids, nid, p')" by (metis prod_cases4)
  have c1: "with_dead ds q\<lparr>q_pages := p\<rparr> = with_dead ds (q\<lparr>q_pages := p\<rparr>)"
    "with_dead ds q\<lparr>q_pages := p', q_nextMsgID := nid\<rparr> = with_dead ds (q\<lparr>q_pages := p', q_nextMsgID := nid\<rparr>)" by simp_all
  show ?thesis
    using assms dead_commute_commit [of io now now2 reqs its ids "q\<lparr>q_pages := p', q_nextMsgID := nid\<rparr>" res q' ds]
    by (cases err; cases err2) (simp_all add: enqueue_reserved_def al as c1 dead_commute_fail del: Queue.update_convs)
qed

lemma dead_commute_Enqueue:
  assumes "q_Enqueue io now now2 reqs q = (res, q')"
  shows "q_Enqueue io now now2 reqs (with_dead ds q) = (res, with_dead ds q')"
proof -
  have c: "with_dead ds q\<lparr>q_reserved := k\<rparr> = with_dead ds (q\<lparr>q_reserved := k\<rparr>)" for k by simp
  have d: "over_depth n (with_dead ds q) = over_depth n q" for n by (simp add: over_depth_def)
  show ?thesis
    using assms dead_commute_reserved [of io now now2 reqs "q\<lparr>q_reserved := q_reserved q + int (length reqs)\<rparr>" res q' ds]
    by (auto simp: q_Enqueue_def Let_def c d split: if_splits option.splits)
qed

lemma Enqueue_dead:
  assumes "q_Enqueue io now now2 reqs q = (res, q')"
  shows "q_dead q' = q_dead q"
proof -
  have "with_dead (q_dead q) q = q" by simp
  then have "q' = with_dead (q_dead q) q'" using dead_commute_Enqueue [OF assms, of "q_dead q"] assms by simp
  from arg_cong [OF this, of q_dead] show ?thesis by simp
qed

section \<open>Deleting dead letters\<close>

abbreviation dead_keys :: "DeadMessage list \<Rightarrow> DeadMessage multiset" where
  "dead_keys ds \<equiv> image_mset (\<lambda>d. d\<lparr>dm_Payload := []\<rparr>) (mset ds)"

lemma free_dead_spec:
  assumes "place_inv {#} {#} {#} {} (dead_keys dms) q" "data_inv F q"
  shows "q_inv F (free_dead io i dms q) \<and> messages (free_dead io i dms q) = messages q |` (- set (map dm_ID dms)) \<and>
    same_reads F (q_pages q) (q_pages (free_dead io i dms q))"
  using assms
proof (induction dms arbitrary: i q)
  case Nil
  have "messages q |` UNIV = messages q" by (rule ext) (simp add: restrict_map_def)
  then show ?case using Nil by (simp add: q_inv_data same_reads_def)
next
  case (Cons dm dms)
  have "dm\<lparr>dm_Payload := []\<rparr> \<in># dead_view q + dead_keys (dm # dms)" by simp
  then obtain r s where s: "q_slots q r = Some s" "s_State s = StateDead" "dead_key r s = dm\<lparr>dm_Payload := []\<rparr>"
    using xt.member [OF core_invD(6) [OF Cons.prems(1)]] by blast
  have f: "dm_indexRef dm = r" "dm_payloadRef dm = s_PayloadRef s" "dm_ID dm = s_MsgID s"
    using arg_cong [OF s(3), of dm_indexRef] arg_cong [OF s(3), of dm_payloadRef] arg_cong [OF s(3), of dm_ID]
    by (simp_all add: dead_key_def)
  note h = data_invD(2) [OF Cons.prems(2)]
  have "r \<in> live (q_pages q)" "s_PayloadRef s \<in> live (q_pages q)"
    using owned_live [OF h prefs_Some [of "q_slots q", OF s(1)]] by blast+
  then have nz: "r \<noteq> 0" "s_PayloadRef s \<noteq> 0" using live_nonzero [OF heap_invD(1) [OF h]] by blast+
  let ?q2 = "idx_free (io (2 * i + 1)) r (page_free (io (2 * i)) (s_PayloadRef s) q)"
  have "core_inv {#} {#} {#} {} (add_mset (dead_key r s) (dead_keys dms)) (q_slots q) q" using Cons.prems(1) s(3) by simp
  note rm = remove_dead [OF this s(1,2)]
  have c: "core_inv {#} {#} {#} {} (dead_keys dms) (without r q) ?q2" by (rule core_idx_free) (use rm in simp)
  have d: "data_inv F ?q2 \<and> messages ?q2 = (messages q)(s_MsgID s := None)"
    by (rule delete_data [OF Cons.prems(2) s(1) c, of "io (2 * i + 1)" "io (2 * i)"]) simp_all
  have c2: "place_inv {#} {#} {#} {} (dead_keys dms) ?q2" using c by simp
  have 1: "free_dead io i (dm # dms) q = free_dead io (Suc i) dms ?q2" using nz by (simp add: f Let_def)
  have 2: "(messages q)(s_MsgID s := None) |` (- set (map dm_ID dms)) = messages q |` (- set (map dm_ID (dm # dms)))"
    by (rule ext) (simp add: restrict_map_def f(3))
  have "same_reads F (q_pages q) (q_pages ?q2)"
    using heap_free(2) [OF h prefs_Some [of "q_slots q", OF s(1)], of "io (2 * i + 1)" "io (2 * i)"] by (simp add: same_reads_def)
  then show ?case
    using Cons.IH [OF c2 conjunct1 [OF d], of "Suc i"] same_reads_chain unfolding 1 2 [symmetric] conjunct2 [OF d, symmetric] by blast
qed

section \<open>The list of dead letters\<close>

lemma dead_list:
  assumes i: "q_inv F q"
  shows "distinct (map dm_ID (q_dead q))" "set (map dm_ID (q_dead q)) = with_status (\<lambda>st. st = Dead) (messages q)"
    "dm \<in> set (q_dead q) \<Longrightarrow> \<exists>a. messages q (dm_ID dm) = Some a \<and> am_payload a = dm_Payload dm \<and> am_priority a = dm_Priority dm"
proof -
  note q = q_invD [OF i]
  let ?strip = "\<lambda>d :: DeadMessage. d\<lparr>dm_Payload := []\<rparr>"
  have t: "tracks dead_key StateDead (dead_view q) (q_slots q)" using core_invD(6) [OF q(1)] by simp
  have view: "dead_view q = mset (map ?strip (q_dead q))" by (simp add: dead_view_def)
  have mem: "k \<in> set (map ?strip (q_dead q)) \<longleftrightarrow> (\<exists>r s. q_slots q r = Some s \<and> s_State s = StateDead \<and> dead_key r s = k)" for k
    using xt.member [OF t, of k] unfolding view set_mset_mset .
  have "distinct (map ?strip (q_dead q))"
    unfolding distinct_count_atmost_1
  proof
    fix k
    have "count (mset (map ?strip (q_dead q))) k \<le> 1" using t unfolding tracks_def view by (simp split: if_splits)
    moreover have "k \<in> set (map ?strip (q_dead q)) \<longleftrightarrow> 0 < count (mset (map ?strip (q_dead q))) k"
      unfolding count_greater_zero_iff by simp
    ultimately show "count (mset (map ?strip (q_dead q))) k = (if k \<in> set (map ?strip (q_dead q)) then 1 else 0)"
      by (simp only: split: if_splits) linarith
  qed
  moreover have "inj_on dm_ID (set (map ?strip (q_dead q)))"
  proof (rule inj_onI)
    fix x y assume xy: "x \<in> set (map ?strip (q_dead q))" "y \<in> set (map ?strip (q_dead q))" "dm_ID x = dm_ID y"
    obtain r s r' s' where s: "q_slots q r = Some s" "dead_key r s = x" "q_slots q r' = Some s'" "dead_key r' s' = y"
      using xy(1,2) unfolding mem by blast
    have "s_MsgID s' = s_MsgID s" using xy(3) arg_cong [OF s(2), of dm_ID] arg_cong [OF s(4), of dm_ID] by (simp add: dead_key_def)
    then have "r' = r" by (rule ids_okD(4) [OF q(5) s(1,3)])
    then show "x = y" using s by simp
  qed
  ultimately have "distinct (map dm_ID (map ?strip (q_dead q)))" unfolding distinct_map by blast
  then show "distinct (map dm_ID (q_dead q))" by (simp add: comp_def)
  have ids: "set (map dm_ID (q_dead q)) = dm_ID ` set (map ?strip (q_dead q))" by (simp add: image_image)
  show "set (map dm_ID (q_dead q)) = with_status (\<lambda>st. st = Dead) (messages q)"
  proof (intro set_eqI iffI)
    fix m assume "m \<in> set (map dm_ID (q_dead q))"
    then obtain k where k: "k \<in> set (map ?strip (q_dead q))" "m = dm_ID k" unfolding ids by blast
    obtain r s where s: "q_slots q r = Some s" "s_State s = StateDead" "dm_ID (dead_key r s) = m" using mem [of k] k by blast
    have "status_of s = Dead" using state_status(4) [OF i s(1)] s(2) by blast
    then show "m \<in> with_status (\<lambda>st. st = Dead) (messages q)"
      unfolding with_status_slots [OF i] using s(1,3) by (auto simp: dead_key_def)
  next
    fix m assume "m \<in> with_status (\<lambda>st. st = Dead) (messages q)"
    then obtain r s where s: "q_slots q r = Some s" "s_MsgID s = m" "status_of s = Dead" unfolding with_status_slots [OF i] by blast
    have "s_State s = StateDead" using state_status(4) [OF i s(1)] s(3) by blast
    then have "dead_key r s \<in> set (map ?strip (q_dead q))" unfolding mem using s(1) by blast
    moreover have "m = dm_ID (dead_key r s)" using s(2) by (simp add: dead_key_def)
    ultimately show "m \<in> set (map dm_ID (q_dead q))" unfolding ids by blast
  qed
  assume dm: "dm \<in> set (q_dead q)"
  obtain r s where s: "q_slots q r = Some s" "dead_key r s = ?strip dm" "s_MsgID s = dm_ID dm" by (rule dead_ids [OF q(1) dm])
  have f: "dm_indexRef dm = r" "dm_Priority dm = s_Priority s"
    using arg_cong [OF s(2), of dm_indexRef] arg_cong [OF s(2), of dm_Priority] by (simp_all add: dead_key_def)
  have "dm_Payload dm = body (q_pages q) s" using q(3) dm s(1) f(1) unfolding dead_ok_def by blast
  then show "\<exists>a. messages q (dm_ID dm) = Some a \<and> am_payload a = dm_Payload dm \<and> am_priority a = dm_Priority dm"
    using view_Some [OF q(4) s(1)] s(3) f(2) by (intro exI [of _ "msg_of (q_pages q) s"]) (simp add: msg_of_def)
qed

section \<open>Replay\<close>

abbreviation replay_sel :: "u64 list \<Rightarrow> DeadMessage \<Rightarrow> bool" where
  "replay_sel ids dm \<equiv> ids = [] \<or> dm_ID dm \<in> set ids"

definition replay_reqs :: "u64 list \<Rightarrow> i64 \<Rightarrow> Queue \<Rightarrow> EnqueueRequest list" where
  "replay_reqs ids delayMs q = map (\<lambda>dm. \<lparr>er_Payload = dm_Payload dm, er_Priority = dm_Priority dm, er_DelayMs = delayMs\<rparr>)
     (filter (replay_sel ids) (q_dead q))"

definition replay_ids :: "u64 list \<Rightarrow> Queue \<Rightarrow> u64 list" where
  "replay_ids ids q = map dm_ID (filter (replay_sel ids) (q_dead q))"

definition again :: "i64 \<Rightarrow> amsg \<Rightarrow> EnqueueRequest" where
  "again delayMs a = \<lparr>er_Payload = am_payload a, er_Priority = am_priority a, er_DelayMs = delayMs\<rparr>"

lemma replay_lists:
  assumes i: "q_inv F q"
  shows "distinct (replay_ids ids q)"
    "set (replay_ids ids q) = {m \<in> with_status (\<lambda>st. st = Dead) (messages q). ids = [] \<or> m \<in> set ids}"
    "replay_reqs ids delayMs q = map (\<lambda>m. again delayMs (the (messages q m))) (replay_ids ids q)"
proof -
  note d = dead_list [OF i]
  show "distinct (replay_ids ids q)" using d(1) unfolding replay_ids_def by (simp add: distinct_map_filter)
  have "set (replay_ids ids q) = {m \<in> set (map dm_ID (q_dead q)). ids = [] \<or> m \<in> set ids}" by (auto simp: replay_ids_def)
  then show "set (replay_ids ids q) = {m \<in> with_status (\<lambda>st. st = Dead) (messages q). ids = [] \<or> m \<in> set ids}" unfolding d(2) .
  have "\<lparr>er_Payload = dm_Payload dm, er_Priority = dm_Priority dm, er_DelayMs = delayMs\<rparr> = again delayMs (the (messages q (dm_ID dm)))"
    if "dm \<in> set (q_dead q)" for dm using d(3) [OF that] by (auto simp: again_def)
  then show "replay_reqs ids delayMs q = map (\<lambda>m. again delayMs (the (messages q m))) (replay_ids ids q)"
    by (simp add: replay_reqs_def replay_ids_def)
qed

lemma with_dead_core:
  assumes "queue_inv q" "dead_keys ds + X = dead_view q"
  shows "place_inv {#} {#} {#} {} X (with_dead ds q)"
proof -
  have "dead_view (with_dead ds q) + X = dead_view q" using assms(2) by (simp add: dead_view_def)
  then show ?thesis using core_invD [OF assms(1)] by (simp add: core_inv_def shape_inv_def q_dir_def ready_view_def)
qed

lemma with_dead_data:
  assumes "data_inv F q" "set ds \<subseteq> set (q_dead q)"
  shows "data_inv F (with_dead ds q)"
  using assms by (auto simp: data_inv_def dead_ok_def)

definition replayed :: "i64 \<Rightarrow> i64 \<Rightarrow> u64 list \<Rightarrow> u64 \<Rightarrow> (u64 \<rightharpoonup> amsg) \<Rightarrow> (queue_error + u64 list) \<Rightarrow> (u64 \<rightharpoonup> amsg) \<Rightarrow> bool" where
  "replayed now delayMs ms nid M res M' \<longleftrightarrow>
    (case res of
       Inr ids \<Rightarrow> ids = next_ids nid (length ms) \<and>
         M' = M |` (- set ms) ++ map_of (zip ids (map (\<lambda>m. new_msg now (again delayMs (the (M m)))) ms))
     | Inl e \<Rightarrow> M' = M)"

lemma restrict_add: "dom N \<inter> S = {} \<Longrightarrow> (M ++ N) |` (- S) = M |` (- S) ++ N"
  by (rule ext) (auto simp: restrict_map_def map_add_def split: option.split)

lemma Replay_full:
  assumes i: "q_inv F q" and n: "enough (replay_reqs ids delayMs q) q"
    and c: "q_Replay io fio now now2 ids delayMs q = (res, q')"
  shows "q_inv F q' \<and> replayed now delayMs (replay_ids ids q) (q_nextMsgID q) (messages q) res (messages q') \<and>
    same_reads F (q_pages q) (q_pages q')"
proof -
  define sel where "sel = filter (replay_sel ids) (q_dead q)"
  define rest where "rest = filter (\<lambda>dm. \<not> replay_sel ids dm) (q_dead q)"
  let ?reqs = "replay_reqs ids delayMs q" and ?M = "messages q"
  have ri: "replay_ids ids q = map dm_ID sel" "?reqs = map (\<lambda>m. again delayMs (the (?M m))) (replay_ids ids q)"
    using replay_lists(3) [OF i] by (simp_all add: replay_ids_def sel_def)
  have part: "mset rest + mset sel = mset (q_dead q)" "set rest \<union> set sel = set (q_dead q)"
    unfolding rest_def sel_def by (simp_all add: multiset_partition [symmetric] add.commute) blast
  obtain r2 q2 where en: "q_Enqueue io now now2 ?reqs q = (r2, q2)" by force
  note e = Enqueue_full [OF i n en]
  have d2: "q_dead q2 = q_dead q" by (rule Enqueue_dead [OF en])
  have keys: "dead_keys rest + dead_keys sel = dead_view q2"
    using part(1) unfolding dead_view_def d2 by (metis image_mset_union)
  have q2: "queue_inv q2" "data_inv F q2" using e unfolding q_inv_data by blast+
  note en' = dead_commute_Enqueue [OF en, of rest]
  have rp: "q_Replay io fio now now2 ids delayMs q =
      (if sel = [] then (Inr [], with_dead rest q)
       else (case r2 of Inl x \<Rightarrow> (Inl x, with_dead (rest @ sel) q2)
             | Inr new \<Rightarrow> (let q3 = free_dead fio 0 sel (with_dead rest q2)
                 in (Inr new, q3\<lparr>q_statReplayed := q_statReplayed q3 + word_of_nat (length new)\<rparr>))))"
    using en' unfolding q_Replay_def Let_def replay_reqs_def sel_def [symmetric] rest_def [symmetric] by (simp split: sum.split)
  show ?thesis
  proof (cases "sel = []")
    case True
    have "rest = q_dead q" using True unfolding rest_def sel_def filter_empty_conv by (simp add: filter_id_conv)
    then have "res = Inr []" "q' = q" using c True unfolding rp by simp_all
    moreover have "?M |` UNIV = ?M" by (rule ext) (simp add: restrict_map_def)
    ultimately show ?thesis using i True by (simp add: replayed_def ri(1) same_reads_def)
  next
    case ne: False
    show ?thesis
    proof (cases r2)
      case (Inl x)
      have o: "res = Inl x" "q' = with_dead (rest @ sel) q2" using c ne Inl unfolding rp by simp_all
      have "place_inv {#} {#} {#} {} {#} q'" unfolding o(2) by (rule with_dead_core [OF q2(1)]) (use keys in simp)
      moreover have "data_inv F q'" unfolding o(2) by (rule with_dead_data [OF q2(2)]) (use part(2) d2 in auto)
      ultimately show ?thesis using e Inl unfolding q_inv_data o by (simp add: replayed_def enqueued_def)
    next
      case (Inr new)
      let ?q3 = "free_dead fio 0 sel (with_dead rest q2)"
      have o: "res = Inr new" "q' = ?q3\<lparr>q_statReplayed := q_statReplayed ?q3 + word_of_nat (length new)\<rparr>"
        using c ne Inr unfolding rp by (simp_all add: Let_def)
      have "place_inv {#} {#} {#} {} (dead_keys sel) (with_dead rest q2)" by (rule with_dead_core [OF q2(1) keys])
      moreover have "data_inv F (with_dead rest q2)" by (rule with_dead_data [OF q2(2)]) (use part(2) d2 in auto)
      ultimately have f: "q_inv F ?q3 \<and> messages ?q3 = messages q2 |` (- set (map dm_ID sel))" "same_reads F (q_pages q) (q_pages ?q3)"
        using free_dead_spec [of sel "with_dead rest q2" F fio 0] e same_reads_chain by auto
      let ?N = "map_of (zip new (map (new_msg now) ?reqs))"
      have m2: "messages q2 = ?M ++ ?N" "new = next_ids (q_nextMsgID q) (length ?reqs)"
        using e Inr by (simp_all add: enqueued_def)
      have "set new \<inter> set (replay_ids ids q) = {}"
      proof -
        have "?M m = None" if "m \<in> set new" for m
          using next_ids_new(3) [OF i _ that [unfolded m2(2)]] n by (simp add: enough_def)
        moreover have "?M m \<noteq> None" if "m \<in> set (replay_ids ids q)" for m
          using that replay_lists(2) [OF i, of ids] by (auto simp: with_status_def)
        ultimately show ?thesis by blast
      qed
      then have "dom ?N \<inter> set (replay_ids ids q) = {}" using m2(2) by (simp add: dom_map_of_zip)
      from restrict_add [OF this, of ?M] have "messages q' = ?M |` (- set (replay_ids ids q)) ++ ?N"
        using f unfolding o(2) m2(1) ri(1) by simp
      moreover have "map (new_msg now) ?reqs = map (\<lambda>m. new_msg now (again delayMs (the (?M m)))) (replay_ids ids q)"
        unfolding ri(2) by simp
      moreover have "length ?reqs = length (replay_ids ids q)" unfolding ri(2) by simp
      ultimately show ?thesis using f m2(2) unfolding o by (simp add: replayed_def)
    qed
  qed
qed

lemma Replay_spec:
  assumes "q_inv F q" "enough (replay_reqs ids delayMs q) q" "q_Replay io fio now now2 ids delayMs q = (res, q')"
  shows "q_inv F q' \<and> replayed now delayMs (replay_ids ids q) (q_nextMsgID q) (messages q) res (messages q')"
  using Replay_full [OF assms] by blast

end
