(* ===== verification/Queue_Run.thy ===== *)
theory Queue_Run
  imports Queue_Replay
begin

text \<open>
  Runs of a queue: sequences of handler calls, with any outcome of the system calls, any clock readings
  and any nonces.  The step relation labels each step with what it is meant to do to the set of messages;
  along every run the invariant holds and the messages, with their payloads, are exactly what the labels
  say, so no message is lost, duplicated or corrupted.
\<close>

datatype event =
    Added "(u64 \<times> bytes) list"
  | Acked u64
  | Requeued "(u64 \<times> u64) list"
  | Quiet

inductive queue_step :: "Queue \<Rightarrow> event \<Rightarrow> Queue \<Rightarrow> bool" where
  enqueue: "q_Enqueue io now now2 reqs q = (Inr ids, q') \<Longrightarrow> enough reqs q \<Longrightarrow>
    queue_step q (Added (zip ids (map er_Payload reqs))) q'"
| enqueue_fails: "q_Enqueue io now now2 reqs q = (Inl e, q') \<Longrightarrow> enough reqs q \<Longrightarrow> queue_step q Quiet q'"
| lease: "q_Lease io nonces now now2 mx vis q = (res, q') \<Longrightarrow> queue_step q Quiet q'"
| ack: "q_Ack io receipt q = (Inr (), q') \<Longrightarrow> decodeReceipt receipt = Some (m, att, nonce) \<Longrightarrow> queue_step q (Acked m) q'"
| ack_fails: "q_Ack io receipt q = (Inl e, q') \<Longrightarrow> queue_step q Quiet q'"
| nack: "q_Nack io now now2 receipt delayMs q = (res, q') \<Longrightarrow> queue_step q Quiet q'"
| replay: "q_Replay io fio now now2 ids delayMs q = (Inr new, q') \<Longrightarrow> enough (replay_reqs ids delayMs q) q \<Longrightarrow>
    queue_step q (Requeued (zip (replay_ids ids q) new)) q'"
| replay_fails: "q_Replay io fio now now2 ids delayMs q = (Inl e, q') \<Longrightarrow> enough (replay_reqs ids delayMs q) q \<Longrightarrow>
    queue_step q Quiet q'"
| tick: "tick io xio rm now q = (ok, q') \<Longrightarrow> queue_step q Quiet q'"
| checkpoint: "q_Checkpoint xio rm q = (ok, q') \<Longrightarrow> queue_step q Quiet q'"

inductive queue_run :: "Queue \<Rightarrow> event list \<Rightarrow> Queue \<Rightarrow> bool" where
  start: "queue_run q [] q"
| step: "queue_run q evs q1 \<Longrightarrow> queue_step q1 ev q2 \<Longrightarrow> queue_run q (evs @ [ev]) q2"

definition payloads :: "Queue \<Rightarrow> u64 \<rightharpoonup> bytes" where
  "payloads q = (\<lambda>m. map_option am_payload (messages q m))"

fun apply_event :: "(u64 \<rightharpoonup> bytes) \<Rightarrow> event \<Rightarrow> u64 \<rightharpoonup> bytes" where
  "apply_event P (Added xs) = P ++ map_of xs"
| "apply_event P (Acked m) = P(m := None)"
| "apply_event P (Requeued xs) = P |` (- set (map fst xs)) ++ map_of (map (\<lambda>(old, new). (new, the (P old))) xs)"
| "apply_event P Quiet = P"

section \<open>Payloads under the abstract operations\<close>

lemma payload_status [simp]: "am_payload (a\<lparr>am_status := st\<rparr>) = am_payload a"
  by simp

lemma payload_kept [simp]:
  "am_payload (a_promote now a) = am_payload a" "am_payload (tick_msg cfg now ok a) = am_payload a"
  "am_payload (nacked cfg t now2 a) = am_payload a" "am_payload (lease_msg until nonce a) = am_payload a"
  "am_payload (unlease_msg a) = am_payload a" "am_payload (new_msg now r) = er_Payload r"
proof -
  show p: "am_payload (a_promote now a) = am_payload a" for a by (simp add: a_promote_def split: status.split)
  show "am_payload (tick_msg cfg now ok a) = am_payload a" by (simp add: tick_msg_def Let_def p)
qed (simp_all add: nacked_def lease_msg_def unlease_msg_def new_msg_def)

lemma map_of_zip_payload: "map_option f (map_of (zip ids xs) m) = map_of (zip ids (map f xs)) m"
proof (induction ids arbitrary: xs)
  case (Cons i ids)
  then show ?case by (cases xs) auto
qed simp

lemma payloads_lease:
  assumes "\<forall>m \<in> set ms. M m \<noteq> None"
  shows "map_option am_payload ((M ++ map_of (per_lease (\<lambda>nonce m a. (m, lease_msg until nonce a)) nonces i M ms)) m) = map_option am_payload (M m)"
proof -
  have "(m, b) \<in> set (per_lease (\<lambda>nonce m a. (m, lease_msg until nonce a)) nonces i M ms) \<Longrightarrow> \<exists>a. M m = Some a \<and> am_payload b = am_payload a" for b
    using assms by (induction ms arbitrary: i) auto
  then show ?thesis by (fastforce simp: map_add_def split: option.split dest!: map_of_SomeD)
qed

section \<open>Steps\<close>

lemma settles_payloads:
  assumes "settles io receipt rc upd q res q'"
  shows "(\<exists>e. res = Inl e) \<and> messages q' = messages q \<or>
    (\<exists>m att nonce. decodeReceipt receipt = Some (m, att, nonce) \<and> res = Inr () \<and> messages q' = upd m (messages q))"
proof (cases "current (messages q) receipt")
  case None
  then show ?thesis using assms by (simp add: settles_def)
next
  case (Some x)
  obtain m nonce where x: "x = (m, nonce)" by force
  obtain att where d: "decodeReceipt receipt = Some (m, att, nonce)"
    using Some x by (auto simp: current_def split: option.splits status.splits if_splits)
  obtain cr qc where c: "submitCommit io [] [rc m nonce] q = (cr, qc)" by force
  show ?thesis using assms Some x c d by (cases "cr_err cr") (simp_all add: settles_def)
qed

lemma step_lease:
  assumes i: "q_inv F q" and l: "q_Lease io nonces now now2 mx vis q = (res, q')"
  shows "q_inv F q' \<and> payloads q' = payloads q"
proof -
  let ?M = "promote_msgs now (messages q)"
  have M: "map_option am_payload (?M m) = payloads q m" for m
    by (simp add: payloads_def promote_msgs_def option.map_comp comp_def)
  show ?thesis
  proof (cases "leaseCap < mx")
    case True
    then show ?thesis using Lease_panic [OF i l True] M by (simp add: payloads_def fun_eq_iff)
  next
    case False
    obtain ms where ms: "lease_choice (lease_max mx) (q_ready (promoteLocked now q)) ?M ms"
      "lease_result nonces (lease_until now vis q) ?M ms (lease_err (qi_commit io 0) nonces (lease_until now vis q) ?M ms q) res (messages q')"
      and i': "q_inv F q'"
      using Lease_spec [OF i l False] by blast
    have some: "\<forall>m \<in> set ms. ?M m \<noteq> None" using ms(1) by (auto simp: lease_choice_def with_status_def)
    have "map_option am_payload (messages q' m) = map_option am_payload (?M m)" for m
      using ms(2) payloads_lease [OF some, of "lease_until now vis q" nonces 0 m] unfolding lease_result_def
      by (auto split: option.splits simp: option.map_comp comp_def)
    then show ?thesis using i' M by (simp add: payloads_def fun_eq_iff)
  qed
qed

lemma step_tick:
  assumes "q_inv F q" "tick io xio rm now q = (ok, q')"
  shows "q_inv F q' \<and> payloads q' = payloads q"
  using tick_spec [OF assms(1), of io xio rm now] assms(2) by (auto simp: payloads_def option.map_comp comp_def)

lemma step_enqueue:
  assumes "q_inv F q" "enough reqs q" "q_Enqueue io now now2 reqs q = (Inr ids, q')"
  shows "q_inv F q' \<and> payloads q' = payloads q ++ map_of (zip ids (map er_Payload reqs))"
proof -
  have e: "q_inv F q'" "messages q' = messages q ++ map_of (zip ids (map (new_msg now) reqs))"
    using Enqueue_spec [OF assms] by (simp_all add: enqueued_def)
  have "payloads q' m = (payloads q ++ map_of (zip ids (map er_Payload reqs))) m" for m
    using map_of_zip_payload [of am_payload ids "map (new_msg now) reqs" m]
    by (cases "map_of (zip ids (map (new_msg now) reqs)) m") (auto simp: payloads_def e(2) map_add_def comp_def split: option.split)
  then show ?thesis using e(1) by blast
qed

lemma map_of_requeued:
  "length ids = length ms \<Longrightarrow>
   map_of (map (\<lambda>(old, new). (new, f old)) (zip ms ids)) m = map_of (zip ids (map f ms)) m"
  by (induction ids ms rule: list_induct2) auto

lemma step_replay:
  assumes i: "q_inv F q" and n: "enough (replay_reqs ids delayMs q) q"
    and c: "q_Replay io fio now now2 ids delayMs q = (Inr new, q')"
  shows "q_inv F q' \<and> payloads q' = apply_event (payloads q) (Requeued (zip (replay_ids ids q) new))"
proof -
  let ?ms = "replay_ids ids q" and ?f = "\<lambda>m. new_msg now (again delayMs (the (messages q m)))"
  have e: "q_inv F q'" "length new = length ?ms" "messages q' = messages q |` (- set ?ms) ++ map_of (zip new (map ?f ?ms))"
    using Replay_spec [OF i n c] by (simp_all add: replayed_def)
  have some: "m \<in> set ?ms \<Longrightarrow> \<exists>a. messages q m = Some a" for m
    using replay_lists(2) [OF i, of ids] by (auto simp: with_status_def)
  have pl: "map (am_payload \<circ> ?f) ?ms = map (\<lambda>m. the (payloads q m)) ?ms"
    using some by (auto simp: payloads_def again_def option.map_sel)
  have "payloads q' m = apply_event (payloads q) (Requeued (zip ?ms new)) m" for m
  proof -
    have "map_option am_payload (map_of (zip new (map ?f ?ms)) m) = map_of (map (\<lambda>(old, new). (new, the (payloads q old))) (zip ?ms new)) m"
      unfolding map_of_requeued [OF e(2)] map_of_zip_payload map_map pl ..
    moreover have "map fst (zip ?ms new) = ?ms" using e(2) by simp
    ultimately show ?thesis
      unfolding payloads_def e(3) apply_event.simps
      by (auto simp: map_add_def restrict_map_def payloads_def split: option.splits)
  qed
  then show ?thesis using e(1) by blast
qed

lemma step_spec:
  assumes "queue_step q ev q'" "q_inv F q"
  shows "q_inv F q' \<and> payloads q' = apply_event (payloads q) ev"
  using assms(1)
proof cases
  case (enqueue io now now2 reqs ids)
  then show ?thesis using step_enqueue [OF assms(2)] by simp
next
  case (enqueue_fails io now now2 reqs e)
  then show ?thesis using Enqueue_spec [OF assms(2) enqueue_fails(3,2)] by (simp add: enqueued_def payloads_def)
next
  case (lease io nonces now now2 mx vis res)
  then show ?thesis using step_lease [OF assms(2)] by simp
next
  case (ack io receipt m att nonce)
  note a = Ack_spec [OF assms(2) ack(2)]
  have "messages q' = (messages q)(m := None)" using settles_payloads [OF conjunct2 [OF a]] ack(3) by auto
  then show ?thesis using a ack(1) by (auto simp: payloads_def)
next
  case (ack_fails io receipt e)
  note a = Ack_spec [OF assms(2) ack_fails(2)]
  have "messages q' = messages q" using settles_payloads [OF conjunct2 [OF a]] by auto
  then show ?thesis using a ack_fails(1) by (simp add: payloads_def)
next
  case (nack io now now2 receipt delayMs res)
  note a = Nack_spec [OF assms(2) nack(2)]
  let ?t = "nack_at now delayMs"
  have "messages q' = messages q \<or> (\<exists>m. messages q' = nack_upd (q_cfg q) ?t now2 m (messages q))"
    using settles_payloads [OF conjunct2 [OF a]] by auto
  then have "payloads q' = payloads q"
    by (auto simp: payloads_def nack_upd_def option.map_comp comp_def fun_eq_iff)
  then show ?thesis using a nack(1) by simp
next
  case (replay io fio now now2 ids delayMs new)
  then show ?thesis using step_replay [OF assms(2)] by simp
next
  case (replay_fails io fio now now2 ids delayMs e)
  then show ?thesis using Replay_spec [OF assms(2) replay_fails(3,2)] by (simp add: replayed_def payloads_def)
next
  case (tick io xio rm now ok)
  then show ?thesis using step_tick [OF assms(2)] by simp
next
  case (checkpoint xio rm ok)
  then show ?thesis using Checkpoint_same [OF checkpoint(2)] assms(2) by (simp add: payloads_def)
qed

lemma run_spec:
  assumes "queue_run q0 evs q" "q_inv F q0"
  shows "q_inv F q \<and> payloads q = foldl apply_event (payloads q0) evs"
  using assms
proof (induction rule: queue_run.induct)
  case (step q evs q1 ev q2)
  then show ?case using step_spec [OF step.hyps(2), of F] by simp
qed simp

end
