(* ===== verification/Queue_Frame.thy ===== *)
theory Queue_Frame
  imports Queue_Run
begin

text \<open>
  Which handlers touch the page store, and that those that do keep the bytes of every reference that is not
  theirs: the frame condition that lets queues share one store.
\<close>

section \<open>Handlers that leave the store alone\<close>

lemma Nack_fields:
  assumes "q_Nack io now now2 receipt delayMs q = (res, q')"
  shows "q_pages q' = q_pages q" "q_nextMsgID q' = q_nextMsgID q"
proof -
  define same where "same = (\<lambda>(a :: Queue) (b :: Queue). q_pages b = q_pages a \<and> q_nextMsgID b = q_nextMsgID a)"
  have 1: "same q (snd (take_lease receipt q))"
    by (simp add: same_def take_lease_def Let_def split: option.split prod.split)
  have 2: "same a (snd (submitCommit cio refs recs a))" for cio refs recs a
    using submitCommit_same(8,9) [of cio refs recs a] by (cases "submitCommit cio refs recs a") (simp add: same_def)
  have 3: "same a (restoreLeaseLocked info s a)" "same a (deadLetterLocked s r payload a)" "same a (snd (nack_requeue t1 t2 r s a))"
    for info s r payload t1 t2 a
    by (simp_all add: same_def restoreLeaseLocked_def deadLetterLocked_def nack_requeue_def Let_def)
  obtain x q1 where t: "take_lease receipt q = (x, q1)" by force
  have "same q q'"
  proof (cases x)
    case None
    then show ?thesis using assms t 1 by (simp add: q_Nack_def)
  next
    case (Some y)
    obtain m info slot where y: "y = (m, info, slot)" by (metis prod_cases3)
    define rc where "rc = (if to_dead slot q1 then mk_rec OpDead (BDead \<lparr>de_MsgID = m, de_Reason = 1\<rparr>)
        else mk_rec OpNack (BNack \<lparr>na_MsgID = m, na_Nonce = li_nonce info, na_RequeueAtMs = nack_at now delayMs\<rparr>))"
    obtain cr q2 where c: "submitCommit (qi_commit io 0) [] [rc] q1 = (cr, q2)" by force
    have s2: "q_pages q2 = q_pages q" "q_nextMsgID q2 = q_nextMsgID q"
      using 1 2 [of q1 "qi_commit io 0" "[]" "[rc]"] t c by (simp_all add: same_def)
    have n: "q_pages b = q_pages a \<and> q_nextMsgID b = q_nextMsgID a" if "nack_requeue t1 t2 r s a = (z, b)" for t1 t2 r s a z b
      using 3(3) [of a t1 t2 r s] unfolding that same_def by simp
    show ?thesis
      using assms t Some y c s2 3(1,2) [unfolded same_def]
      unfolding q_Nack_def same_def nack_at_def [symmetric] by (auto simp: rc_def [symmetric] Let_def dest!: n split: option.splits if_splits prod.splits)
  qed
  then show "q_pages q' = q_pages q" "q_nextMsgID q' = q_nextMsgID q" by (simp_all add: same_def)
qed

lemma rollback_pages: "q_pages (rollback_loop now ds q) = q_pages q"
  by (induction now ds q rule: rollback_loop.induct) (simp_all add: Let_def split: option.split prod.split)

lemma Lease_pages:
  assumes "q_Lease io nonces now now2 mx vis q = (res, q')" "q_inv F q"
  shows "q_pages q' = q_pages q"
proof -
  obtain ls q1 where l: "lease_loop nonces (lease_until now vis q) 0 (lease_max mx) (promoteLocked now q) = (ls, q1)" by force
  have "same_base (promoteLocked now q) q1"
    using lease_loop_spec [OF q_invD(1) [OF conjunct1 [OF promote_spec [OF assms(2)]]] l] by blast
  then have b: "q_pages q1 = q_pages q" by (simp add: same_base_def)
  obtain cr q2 where c: "submitCommit (qi_commit io 0) [] (map ls_rec ls) q1 = (cr, q2)" by force
  have "q_pages q2 = q_pages q" using submitCommit_same(8) [OF c] b by simp
  then show ?thesis
    using assms(1) l b c
    by (auto simp: q_Lease_def lease_until_def [symmetric] lease_max_def [symmetric] rollbackLeases_def rollback_pages Let_def
        split: if_splits option.splits)
qed

lemma expire_loop_pages: "q_pages (snd (snd (expire_loop now es q))) = q_pages q"
proof (induction es arbitrary: q)
  case (Cons e es)
  show ?case
    by (simp only: expire_loop.simps Let_def case_prod_beta snd_conv Cons.IH if_distrib [of snd] if_distrib [of q_pages] ready_push_fields
        idx_put_fields split: option.split) simp
qed simp

lemma expire_commits_pages: "q_pages (snd (expire_commits io i es q)) = q_pages q"
proof (induction es arbitrary: i q)
  case (Cons e es)
  have s: "q_pages (snd (submitCommit cio refs recs a)) = q_pages a" for cio refs recs a
    using submitCommit_same(8) [of cio refs recs a] by (cases "submitCommit cio refs recs a") simp
  have r: "q_pages (restoreLeaseLocked info sl a) = q_pages a" "q_pages (deadLetterLocked sl x payload a) = q_pages a" for info sl x payload a
    by (simp_all add: restoreLeaseLocked_def deadLetterLocked_def Let_def)
  show ?case
    by (simp add: case_prod_beta Cons.IH s r split: option.split)
qed simp

lemma Checkpoint_pages: "q_Checkpoint xio rm q = (ok, q') \<Longrightarrow> q_pages q' = q_pages q"
  by (auto simp: q_Checkpoint_def Let_def split: prod.splits bool.splits)

lemma tick_locked_pages: "q_pages (snd (snd (tick_locked now q))) = q_pages q"
proof -
  define q1 where "q1 = (if 0 < sint (cfg_AgeBoostMs (q_cfg q)) then q\<lparr>q_ready := rh_refresh (Some now) (q_ready q)\<rparr> else q)"
  define q2 where "q2 = promoteLocked now q1"
  obtain es w where w: "tw_popExpired now (q_inflight q2) = (es, w)" by force
  obtain xs pr q3 where e: "expire_loop now es (q2\<lparr>q_inflight := w\<rparr>) = (xs, pr, q3)" by (metis prod_cases3)
  have "q_pages q3 = q_pages q"
    using expire_loop_pages [of now es "q2\<lparr>q_inflight := w\<rparr>"] e by (simp add: q2_def q1_def)
  moreover have "snd (snd (tick_locked now q)) = q3"
    unfolding tick_locked_def Let_def q1_def [symmetric] q2_def [symmetric] w prod.case e snd_conv ..
  ultimately show ?thesis by simp
qed

lemma tick_pages:
  assumes "tick io xio rm now q = (ok, q')"
  shows "q_pages q' = q_pages q"
proof -
  obtain xs pr q1 where l: "tick_locked now q = (xs, pr, q1)" by (metis prod_cases3)
  have 1: "q_pages q1 = q_pages q" using tick_locked_pages [of now q] l by simp
  obtain b q2 where c: "expire_commits (qi_commit io) 0 xs q1 = (b, q2)" by force
  have 2: "q_pages q2 = q_pages q1" using expire_commits_pages [of "qi_commit io" 0 xs q1] c by simp
  have 3: "q_pages (tick_checkpoint xio rm now a) = q_pages a" for a
    by (cases "q_Checkpoint xio rm a") (simp add: tick_checkpoint_def Checkpoint_pages)
  have "q' = (if b then tick_checkpoint xio rm now (if pr then notify q2 else q2) else q2)"
    using assms unfolding tick_def l prod.case c by (cases b) simp_all
  then show ?thesis using 1 2 3 by simp
qed

section \<open>The frame of a step\<close>

lemma Ack_frame:
  assumes i: "q_inv F q" and a: "q_Ack io receipt q = (res, q')"
  shows "same_reads F (q_pages q) (q_pages q')"
proof (cases "current (messages q) receipt")
  case None
  then show ?thesis using a take_lease_bad [OF i None] by (simp add: q_Ack_def same_reads_def)
next
  case (Some x)
  obtain m nonce where x: "x = (m, nonce)" by force
  obtain r s where s: "q_slots q r = Some s" "s_State s = StateInflight" "s_MsgID s = m" "s_LeaseNonce s = nonce"
    "take_lease receipt q = (Some (m, lease_of r s, s), drop_lease m q)"
    by (rule take_lease_ok [OF i Some [unfolded x]])
  obtain cr q2 where sub: "submitCommit (qi_commit io 0) [] [ack_record m nonce] (drop_lease (s_MsgID s) q) = (cr, q2)" by force
  note t = lease_taken [OF i s(1,2) sub]
  have li: "li_nonce (lease_of r s) = nonce" "li_indexRef (lease_of r s) = r" using s(4) by (simp_all add: lease_of_def)
  have "q_pages q' = q_pages q \<or>
      q_pages q' = snd (Release (qi_release io 1) r (snd (Release (qi_release io 0) (s_PayloadRef s) (q_pages q))))"
    using a s(3,5) sub li t(4,8)
    by (cases "cr_err cr") (auto simp: q_Ack_def ack_record_def restoreLeaseLocked_def Let_def)
  then show ?thesis
    using heap_free(2) [OF q_invD(2) [OF i] prefs_Some [of "q_slots q", OF s(1)], of "qi_release io 1" "qi_release io 0"]
    by (auto simp: same_reads_def)
qed

lemma step_frame:
  assumes "queue_step q ev q'" "q_inv F q"
  shows "same_reads F (q_pages q) (q_pages q')"
proof -
  have eq: "q_pages q' = q_pages q \<Longrightarrow> same_reads F (q_pages q) (q_pages q')" by (simp add: same_reads_def)
  show ?thesis
    using assms(1)
  proof cases
    case enqueue
    then show ?thesis using Enqueue_full [OF assms(2)] by blast
  next
    case enqueue_fails
    then show ?thesis using Enqueue_full [OF assms(2)] by blast
  next
    case lease
    then show ?thesis using Lease_pages [OF _ assms(2)] eq by blast
  next
    case ack
    then show ?thesis using Ack_frame [OF assms(2)] by blast
  next
    case ack_fails
    then show ?thesis using Ack_frame [OF assms(2)] by blast
  next
    case nack
    then show ?thesis using Nack_fields(1) eq by blast
  next
    case replay
    then show ?thesis using Replay_full [OF assms(2)] by blast
  next
    case replay_fails
    then show ?thesis using Replay_full [OF assms(2)] by blast
  next
    case tick
    then show ?thesis using tick_pages eq by blast
  next
    case checkpoint
    then show ?thesis using Checkpoint_pages eq by blast
  qed
qed

section \<open>A new queue\<close>

definition empty_index :: Index where
  "empty_index = \<lparr>ix_live = [], ix_checkpointLSN = 0, ix_file = None\<rparr>"

lemma tracks_empty: "tracks key st {#} (\<lambda>r. None)"
  by (simp add: tracks_def)

lemma new_queue_inv:
  assumes "store_inv p"
  shows "q_inv (live p) (new_queue now cfg w empty_index p) \<and> messages (new_queue now cfg w empty_index p) = (\<lambda>m. None)"
proof -
  let ?q = "new_queue now cfg w empty_index p"
  have sl: "q_slots ?q = (\<lambda>r. None)" by (rule ext) (simp add: new_queue_def empty_index_def slots_def GetByRef_def)
  have v: "ready_view ?q = {#}" "dead_view ?q = {#}" "q_delayed ?q = []" "q_inflight ?q = []" "q_receipts ?q = []"
    by (simp_all add: new_queue_def ready_view_def dead_view_def newReadyHeap_def)
  have "shape_inv ?q"
    using rh_inv_new [of "cfg_Order cfg" "cfg_AgeBoostMs cfg"]
    by (simp add: shape_inv_def new_queue_def empty_index_def index_inv_def q_dir_def)
  then have c: "queue_inv ?q"
    unfolding core_inv_def sl v by (simp add: tracks_empty ids_ok_def receipts_ok_def)
  have pr: "prefs (\<lambda>r. None) = (\<lambda>r. None)" by (rule ext) (simp add: prefs_def)
  have "heap_inv (live p) (\<lambda>r. None) p" using assms by (simp add: heap_inv_def owned_def)
  then have h: "heap_inv (live p) (prefs (q_slots ?q)) (q_pages ?q)" unfolding sl pr by (simp add: new_queue_def)
  show ?thesis
  proof (rule q_invI [OF c h])
    show "dead_ok ?q" by (simp add: dead_ok_def new_queue_def)
    show "view (q_slots ?q) (q_pages ?q) (\<lambda>m. None)" unfolding sl by (simp add: view_def)
  qed
qed

lemma open_new_queue:
  "openQueue io now cfg [] NotExist p =
    (Inr ((new_queue now cfg (wal_Open []) empty_index p)\<lparr>q_apply := cursor_reset 0 \<lparr>ac_pending = [], ac_high = 0, ac_contig = 0\<rparr>\<rparr>), p)"
proof -
  have "wal_Replay (wal_Open []) 0 = ([], None)" using wal_Replay_holds [OF wal_holds_fresh, of 0] by simp
  moreover have "w_durableLSN (wal_Open []) = 0" by (simp add: wal_Open_def openNewSegment_def Let_def)
  moreover have "index_Open NotExist = Some empty_index" by (simp add: index_Open_def empty_index_def)
  ultimately show ?thesis
    by (simp add: openQueue_def recover_def new_queue_def empty_index_def CheckpointLSN_def Scan_def Let_def)
qed

end
