(* ===== verification/Store_Recovery.thy ===== *)
theory Store_Recovery
  imports Store_Props
begin

text \<open>
  Restarting the page store: what replaying the journal and \<open>RebuildVolatile\<close> restore, and the states in
  which they do not.  The properties of the store are stated here.
\<close>

section \<open>A page of an empty store\<close>

definition empty_store :: "bytes \<Rightarrow> Store" where
  "empty_store J = \<lparr>st_files = [], st_jnl = J, st_pgs = [], st_nextID = 1, st_active = replicate 14 0\<rparr>"

lemma empty_store_inv: "store_inv (empty_store J)" "live (empty_store J) = {}"
  by (auto simp: store_inv_def live_def empty_store_def)

lemma new_slab_header:
  assumes "c < 14"
  shows "ReadHeader (WriteHeader (replicate 32 0) (NewSlabHeader k (word_of_nat c))) =
    (NewSlabHeader k (word_of_nat c), None)"
proof -
  have u: "unat (word_of_nat c :: u8) = c" using assms by (simp add: unsigned_of_nat take_bit_nat_eq_self)
  have h: "(NewSlabHeader k (word_of_nat c))\<lparr>h_Magic := Magic\<rparr> = NewSlabHeader k (word_of_nat c)"
    "h_SpanPages (NewSlabHeader k (word_of_nat c)) = 1" "h_ScIdx (NewSlabHeader k (word_of_nat c)) = word_of_nat c"
    by (simp_all add: NewSlabHeader_def Let_def split: prod.split)
  show ?thesis using ReadHeader_WriteHeader [of "replicate 32 0" "NewSlabHeader k (word_of_nat c)"] h u assms by simp
qed

lemma alloc_empty:
  assumes "0 < n" "n \<le> JumboThreshold"
  obtains c ref lo hi s' im pg where "c < 14" "Alloc pio_ok n (empty_store J) = (Inr (ref, lo, hi), s')"
    "store_inv s'" "live s' = {ref}" "PageID ref = 1" "st_files s' = [(1, im)]"
    "st_jnl s' = J @ entry_bytes (PageCreate 1 (word_of_nat c) 1 0)"
    "im_header im = WriteHeader (replicate 32 0) (NewSlabHeader 1 (word_of_nat c))" "st_nextID s' = 2"
    "map_of (st_pgs s') 1 = Some pg" "class_page (nat (SizeClassFor n)) pg"
proof -
  let ?c = "nat (SizeClassFor n)" and ?e = "empty_store J"
  have c: "?c < 14" using SizeClassFor_bound [OF assms(2)] by simp
  have al: "Alloc pio_ok n ?e = alloc_fresh pio_ok ?c ?e"
  proof -
    have "n \<noteq> 0" "\<not> JumboThreshold < n" using assms by auto
    then show ?thesis using c by (simp add: Alloc_def allocSlab_def empty_store_def Let_def)
  qed
  obtain pg im1 s1 where ns: "newSlabPage pio_ok ?c ?e = (Inr (pg, im1, 1), s1)"
    and f1: "st_files s1 = [(1, im1)]" "st_jnl s1 = J @ entry_bytes (PageCreate 1 (word_of_nat ?c) 1 0)"
      "im_header im1 = WriteHeader (replicate 32 0) (NewSlabHeader 1 (word_of_nat ?c))" "st_nextID s1 = 2"
    by (simp add: newSlabPage_def create_file_def pio_ok_def empty_store_def journal_write_def put_page_def
        initBitmap_def zero_image_def Let_def)
  obtain r q im where a: "allocSlot pg im1 = (r, q, im)" by (metis prod_cases3)
  let ?i = "case r of None \<Rightarrow> 0 | Some i \<Rightarrow> i"
  let ?s = "put_page 1 q im (s1\<lparr>st_active := (st_active s1)[?c := 1]\<rparr>)"
  obtain ref lo hi where sr: "slot_result 1 q ?i = (ref, lo, hi)" by (metis prod_cases3)
  have res: "Alloc pio_ok n ?e = (Inr (ref, lo, hi), ?s)" using al ns a sr by (simp add: alloc_fresh_def)
  have n: "uint n \<le> 2 ^ 32 - 2 ^ 21"
  proof -
    have "uint n \<le> 524288" using assms(2) by (simp add: JumboThreshold_def PageSize_def word_le_def)
    then show ?thesis by simp
  qed
  have g: "grows ?e ref ?s" using Alloc_grows [OF empty_store_inv(1) _ n res] by (simp add: empty_store_def)
  have "im_header im = im_header im1"
    using a by (auto simp: allocSlot_def Let_def split: if_splits option.splits prod.splits)
  moreover have files: "st_files ?s = [(1, im)]" using f1(1) by (simp add: put_page_def)
  moreover have "PageID ref = 1"
  proof -
    have "ref \<in> live ?s" using g by (simp add: grows_def)
    then have "map_of (st_files ?s) (PageID ref) \<noteq> None" by (auto simp: live_def)
    then show ?thesis using files by (simp split: if_splits)
  qed
  moreover have "st_jnl ?s = st_jnl s1" "st_nextID ?s = st_nextID s1" "map_of (st_pgs ?s) 1 = Some q" by (simp_all add: put_page_def)
  moreover have "class_page ?c q"
  proof -
    have "class_page ?c pg" by (rule newSlabPage_ok [OF ns c])
    then show ?thesis
      using a by (auto simp: allocSlot_def class_page_def Let_def split: if_splits option.splits prod.splits)
  qed
  ultimately show ?thesis
    using g f1(2-4) empty_store_inv by (intro that [OF c res, of im q]) (simp_all add: grows_def)
qed


lemma Release_fields:
  assumes "Release io ref s = (Inr (), s')" "map_of (st_files s') (PageID ref) = None"
    "map_of (st_files s) (PageID ref) = Some im"
  obtains g where "st_files s' = AList.delete (PageID ref) (st_files s)"
    "st_jnl s' = st_jnl s @ (case pio_journal io of None \<Rightarrow> entry_bytes (PageRetire (PageID ref) g (g + 1))
        | Some n \<Rightarrow> take n (entry_bytes (PageRetire (PageID ref) g (g + 1))))"
  using assms
  by (auto simp: Release_def Let_def doReclaim_def journal_write_def put_page_def
      split: option.splits if_splits prod.splits)

section \<open>Reused page ids\<close>

lemma store_Open_entries:
  "store_Open io files (concat (map entry_bytes es)) =
    replay_loop io (map entry_rec es) ((empty_store (concat (map entry_bytes es)))\<lparr>st_files := files\<rparr>)"
proof -
  have "jrnl_loop False (concat (map entry_bytes es) @ []) = Inr (map entry_rec es)"
    unfolding jrnl_loop_entries by (simp add: jrnl_loop_stop jrnl_next.simps)
  then show ?thesis by (simp add: store_Open_def jrnl_replay_def empty_store_def)
qed

lemma mmapExisting_ok: "ReadHeader (im_header im) = (h, None) \<Longrightarrow> \<exists>pg. mmapExisting oio_ok k n im = Inr pg"
  by (simp add: mmapExisting_def oio_ok_def)

text \<open>C31. Page ids are reused after a restart, and the journal of the first life deletes the page of the
  second: for every slab-sized request, allocate and release one payload, restart, allocate another
  payload (it gets page 1 again) and restart once more. The replay of the old \<open>PAGE_RETIRE\<close> removes the
  file of the live page, and reading the live reference fails.\<close>

theorem page_id_reuse_loses_payload:
  assumes "0 < n" "n \<le> JumboThreshold"
  shows "\<exists>r1 x1 s1 s2 s3 r2 x2 s4 s5.
    Alloc pio_ok n (empty_store []) = (Inr (r1, x1), s1) \<and> Release pio_ok r1 s1 = (Inr (), s2) \<and>
    store_Open oio_ok (st_files s2) (st_jnl s2) = Inr s3 \<and>
    Alloc pio_ok n s3 = (Inr (r2, x2), s4) \<and> live s4 = {r2} \<and>
    store_Open oio_ok (st_files s4) (st_jnl s4) = Inr s5 \<and> st_files s5 = [] \<and> store_Read r2 s5 = Inl (PageNotFound 1)"
proof -
  obtain c r1 lo1 hi1 s1 im1 where a1: "Alloc pio_ok n (empty_store []) = (Inr (r1, lo1, hi1), s1)"
    "store_inv s1" "live s1 = {r1}" "PageID r1 = 1" "st_files s1 = [(1, im1)]"
    "st_jnl s1 = entry_bytes (PageCreate 1 (word_of_nat c) 1 0)"
    by (rule alloc_empty [OF assms, of "[]"]) simp
  obtain x s2 where rel: "Release pio_ok r1 s1 = (x, s2)" by force
  have sh: "x = Inr ()" "shrinks True s1 r1 s2" using Release_shrinks [OF a1(2) _ rel] a1(3) by (auto simp: pio_ok_def)
  then have "map_of (st_files s2) (PageID r1) = None" using a1(3) by (simp add: shrinks_def)
  then obtain g where s2: "st_files s2 = []"
    "st_jnl s2 = concat (map entry_bytes [PageCreate 1 (word_of_nat c) 1 0, PageRetire 1 g (g + 1)])"
    using Release_fields [OF rel [unfolded sh(1)]] a1(4-6) by (auto simp: pio_ok_def)
  have s3: "store_Open oio_ok (st_files s2) (st_jnl s2) = Inr (empty_store (st_jnl s2))"
    unfolding s2 store_Open_entries by (simp add: empty_store_def jrnl_zero_def)
  obtain c' r2 lo2 hi2 s4 im2 where a2: "c' < 14"
    "Alloc pio_ok n (empty_store (st_jnl s2)) = (Inr (r2, lo2, hi2), s4)" "live s4 = {r2}" "PageID r2 = 1"
    "st_files s4 = [(1, im2)]" "st_jnl s4 = st_jnl s2 @ entry_bytes (PageCreate 1 (word_of_nat c') 1 0)"
    "im_header im2 = WriteHeader (replicate 32 0) (NewSlabHeader 1 (word_of_nat c'))"
    by (rule alloc_empty [OF assms, of "st_jnl s2"])
  let ?es = "[PageCreate 1 (word_of_nat c) 1 0, PageRetire 1 g (g + 1), PageCreate 1 (word_of_nat c') 1 0]"
  have j4: "st_jnl s4 = concat (map entry_bytes ?es)" using a2(6) s2(2) by simp
  obtain pg where pg: "mmapExisting oio_ok 1 1 im2 = Inr pg"
    using mmapExisting_ok [OF new_slab_header [OF a2(1), of 1, folded a2(7)]] by blast
  obtain s5 where s5: "store_Open oio_ok (st_files s4) (st_jnl s4) = Inr s5" "st_files s5 = []" "st_pgs s5 = []"
    unfolding j4 store_Open_entries a2(5) by (simp add: empty_store_def jrnl_zero_def pg retire_file_def oio_ok_def [THEN arg_cong, of oio_remove])
  have "store_Read r2 s5 = Inl (PageNotFound 1)" using s5 a2(4) by (simp add: store_Read_def)
  then show ?thesis using a1(1) rel sh(1) s3 a2(2,3) s5(1,2) by blast
qed

theorem page_id_reuse_loses_payload_witness:
  "\<exists>s3 r2 x2 s4 s5. Alloc pio_ok 100 s3 = (Inr (r2, x2), s4) \<and> live s4 = {r2} \<and>
     store_Open oio_ok (st_files s4) (st_jnl s4) = Inr s5 \<and> store_Read r2 s5 = Inl (PageNotFound 1)"
proof -
  have "0 < (100 :: u32)" "(100 :: u32) \<le> JumboThreshold" by (simp_all add: JumboThreshold_def PageSize_def)
  then show ?thesis using page_id_reuse_loses_payload [of 100] by blast
qed


section \<open>A page whose header was never written\<close>

lemma zero_header: "ReadHeader (replicate 32 0) = (read_fields (replicate 32 0), Some (HdrMagic 0))"
proof -
  have "replicate 4 (0 :: u8) = [0, 0, 0, 0]" by (simp add: eval_nat_numeral)
  then have "h_Magic (read_fields (replicate 32 0)) = 0"
    by (simp add: read_fields_def slice_def Uint32_def)
  then show ?thesis by (simp add: ReadHeader_def Validate_def Let_def Magic_def)
qed

text \<open>C32. The journal entry of a page precedes its header: if the process dies, or the mapping fails, after
  \<open>PAGE_CREATE\<close> was journalled and before the header was written, the page file is all zeros and every
  later \<open>Open\<close> of the store fails with a bad-magic error, for every slab-sized request.\<close>

theorem unwritten_header_blocks_open:
  assumes "0 < n" "n \<le> JumboThreshold" "Alloc (pio_ok\<lparr>pio_mmap := False\<rparr>) n (empty_store []) = (x, s)"
  shows "x = Inl PageIO \<and> store_Open oio_ok (st_files s) (st_jnl s) = Inl (HeaderErr 1 (HdrMagic 0))"
proof -
  let ?c = "nat (SizeClassFor n)"
  have "n \<noteq> 0" "\<not> JumboThreshold < n" "?c < 14" using assms(1,2) SizeClassFor_bound [OF assms(2)] by auto
  then have "Alloc (pio_ok\<lparr>pio_mmap := False\<rparr>) n (empty_store []) =
      alloc_fresh (pio_ok\<lparr>pio_mmap := False\<rparr>) ?c (empty_store [])"
    by (simp add: Alloc_def allocSlab_def empty_store_def Let_def)
  then have s: "x = Inl PageIO" "st_files s = [(1, zero_image)]"
    "st_jnl s = concat (map entry_bytes [PageCreate 1 (word_of_nat ?c) 1 0])"
    using assms(3)
    by (auto simp: alloc_fresh_def newSlabPage_def create_file_def pio_ok_def empty_store_def journal_write_def Let_def)
  have "mmapExisting oio_ok 1 1 zero_image = Inl (HeaderErr 1 (HdrMagic 0))"
    using zero_header by (simp add: mmapExisting_def zero_image_def oio_ok_def)
  then show ?thesis
    unfolding s(2,3) store_Open_entries using s(1) by (simp add: empty_store_def jrnl_zero_def)
qed

theorem unwritten_header_blocks_open_witness:
  "\<exists>x s. Alloc (pio_ok\<lparr>pio_mmap := False\<rparr>) 100 (empty_store []) = (x, s) \<and>
     store_Open oio_ok (st_files s) (st_jnl s) = Inl (HeaderErr 1 (HdrMagic 0))"
proof -
  obtain x s where a: "Alloc (pio_ok\<lparr>pio_mmap := False\<rparr>) 100 (empty_store []) = (x, s)" by force
  have "0 < (100 :: u32)" "(100 :: u32) \<le> JumboThreshold" by (simp_all add: JumboThreshold_def PageSize_def)
  then show ?thesis using unwritten_header_blocks_open [OF _ _ a] a by blast
qed

section \<open>Properties of the running store\<close>

text \<open>C26. Allocation is fresh: a successful \<open>Alloc(size)\<close> keeps the store well-formed, returns a reference
  that was not live and makes exactly this one live, hands out a slice that starts at the reference's
  offset and holds at least \<open>size\<close> bytes, and changes no payload that was live before. The size is at
  most \<open>2 ^ 32 - 2 ^ 21\<close> (above that \<open>SpanPagesFor\<close> wraps) and the page counter does not wrap.\<close>

theorem store_alloc_fresh:
  assumes "store_inv s" "st_nextID s + 1 \<noteq> 0" "uint n \<le> 2 ^ 32 - 2 ^ 21"
    "Alloc io n s = (Inr (ref, lo, hi), s')"
  shows "store_inv s' \<and> ref \<notin> live s \<and> live s' = insert ref (live s) \<and> lo = uint (Offset ref) \<and> uint n \<le> hi - lo \<and>
    (\<forall>r \<in> live s. store_Read r s' = store_Read r s)"
  using Alloc_grows [OF assms] unfolding grows_def by blast

lemma small_alloc: "0 < (100 :: u32)" "(100 :: u32) \<le> JumboThreshold" "uint (100 :: u32) \<le> 2 ^ 32 - 2 ^ 21"
  by (simp_all add: JumboThreshold_def PageSize_def)

theorem store_alloc_fresh_witness:
  "\<exists>ref lo hi s'. Alloc pio_ok 100 (empty_store []) = (Inr (ref, lo, hi), s') \<and> live s' = {ref} \<and> 100 \<le> hi - lo"
proof -
  obtain ref lo hi s' where a: "Alloc pio_ok 100 (empty_store []) = (Inr (ref, lo, hi), s')"
    by (rule alloc_empty [OF small_alloc(1,2), of "[]"])
  have "st_nextID (empty_store []) + 1 \<noteq> 0" by (simp add: empty_store_def)
  then show ?thesis
    using store_alloc_fresh [OF empty_store_inv(1) _ small_alloc(3) a] empty_store_inv(2) a by auto
qed

text \<open>C27. Release is exact: releasing a live reference always succeeds, makes exactly this reference dead,
  keeps the store well-formed and every other live payload readable and unchanged, and deletes the page
  file exactly when no other reference of the page is live and \<open>os.Remove\<close> succeeds. A failing journal
  write or removal changes none of the rest.\<close>

theorem store_release_exact:
  assumes "store_inv s" "ref \<in> live s" "Release io ref s = (x, s')"
  shows "x = Inr () \<and> store_inv s' \<and> live s' = live s - {ref} \<and> (\<forall>r \<in> live s'. store_Read r s' = store_Read r s) \<and>
    (map_of (st_files s') (PageID ref) = None \<longleftrightarrow> pio_remove io \<and> (\<forall>r \<in> live s'. PageID r \<noteq> PageID ref))"
  using Release_shrinks [OF assms] unfolding shrinks_def by blast

theorem store_release_exact_witness:
  "\<exists>ref x s s'. Alloc pio_ok 100 (empty_store []) = (Inr (ref, x), s) \<and> Release pio_ok ref s = (Inr (), s') \<and> live s' = {}"
proof -
  obtain ref lo hi s where a: "Alloc pio_ok 100 (empty_store []) = (Inr (ref, lo, hi), s)" "store_inv s" "live s = {ref}"
    by (rule alloc_empty [OF small_alloc(1,2), of "[]"])
  obtain x s' where r: "Release pio_ok ref s = (x, s')" by force
  show ?thesis using store_release_exact [OF a(2) _ r] a r by auto
qed

text \<open>C28. Payload round trip: copying bytes into the slice of a live reference makes \<open>Read\<close> return them
  followed by the old rest of the slot, whatever the page holds, and leaves every other live payload as
  it was, on the same page too.\<close>

theorem store_payload_roundtrip:
  assumes "store_inv s" "ref \<in> live s" "store_Read ref s = Inr old" "length bs \<le> length old"
  shows "store_Read ref (store_put ref bs s) = Inr (bs @ drop (length bs) old) \<and>
    (\<forall>r \<in> live s - {ref}. store_Read r (store_put ref bs s) = store_Read r s)"
  using write_read [OF assms] unfolding store_put_def by blast

theorem store_payload_roundtrip_witness:
  "\<exists>ref x s rest. Alloc pio_ok 100 (empty_store []) = (Inr (ref, x), s) \<and>
     store_Read ref (store_put ref [7] s) = Inr (7 # rest)"
proof -
  obtain ref lo hi s where a: "Alloc pio_ok 100 (empty_store []) = (Inr (ref, lo, hi), s)" "store_inv s" "live s = {ref}"
    by (rule alloc_empty [OF small_alloc(1,2), of "[]"])
  have r: "ref \<in> live s" using a(3) by simp
  obtain pg im where p: "map_of (st_pgs s) (PageID ref) = Some pg" "map_of (st_files s) (PageID ref) = Some im"
    "ref \<in> slots_of (PageID ref) pg im" by (rule live_lookup [OF r])
  note rd = read_live [OF a(2) p]
  have "length [7 :: u8] \<le> length (map (im_mem im) [unat (Offset ref)..<page_end ref pg])" using rd(3) by simp
  then show ?thesis using store_payload_roundtrip [OF a(2) r rd(1), of "[7]"] a(1) by auto
qed

text \<open>C25. Live payloads are isolated: along every sequence of successful allocations (slab or jumbo sizes,
  up to \<open>2 ^ 32 - 2 ^ 21\<close> bytes and while the page counter does not wrap), releases (with any outcome of
  the journal write and of the removal of the file) and payload writes, the store stays well-formed and a payload that was live at the start and is
  neither released nor written stays live and reads the same bytes.\<close>

theorem store_payloads_survive:
  assumes "store_inv s" "heap_run live store_alloc store_release store_put store_fits s R s'"
  shows "store_inv s' \<and> live s - R \<subseteq> live s' \<and> (\<forall>r \<in> live s - R. store_Read r s' = store_Read r s)"
  by (rule ph.payload_survives [OF assms])

lemma jumbo_succeeds:
  assumes "store_inv s" "JumboThreshold < n"
  obtains r x s' where "Alloc pio_ok n s = (Inr (r, x), s')"
proof -
  have "map_of (st_files s) (st_nextID s) = None"
    using store_invD(4) [OF assms(1), of "st_nextID s"] by (cases "map_of (st_files s) (st_nextID s)") auto
  then have "\<exists>r x s'. newJumboPage pio_ok n s = (Inr (r, x), s')"
    by (simp add: newJumboPage_def create_file_def pio_ok_def journal_write_def Let_def)
  moreover have "n \<noteq> 0" using assms(2) by auto
  then have "Alloc pio_ok n s = newJumboPage pio_ok n s" using assms(2) by (simp add: Alloc_def)
  ultimately show ?thesis using that by auto
qed

theorem store_payloads_survive_witness:
  "\<exists>s r s2. live s = {r} \<and> (\<exists>r2 x. Alloc pio_ok 600000 s = (Inr (r2, x), s2)) \<and> store_Read r s2 = store_Read r s"
proof -
  obtain ref lo hi s where a: "Alloc pio_ok 100 (empty_store []) = (Inr (ref, lo, hi), s)" "store_inv s" "live s = {ref}"
    "st_nextID s = 2" by (rule alloc_empty [OF small_alloc(1,2), of "[]"])
  have "JumboThreshold < (600000 :: u32)" by (simp add: JumboThreshold_def PageSize_def)
  then obtain r2 x s2 where b: "Alloc pio_ok 600000 s = (Inr (r2, x), s2)" by (rule jumbo_succeeds [OF a(2)])
  obtain lo2 hi2 where x: "x = (lo2, hi2)" by force
  have "store_alloc s r2 s2"
    unfolding store_alloc_def using b a(4)
    by (intro exI [of _ pio_ok] exI [of _ 600000] exI [of _ lo2] exI [of _ hi2]) (simp add: x)
  then have "heap_run live store_alloc store_release store_put store_fits s {} s2"
    using heap_run.alloc [of live store_alloc store_release store_put store_fits s "{}" s r2 s2]
      heap_run.start [of live store_alloc store_release store_put store_fits s] by blast
  from store_payloads_survive [OF a(2) this] have "store_Read ref s2 = store_Read ref s" using a(3) by simp
  then show ?thesis using a(3) b by blast
qed

end
