(* ===== verification/Store_Rebuild.thy ===== *)
theory Store_Rebuild
  imports Store_Recovery
begin

text \<open>
  \<open>RebuildVolatile\<close>, the second phase of recovery: from the references that the queues hold it
  reconstructs bitmaps, counters and hints, and deletes jumbo pages that nobody refers to.
\<close>

section \<open>Stores after opening\<close>

text \<open>Pages have their geometry and their file; bitmaps, counters and hints are arbitrary.\<close>

definition store_shape :: "Store \<Rightarrow> bool" where
  "store_shape s \<longleftrightarrow>
     distinct (map fst (st_pgs s)) \<and> distinct (map fst (st_files s)) \<and> 0 < st_nextID s \<and>
     (\<forall>k. map_of (st_files s) k \<noteq> None \<longrightarrow> k < st_nextID s) \<and>
     (\<forall>k pg. map_of (st_pgs s) k = Some pg \<longrightarrow> k \<noteq> 0 \<and> page_shape pg \<and> map_of (st_files s) k \<noteq> None)"

definition ref_valid :: "Store \<Rightarrow> SlotRef \<Rightarrow> bool" where
  "ref_valid s r \<longleftrightarrow>
    (\<exists>pg. map_of (st_pgs s) (PageID r) = Some pg \<and> slot_ref (PageID r) pg r)"

section \<open>Stamping the bitmap of a page\<close>

lemma used_stamp:
  assumes "unat (ref_slot r pg) < unat (pg_capacity pg)"
  shows "used pg (im\<lparr>im_words := stamp pg ws r\<rparr>) = insert (unat (ref_slot r pg)) (used pg (im\<lparr>im_words := ws\<rparr>))"
proof -
  let ?i = "ref_slot r pg"
  have split: "unat (?i mod 64) < 64" "unat (?i div 64) * 64 + unat (?i mod 64) = unat ?i"
    by (simp_all add: unat_mod unat_div)
  show ?thesis
    using used_set_bit [of "unat (?i mod 64)" "unat (?i div 64)" pg "im\<lparr>im_words := ws\<rparr>"] split assms
    by (simp add: stamp_def Let_def)
qed

lemma used_stamps:
  assumes "\<forall>r \<in> set refs. unat (ref_slot r pg) < unat (pg_capacity pg)"
  shows "used pg (im\<lparr>im_words := foldl (stamp pg) ws refs\<rparr>) =
    used pg (im\<lparr>im_words := ws\<rparr>) \<union> (\<lambda>r. unat (ref_slot r pg)) ` set refs"
  using assms
proof (induction refs arbitrary: ws)
  case (Cons r refs)
  then show ?case using used_stamp [where r = r and pg = pg and im = im and ws = ws] Cons.IH [of "stamp pg ws r"] by auto
qed simp

lemma used_cleared:
  assumes "slab_page pg"
  shows "used pg (im\<lparr>im_words := \<lambda>i. if i < numWords pg then 0 else ws i\<rparr>) = {}"
proof -
  have "i div 64 < numWords pg" if "i < unat (pg_capacity pg)" for i
  proof -
    have "(i + 64) div 64 \<le> (unat (pg_capacity pg) + 63) div 64" using that by (intro div_le_mono) simp
    then show ?thesis using numWords_eq [OF assms] by simp
  qed
  then show ?thesis by (auto simp: used_def)
qed

lemma rebuild_page_slots:
  assumes c: "class_page c pg"
    and refs: "\<forall>r \<in> set refs. \<exists>i < unat (pg_capacity pg). r = Pack k (slotOffset pg (word_of_nat i))"
    and b: "rebuild_page refs pg im = (q, im')"
  shows "same_page pg q" "im_mem im' = im_mem im" "page_ok q im'" "slots_of k q im' = set refs"
proof -
  have sl: "slab_page pg" by (rule class_page_slab [OF c])
  have im': "im' = im\<lparr>im_words := foldl (stamp pg) (\<lambda>i. if i < numWords pg then 0 else im_words im i) refs\<rparr>"
    and q: "q = rebuildFreeCount pg im'"
    using b by (auto simp: rebuild_page_def Let_def)
  obtain fc where fc: "q = pg\<lparr>pg_freeCount := fc\<rparr>" "page_inv q im'"
    using rebuildFreeCount_inv [OF sl, of im'] q by auto
  show same: "same_page pg q" by (simp add: fc same_page_def)
  show "im_mem im' = im_mem im" by (simp add: im')
  have j: "\<not> pg_jumbo q" "\<not> pg_jumbo pg" using c by (simp_all add: fc class_page_def)
  show "page_ok q im'" using j fc(2) same_page_class [OF same] c by (auto simp: page_ok_def)
  have lt: "\<forall>r \<in> set refs. unat (ref_slot r pg) < unat (pg_capacity pg) \<and>
      r = Pack k (slotOffset pg (word_of_nat (unat (ref_slot r pg))))"
    using refs ref_slot_Pack [OF c] by (metis (no_types))
  then have "used q im' = (\<lambda>r. unat (ref_slot r pg)) ` set refs"
    using page_inv_upd(2) [of q pg im'] used_stamps [where refs = refs and pg = pg and im = im] used_cleared [OF sl] by (simp add: fc im')
  then have "slots_of k q im' = (\<lambda>r. Pack k (slotOffset pg (word_of_nat (unat (ref_slot r pg))))) ` set refs"
    by (simp add: slots_of_def j same_page_offset [OF same] image_image)
  also have "\<dots> = set refs"
    using lt by (intro set_eqI iffI) (auto intro: rev_image_eqI)
  finally show "slots_of k q im' = set refs" .
qed

section \<open>All pages\<close>

text \<open>The page and image that the loop leaves under a key.\<close>

definition rebuilt :: "SlotRef list \<Rightarrow> u32 \<Rightarrow> page \<Rightarrow> image \<Rightarrow> page \<times> image" where
  "rebuilt refs k pg im = (if pg_jumbo pg then (pg, im) else rebuild_page (page_refs k refs) pg im)"

lemma rebuild_pages_lookup:
  fixes refs :: "SlotRef list"
  assumes "distinct (map fst ps)" "\<forall>(k, pg) \<in> set ps. map_of (st_files s) k \<noteq> None \<and> map_of (st_pgs s) k = Some pg"
  defines "s' \<equiv> rebuild_pages refs ps s"
  shows "map_of (st_pgs s') k = (case map_of ps k of None \<Rightarrow> map_of (st_pgs s) k
      | Some pg \<Rightarrow> Some (fst (rebuilt refs k pg (the (map_of (st_files s) k)))))"
    "map_of (st_files s') k = (case map_of ps k of None \<Rightarrow> map_of (st_files s) k
      | Some pg \<Rightarrow> Some (snd (rebuilt refs k pg (the (map_of (st_files s) k)))))"
proof -
  have "map_of (st_pgs (rebuild_pages refs ps s)) k = (case map_of ps k of None \<Rightarrow> map_of (st_pgs s) k
      | Some pg \<Rightarrow> Some (fst (rebuilt refs k pg (the (map_of (st_files s) k))))) \<and>
    map_of (st_files (rebuild_pages refs ps s)) k = (case map_of ps k of None \<Rightarrow> map_of (st_files s) k
      | Some pg \<Rightarrow> Some (snd (rebuilt refs k pg (the (map_of (st_files s) k)))))"
    using assms(1,2)
  proof (induction ps arbitrary: s)
    case (Cons p ps)
    obtain k0 pg0 where p: "p = (k0, pg0)" by force
    obtain im0 where im0: "map_of (st_files s) k0 = Some im0" "map_of (st_pgs s) k0 = Some pg0"
      using Cons.prems(2) p by auto
    define s1 where "s1 = (if pg_jumbo pg0 then s
      else put_page k0 (fst (rebuilt refs k0 pg0 im0)) (snd (rebuilt refs k0 pg0 im0)) s)"
    have step: "rebuild_pages refs (p # ps) s = rebuild_pages refs ps s1"
      using im0 by (simp add: p s1_def rebuilt_def split: prod.split)
    have nk: "map_of ps k0 = None" using Cons.prems(1) p by (simp add: map_of_eq_None_iff)
    have ok: "\<forall>(k, pg) \<in> set ps. map_of (st_files s1) k \<noteq> None \<and> map_of (st_pgs s1) k = Some pg"
    proof -
      have "map_of (st_files s1) k \<noteq> None \<and> map_of (st_pgs s1) k = Some pg" if m: "(k, pg) \<in> set ps" for k pg
      proof -
        have "k \<noteq> k0" using m Cons.prems(1) p by force
        moreover have "map_of (st_files s) k \<noteq> None \<and> map_of (st_pgs s) k = Some pg" using m Cons.prems(2) by auto
        ultimately show ?thesis by (simp add: s1_def put_page_def)
      qed
      then show ?thesis by blast
    qed
    note IH = Cons.IH [OF _ ok]
    show ?case
    proof (cases "k = k0")
      case True
      have "map_of (st_pgs s1) k0 = Some (fst (rebuilt refs k0 pg0 im0))"
        "map_of (st_files s1) k0 = Some (snd (rebuilt refs k0 pg0 im0))"
        using im0 by (simp_all add: s1_def put_page_def rebuilt_def)
      then show ?thesis using IH Cons.prems(1) nk im0(1) True unfolding step by (simp add: p)
    next
      case False
      then have "map_of (st_files s1) k = map_of (st_files s) k" "map_of (st_pgs s1) k = map_of (st_pgs s) k"
        by (simp_all add: s1_def put_page_def)
      then show ?thesis using IH Cons.prems(1) False unfolding step by (simp add: p cong: option.case_cong)
    qed
  qed simp
  then show "map_of (st_pgs s') k = (case map_of ps k of None \<Rightarrow> map_of (st_pgs s) k
      | Some pg \<Rightarrow> Some (fst (rebuilt refs k pg (the (map_of (st_files s) k)))))"
    "map_of (st_files s') k = (case map_of ps k of None \<Rightarrow> map_of (st_files s) k
      | Some pg \<Rightarrow> Some (snd (rebuilt refs k pg (the (map_of (st_files s) k)))))"
    unfolding s'_def by blast+
qed


lemma store_shapeD:
  assumes "store_shape s"
  shows "distinct (map fst (st_pgs s))" "distinct (map fst (st_files s))"
    "map_of (st_pgs s) k = Some pg \<Longrightarrow> k \<noteq> 0 \<and> page_shape pg \<and> (\<exists>im. map_of (st_files s) k = Some im)"
    "map_of (st_files s) k = Some im \<Longrightarrow> k < st_nextID s"
  using assms unfolding store_shape_def by auto

text \<open>A page after the loop: same geometry, same payload bytes, and the slots of its references.\<close>

lemma rebuilt_page:
  assumes sh: "store_shape s" and refs: "\<forall>r \<in> set refs. ref_valid s r"
    and pg: "map_of (st_pgs s) k = Some pg" and im: "map_of (st_files s) k = Some im"
    and b: "rebuilt refs k pg im = (q, im')"
  shows "same_page pg q" "im_mem im' = im_mem im" "page_ok q im'"
    "slots_of k q im' = (if pg_jumbo pg then {Pack k HeaderSize} else {r \<in> set refs. PageID r = k})"
proof -
  have "same_page pg q \<and> im_mem im' = im_mem im \<and> page_ok q im' \<and>
    slots_of k q im' = (if pg_jumbo pg then {Pack k HeaderSize} else {r \<in> set refs. PageID r = k})"
  proof (cases "pg_jumbo pg")
    case True
    then have "q = pg" "im' = im" using b by (simp_all add: rebuilt_def)
    then show ?thesis
      using True store_shapeD(3) [OF sh pg] by (simp add: same_page_def page_ok_def page_shape_def slots_of_def)
  next
    case False
    then obtain c where c: "class_page c pg" using store_shapeD(3) [OF sh pg] by (auto simp: page_shape_def)
    have v: "\<forall>r \<in> set (page_refs k refs). \<exists>i < unat (pg_capacity pg). r = Pack k (slotOffset pg (word_of_nat i))"
      using refs pg False by (fastforce simp: page_refs_def ref_valid_def slot_ref_def)
    have "rebuild_page (page_refs k refs) pg im = (q, im')" using b False by (simp add: rebuilt_def)
    from rebuild_page_slots [OF c v this] show ?thesis using False by (auto simp: page_refs_def)
  qed
  then show "same_page pg q" "im_mem im' = im_mem im" "page_ok q im'"
    "slots_of k q im' = (if pg_jumbo pg then {Pack k HeaderSize} else {r \<in> set refs. PageID r = k})" by blast+
qed

lemma rebuild_pages_keys:
  assumes "distinct (map fst (st_pgs s))" "distinct (map fst (st_files s))"
  shows "distinct (map fst (st_pgs (rebuild_pages refs ps s)))" "distinct (map fst (st_files (rebuild_pages refs ps s)))"
    "st_nextID (rebuild_pages refs ps s) = st_nextID s"
proof -
  have "distinct (map fst (st_pgs (rebuild_pages refs ps s))) \<and> distinct (map fst (st_files (rebuild_pages refs ps s))) \<and>
    st_nextID (rebuild_pages refs ps s) = st_nextID s"
    using assms
  proof (induction refs ps s rule: rebuild_pages.induct)
    case (2 refs k pg ps s)
    show ?case
    proof (cases "map_of (st_files s) k")
      case None
      then show ?thesis using 2 by simp
    next
      case (Some im)
      obtain q im' where r: "rebuild_page (page_refs k refs) pg im = (q, im')" by force
      show ?thesis
      proof (cases "pg_jumbo pg")
        case True
        then show ?thesis using 2 Some by simp
      next
        case False
        have "distinct (map fst (st_pgs (put_page k q im' s)))" "distinct (map fst (st_files (put_page k q im' s)))"
          using "2.prems" by (simp_all add: put_page_def)
        then show ?thesis using "2.IH"(3) [OF Some False r [symmetric]] Some False r by (simp add: put_page_def)
      qed
    qed
  qed simp
  then show "distinct (map fst (st_pgs (rebuild_pages refs ps s)))"
    "distinct (map fst (st_files (rebuild_pages refs ps s)))" "st_nextID (rebuild_pages refs ps s) = st_nextID s" by blast+
qed

lemma active_for_ok:
  assumes "distinct (map fst pgs)" "\<And>k pg. map_of pgs k = Some pg \<Longrightarrow> page_shape pg" "active_for pgs i \<noteq> 0"
  shows "\<exists>pg. map_of pgs (active_for pgs i) = Some pg \<and> class_page i pg"
proof -
  obtain k pg where f: "find (\<lambda>(k, pg). \<not> pg_jumbo pg \<and> SizeClassFor (pg_sizeClass pg) = int i \<and> hasFreeSlot pg) pgs = Some (k, pg)"
    and k: "active_for pgs i = k"
    using assms(3) by (auto simp: active_for_def split: option.splits)
  have p: "\<not> pg_jumbo pg" "SizeClassFor (pg_sizeClass pg) = int i" "(k, pg) \<in> set pgs"
    using f by (auto simp: find_Some_iff in_set_conv_nth)
  have m: "map_of pgs k = Some pg" using assms(1) p(3) by simp
  obtain c where "class_page c pg" using assms(2) [OF m] p(1) by (auto simp: page_shape_def)
  moreover from this have "c = i" using class_page_index [of c pg] p(2) by simp
  ultimately show ?thesis using k m by blast
qed


section \<open>The whole operation\<close>

text \<open>The store after the bitmaps and the hints are rebuilt, before orphans are deleted.\<close>

definition rebuild_phase :: "SlotRef list \<Rightarrow> Store \<Rightarrow> Store" where
  "rebuild_phase refs s =
    (let s1 = rebuild_pages refs (st_pgs s) s in s1\<lparr>st_active := map (active_for (st_pgs s1)) [0..<14]\<rparr>)"

lemma rebuild_phase_page:
  assumes sh: "store_shape s" and pg: "map_of (st_pgs s) k = Some pg"
  obtains im q im' where "map_of (st_files s) k = Some im" "rebuilt refs k pg im = (q, im')"
    "map_of (st_pgs (rebuild_phase refs s)) k = Some q" "map_of (st_files (rebuild_phase refs s)) k = Some im'"
proof -
  obtain im where im: "map_of (st_files s) k = Some im" using store_shapeD(3) [OF sh pg] by blast
  have "\<forall>(k, pg) \<in> set (st_pgs s). map_of (st_files s) k \<noteq> None \<and> map_of (st_pgs s) k = Some pg"
  proof -
    have "map_of (st_files s) k \<noteq> None \<and> map_of (st_pgs s) k = Some pg" if "(k, pg) \<in> set (st_pgs s)" for k pg
      using that store_shapeD(3) [OF sh, of k pg] store_shapeD(1) [OF sh] by auto
    then show ?thesis by blast
  qed
  note l = rebuild_pages_lookup [OF store_shapeD(1) [OF sh] this, of refs k, unfolded pg im option.case option.sel]
  obtain q im' where "rebuilt refs k pg im = (q, im')" by force
  then show ?thesis using that [OF im] l by (simp add: rebuild_phase_def Let_def)
qed

lemma rebuild_phase_absent:
  assumes sh: "store_shape s" and pg: "map_of (st_pgs s) k = None"
  shows "map_of (st_pgs (rebuild_phase refs s)) k = None"
    "map_of (st_files (rebuild_phase refs s)) k = map_of (st_files s) k"
proof -
  have "\<forall>(k, pg) \<in> set (st_pgs s). map_of (st_files s) k \<noteq> None \<and> map_of (st_pgs s) k = Some pg"
  proof -
    have "map_of (st_files s) k \<noteq> None \<and> map_of (st_pgs s) k = Some pg" if "(k, pg) \<in> set (st_pgs s)" for k pg
      using that store_shapeD(3) [OF sh, of k pg] store_shapeD(1) [OF sh] by auto
    then show ?thesis by blast
  qed
  note l = rebuild_pages_lookup [OF store_shapeD(1) [OF sh] this, of refs k, unfolded pg option.case]
  then show "map_of (st_pgs (rebuild_phase refs s)) k = None"
    "map_of (st_files (rebuild_phase refs s)) k = map_of (st_files s) k" by (simp_all add: rebuild_phase_def Let_def)
qed

lemma rebuild_phase_inv:
  assumes sh: "store_shape s" and refs: "\<forall>r \<in> set refs. ref_valid s r"
  shows "store_inv (rebuild_phase refs s)"
proof -
  let ?s = "rebuild_phase refs s" and ?s1 = "rebuild_pages refs (st_pgs s) s"
  have p: "k \<noteq> 0 \<and> page_shape q \<and> (\<exists>im. map_of (st_files ?s) k = Some im \<and> page_ok q im)"
    if q: "map_of (st_pgs ?s) k = Some q" for k q
  proof -
    obtain pg where pg: "map_of (st_pgs s) k = Some pg"
      using q rebuild_phase_absent(1) [OF sh, of k refs] by (cases "map_of (st_pgs s) k") auto
    obtain im q' im' where r: "map_of (st_files s) k = Some im" "rebuilt refs k pg im = (q', im')"
      "map_of (st_pgs ?s) k = Some q'" "map_of (st_files ?s) k = Some im'" by (rule rebuild_phase_page [OF sh pg])
    note rp = rebuilt_page [OF sh refs pg r(1,2)]
    have "q' = q" using q r(3) by simp
    moreover from rp(1) have "page_shape q' \<longleftrightarrow> page_shape pg"
      using same_page_class [OF rp(1)] by (simp add: page_shape_def same_page_def)
    ultimately show ?thesis using rp(3) r(4) store_shapeD(3) [OF sh pg] by auto
  qed
  have f: "map_of (st_files s) k \<noteq> None" if "map_of (st_files ?s) k \<noteq> None" for k
    using that rebuild_phase_absent(2) [OF sh, of k refs] store_shapeD(3) [OF sh, of k]
    by (cases "map_of (st_pgs s) k") auto
  note ks = rebuild_pages_keys [OF store_shapeD(1,2) [OF sh], of refs "st_pgs s"]
  show ?thesis
  proof (rule store_invI)
    show "distinct (map fst (st_pgs ?s))" "distinct (map fst (st_files ?s))" "length (st_active ?s) = 14"
      using ks by (simp_all add: rebuild_phase_def Let_def)
    show "0 < st_nextID ?s" using ks(3) sh by (simp add: rebuild_phase_def Let_def store_shape_def)
    show "map_of (st_files ?s) k \<noteq> None \<Longrightarrow> k < st_nextID ?s" for k
      using f [of k] store_shapeD(4) [OF sh, of k] ks(3) by (auto simp: rebuild_phase_def Let_def)
    show "map_of (st_pgs ?s) k = Some q \<Longrightarrow> k \<noteq> 0 \<and> (\<exists>im. map_of (st_files ?s) k = Some im \<and> page_ok q im)" for k q
      using p by blast
    show "\<exists>pg. map_of (st_pgs ?s) (st_active ?s ! c) = Some pg \<and> class_page c pg" if "c < 14" "st_active ?s ! c \<noteq> 0" for c
    proof -
      have a: "st_active ?s ! c = active_for (st_pgs ?s1) c" "st_pgs ?s = st_pgs ?s1"
        using that(1) by (simp_all add: rebuild_phase_def Let_def)
      show ?thesis
        using active_for_ok [OF ks(1), of c] p that(2) unfolding a by blast
    qed
  qed
qed

lemma rebuild_phase_live:
  assumes sh: "store_shape s" and refs: "\<forall>r \<in> set refs. ref_valid s r"
  shows "r \<in> live (rebuild_phase refs s) \<longleftrightarrow>
    (\<exists>pg. map_of (st_pgs s) (PageID r) = Some pg \<and>
       (if pg_jumbo pg then r = Pack (PageID r) HeaderSize else r \<in> set refs))"
proof (cases "map_of (st_pgs s) (PageID r)")
  case None
  then show ?thesis using rebuild_phase_absent(1) [OF sh None] by (auto simp: live_def)
next
  case (Some pg)
  obtain im q im' where r: "map_of (st_files s) (PageID r) = Some im" "rebuilt refs (PageID r) pg im = (q, im')"
    "map_of (st_pgs (rebuild_phase refs s)) (PageID r) = Some q"
    "map_of (st_files (rebuild_phase refs s)) (PageID r) = Some im'" by (rule rebuild_phase_page [OF sh Some])
  note rp = rebuilt_page [OF sh refs Some r(1,2)]
  have "r \<in> live (rebuild_phase refs s) \<longleftrightarrow> r \<in> slots_of (PageID r) q im'" using r(3,4) by (simp add: live_def)
  then show ?thesis using rp(4) Some by auto
qed


lemma reclaim_orphans_spec:
  assumes "store_inv s" "distinct ids" "\<forall>k \<in> set ids. \<exists>pg. map_of (st_pgs s) k = Some pg \<and> pg_jumbo pg"
  shows "store_inv (reclaim_orphans io ids s) \<and> live (reclaim_orphans io ids s) = {r \<in> live s. PageID r \<notin> set ids} \<and>
    (\<forall>r \<in> live (reclaim_orphans io ids s). store_Read r (reclaim_orphans io ids s) = store_Read r s)"
  using assms
proof (induction ids arbitrary: s)
  case (Cons k ids)
  obtain pg where pg: "map_of (st_pgs s) k = Some pg" "pg_jumbo pg" using Cons.prems(3) by auto
  obtain im where im: "map_of (st_files s) k = Some im" by (rule store_inv_page [OF Cons.prems(1) pg(1)])
  define s1 where "s1 = doReclaim io k im (s\<lparr>st_pgs := AList.delete k (st_pgs s)\<rparr>)"
  have step: "reclaim_orphans io (k # ids) s = reclaim_orphans io ids s1" using pg im by (simp add: s1_def)
  have "st_active s ! c \<noteq> k" if "c < 14" "st_active s ! c \<noteq> 0" for c
    using store_invD(6) [OF Cons.prems(1) that] pg by (auto simp: class_page_def)
  then have d: "store_inv s1" "live s1 = {r \<in> live s. PageID r \<noteq> k}" "\<forall>r \<in> live s1. store_Read r s1 = store_Read r s"
    using store_invD(3) [OF Cons.prems(1)]
    by (intro drop_page [OF Cons.prems(1) pg(1), where rm = "pio_remove io" and im' = "im\<lparr>im_header := snd (BumpGen (im_header im))\<rparr>"];
        simp add: s1_def doReclaim_def journal_write_def)+
  have "\<forall>k' \<in> set ids. \<exists>pg. map_of (st_pgs s1) k' = Some pg \<and> pg_jumbo pg"
  proof
    fix k' assume k': "k' \<in> set ids"
    then have "k' \<noteq> k" using Cons.prems(2) by auto
    then show "\<exists>pg. map_of (st_pgs s1) k' = Some pg \<and> pg_jumbo pg"
      using Cons.prems(3) k' by (simp add: s1_def doReclaim_def journal_write_def)
  qed
  from Cons.IH [OF d(1) _ this] have IH: "store_inv (reclaim_orphans io ids s1)"
    "live (reclaim_orphans io ids s1) = {r \<in> live s1. PageID r \<notin> set ids}"
    "\<forall>r \<in> live (reclaim_orphans io ids s1). store_Read r (reclaim_orphans io ids s1) = store_Read r s1"
    using Cons.prems(2) by auto
  show ?case unfolding step using IH d(2,3) by auto
qed simp

lemma RebuildVolatile_phase:
  "RebuildVolatile io refs s =
    reclaim_orphans io (map fst (filter (\<lambda>(k, pg). pg_jumbo pg \<and> page_refs k refs = []) (st_pgs s))) (rebuild_phase refs s)"
  by (simp add: RebuildVolatile_def rebuild_phase_def Let_def)

lemma rebuild_read:
  assumes sh: "store_shape s" and refs: "\<forall>r \<in> set refs. ref_valid s r" and r: "r \<in> set refs"
  shows "store_Read r (rebuild_phase refs s) = store_Read r s"
proof -
  obtain pg where pg: "map_of (st_pgs s) (PageID r) = Some pg" "slot_ref (PageID r) pg r"
    using refs r by (auto simp: ref_valid_def)
  obtain im q im' where l: "map_of (st_files s) (PageID r) = Some im" "rebuilt refs (PageID r) pg im = (q, im')"
    "map_of (st_pgs (rebuild_phase refs s)) (PageID r) = Some q"
    "map_of (st_files (rebuild_phase refs s)) (PageID r) = Some im'" by (rule rebuild_phase_page [OF sh pg(1)])
  note rp = rebuilt_page [OF sh refs pg(1) l(1,2)]
  have s1: "page_shape pg" using store_shapeD(3) [OF sh pg(1)] by blast
  have s2: "slot_ref (PageID r) q r"
    using pg(2) rp(1) same_page_offset [OF rp(1)] by (simp add: slot_ref_def same_page_def)
  have "store_Read r (rebuild_phase refs s) = Inr (map (im_mem im') [unat (Offset r)..<page_end r q])"
    by (rule read_shape(1) [OF l(3,4) page_ok_shape [OF rp(3)] s2])
  also have "\<dots> = store_Read r s"
    using read_shape(1) [OF pg(1) l(1) s1 pg(2)] rp(1,2) by (simp add: page_end_def same_page_def)
  finally show ?thesis .
qed

section \<open>Releases before the counters are rebuilt\<close>

definition release_all :: "page_io \<Rightarrow> SlotRef list \<Rightarrow> Store \<Rightarrow> Store" where
  "release_all io refs s = foldl (\<lambda>s r. snd (Release io r s)) s refs"

lemma Release_count:
  assumes pg: "map_of (st_pgs s) k = Some pg" "map_of (st_files s) k = Some im" and j: "\<not> pg_jumbo pg" and r: "PageID r = k"
  shows "if pg_freeCount pg + 1 = pg_capacity pg
    then map_of (st_pgs (snd (Release io r s))) k = None \<and>
      (pio_remove io \<longrightarrow> map_of (st_files (snd (Release io r s))) k = None)
    else \<exists>im'. map_of (st_files (snd (Release io r s))) k = Some im' \<and>
      map_of (st_pgs (snd (Release io r s))) k = Some (pg\<lparr>pg_freeCount := pg_freeCount pg + 1\<rparr>)"
  using assms
  by (simp add: Release_def Let_def freeSlot_def doReclaim_def journal_write_def put_page_def)

lemma release_all_count:
  assumes "map_of (st_pgs s) k = Some pg" "map_of (st_files s) k = Some im" "\<not> pg_jumbo pg"
    "\<forall>r \<in> set refs. PageID r = k" "unat (pg_freeCount pg) + length refs = unat (pg_capacity pg)" "refs \<noteq> []"
  shows "map_of (st_pgs (release_all io refs s)) k = None \<and>
    (pio_remove io \<longrightarrow> map_of (st_files (release_all io refs s)) k = None)"
  using assms
proof (induction refs arbitrary: s pg im)
  case (Cons r refs)
  let ?s = "snd (Release io r s)"
  have n: "unat (pg_freeCount pg + 1) = unat (pg_freeCount pg) + 1"
  proof -
    have "unat (pg_capacity pg) < 2 ^ 32" using unsigned_less [of "pg_capacity pg", where 'a = nat] by simp
    then have "unat (pg_freeCount pg) + 1 < 2 ^ 32" using Cons.prems(5) by simp
    then show ?thesis by (simp add: unat_word_ariths)
  qed
  note rc = Release_count [OF Cons.prems(1-3), of r io]
  have pr: "PageID r = k" using Cons.prems(4) by simp
  show ?case
  proof (cases "refs = []")
    case True
    then have "pg_freeCount pg + 1 = pg_capacity pg" using Cons.prems(5) n by (simp add: word_unat_eq_iff)
    then show ?thesis using rc pr True by (simp add: release_all_def)
  next
    case False
    then have "0 < length refs" by simp
    moreover have "unat (pg_freeCount pg) + Suc (length refs) = unat (pg_capacity pg)" using Cons.prems(5) by simp
    ultimately have "unat (pg_freeCount pg + 1) \<noteq> unat (pg_capacity pg)" using n by linarith
    then have "pg_freeCount pg + 1 \<noteq> pg_capacity pg" by metis
    then obtain im' where p: "map_of (st_files ?s) k = Some im'"
      "map_of (st_pgs ?s) k = Some (pg\<lparr>pg_freeCount := pg_freeCount pg + 1\<rparr>)" using rc pr by auto
    have "map_of (st_pgs (release_all io refs ?s)) k = None \<and>
        (pio_remove io \<longrightarrow> map_of (st_files (release_all io refs ?s)) k = None)"
      using Cons.prems n False by (intro Cons.IH [OF p(2,1)]) auto
    then show ?thesis by (simp add: release_all_def)
  qed
qed simp

section \<open>The rebuilt store\<close>

lemma rebuild_exact:
  assumes "store_shape s" "\<forall>r \<in> set refs. ref_valid s r"
  shows "store_inv (RebuildVolatile io refs s)" "live (RebuildVolatile io refs s) = set refs"
    "\<forall>r \<in> set refs. store_Read r (RebuildVolatile io refs s) = store_Read r s"
proof -
  let ?s = "rebuild_phase refs s"
  let ?P = "\<lambda>(k, pg). pg_jumbo pg \<and> page_refs k refs = []"
  let ?ids = "map fst (filter ?P (st_pgs s))"
  have mem: "k \<in> set ?ids \<longleftrightarrow> (\<exists>pg. map_of (st_pgs s) k = Some pg \<and> pg_jumbo pg \<and> page_refs k refs = [])" for k
    using store_shapeD(1) [OF assms(1)] by force
  have "\<exists>pg. map_of (st_pgs ?s) k = Some pg \<and> pg_jumbo pg" if k: "k \<in> set ?ids" for k
  proof -
    obtain pg where pg: "map_of (st_pgs s) k = Some pg" "pg_jumbo pg" using k mem by blast
    obtain im q im' where "rebuilt refs k pg im = (q, im')" "map_of (st_pgs ?s) k = Some q"
      by (rule rebuild_phase_page [OF assms(1) pg(1)])
    then show ?thesis using pg(2) by (simp add: rebuilt_def)
  qed
  moreover have "distinct ?ids" using store_shapeD(1) [OF assms(1)] by (rule distinct_map_filter)
  ultimately have sp: "store_inv (RebuildVolatile io refs s)"
    "live (RebuildVolatile io refs s) = {r \<in> live ?s. PageID r \<notin> set ?ids}"
    "\<forall>r \<in> live (RebuildVolatile io refs s). store_Read r (RebuildVolatile io refs s) = store_Read r ?s"
    using reclaim_orphans_spec [OF rebuild_phase_inv [OF assms], of ?ids io] unfolding RebuildVolatile_phase by blast+
  have lv: "live (RebuildVolatile io refs s) = set refs"
  proof (rule set_eqI)
    fix r
    show "r \<in> live (RebuildVolatile io refs s) \<longleftrightarrow> r \<in> set refs"
    proof
      assume "r \<in> set refs"
      moreover from this obtain pg where pg: "map_of (st_pgs s) (PageID r) = Some pg" "slot_ref (PageID r) pg r"
        using assms(2) by (auto simp: ref_valid_def)
      moreover have "page_refs (PageID r) refs \<noteq> []" using \<open>r \<in> set refs\<close> by (auto simp: page_refs_def filter_empty_conv)
      ultimately show "r \<in> live (RebuildVolatile io refs s)"
        unfolding sp(2) mem_Collect_eq rebuild_phase_live [OF assms] mem by (simp add: slot_ref_def)
    next
      assume "r \<in> live (RebuildVolatile io refs s)"
      then have l: "r \<in> live ?s" "PageID r \<notin> set ?ids" unfolding sp(2) by simp_all
      obtain pg where pg: "map_of (st_pgs s) (PageID r) = Some pg"
        "if pg_jumbo pg then r = Pack (PageID r) HeaderSize else r \<in> set refs"
        using l(1) rebuild_phase_live [OF assms] by blast
      show "r \<in> set refs"
      proof (cases "pg_jumbo pg")
        case True
        then have "page_refs (PageID r) refs \<noteq> []" using l(2) mem pg(1) by blast
        then obtain x where x: "x \<in> set refs" "PageID x = PageID r" by (auto simp: page_refs_def filter_empty_conv)
        obtain pg' where "map_of (st_pgs s) (PageID x) = Some pg'" "slot_ref (PageID x) pg' x"
          using assms(2) x(1) by (auto simp: ref_valid_def)
        then have "x = r" using x(2) pg True by (simp add: slot_ref_def)
        then show ?thesis using x(1) by simp
      qed (use pg in simp)
    qed
  qed
  show "store_inv (RebuildVolatile io refs s)" "live (RebuildVolatile io refs s) = set refs" by (rule sp(1), rule lv)
  show "\<forall>r \<in> set refs. store_Read r (RebuildVolatile io refs s) = store_Read r s" using lv sp(3) rebuild_read [OF assms] by simp
qed

lemma store_inv_shape: "store_inv s \<Longrightarrow> store_shape s"
  unfolding store_inv_def store_shape_def using page_ok_shape by blast

end
