(* ===== verification/Broker.thy ===== *)
theory Broker
  imports Queue_Frame Store_Rebuild "HOL-Library.Char_ord" "HOL-Library.List_Lexorder"
begin

text \<open>
  The broker (\<open>internal/queue/broker.go\<close>): named queues over one shared page store.  In the code every queue
  holds a pointer to the store; here \<open>b_pages\<close> is the store, the field \<open>q_pages\<close> of a queue in the map is
  not used, and an operation on a queue works on the queue with the store put in.
\<close>

section \<open>State\<close>

text \<open>
  An entry of the directory \<open>queues/\<close>: whether it is a directory, what \<open>loadMeta\<close> returns for it
  (\<open>None\<close> is an error), the segments of its log and its index file.
\<close>

record queue_dir =
  qd_isDir :: bool
  qd_meta :: "Config option"
  qd_wal :: "(u64 \<times> bytes) list"
  qd_index :: file_read

text \<open>
  The files of an open queue are part of its log and index; \<open>b_left\<close> holds the other entries of \<open>queues/\<close>,
  by name: what a failed \<open>RemoveAll\<close> or a failed \<open>Create\<close> left, and what \<open>OpenBroker\<close> skipped.
\<close>

record Broker =
  b_pages :: Store
  b_queues :: "(string \<times> Queue) list"
  b_left :: "(string \<times> queue_dir) list"

datatype broker_error = QueueErr queue_error | StoreErr store_error | IOErr

abbreviation with_pages :: "Store \<Rightarrow> Queue \<Rightarrow> Queue" where
  "with_pages p q \<equiv> q\<lparr>q_pages := p\<rparr>"

section \<open>Opening\<close>

definition queue_refs :: "Queue \<Rightarrow> SlotRef list" where
  "queue_refs q = concat (map (\<lambda>(ref, s). if s_MsgID s \<noteq> 0 then [ref, s_PayloadRef s] else []) (Scan (q_idx q)))"

definition collectRefs :: "Broker \<Rightarrow> SlotRef list" where
  "collectRefs b = concat (map (\<lambda>(n, q). queue_refs q) (b_queues b))"

definition rebuildPageStore :: "page_io \<Rightarrow> Broker \<Rightarrow> Broker" where
  "rebuildPageStore io b = b\<lparr>b_pages := RebuildVolatile io (collectRefs b) (b_pages b)\<rparr>"

text \<open>The loop over the entries; \<open>io i\<close> and \<open>now i\<close> are the outcomes and the clock for the i-th entry.\<close>

fun open_queues :: "(nat \<Rightarrow> nat \<Rightarrow> page_io \<times> page_io) \<Rightarrow> (nat \<Rightarrow> i64) \<Rightarrow> nat \<Rightarrow> (string \<times> queue_dir) list \<Rightarrow> (string \<times> Queue) list \<Rightarrow> Store \<Rightarrow>
    queue_error + (string \<times> Queue) list \<times> Store" where
  "open_queues io now i [] qs p = Inr (qs, p)"
| "open_queues io now i ((n, e) # es) qs p =
    (if \<not> qd_isDir e then open_queues io now (Suc i) es qs p
     else (case qd_meta e of
             None \<Rightarrow> open_queues io now (Suc i) es qs p
           | Some cfg \<Rightarrow>
               (case openQueue (io i) (now i) cfg (qd_wal e) (qd_index e) p of
                  (Inl err, p1) \<Rightarrow> Inl err
                | (Inr q, p1) \<Rightarrow> open_queues io now (Suc i) es (AList.update (cfg_Name cfg) q qs) p1)))"

definition skipped :: "queue_dir \<Rightarrow> bool" where
  "skipped e \<longleftrightarrow> \<not> qd_isDir e \<or> qd_meta e = None"

text \<open>
  \<open>OpenBroker\<close>: \<open>sio\<close> are the outcomes of opening the store, \<open>mkdir\<close> tells whether the directory can be made, \<open>dirs\<close> is what reading it returns (\<open>None\<close> is
  an error), \<open>files\<close> and \<open>jnl\<close> are the page files and the journal of the store.
\<close>

definition OpenBroker :: "open_io \<Rightarrow> (nat \<Rightarrow> nat \<Rightarrow> page_io \<times> page_io) \<Rightarrow> page_io \<Rightarrow> (nat \<Rightarrow> i64) \<Rightarrow> bool \<Rightarrow>
    (string \<times> queue_dir) list option \<Rightarrow> (u32 \<times> image) list \<Rightarrow> bytes \<Rightarrow> broker_error + Broker" where
  "OpenBroker sio io rio now mkdir dirs files jnl =
    (if \<not> mkdir then Inl IOErr
     else (case store_Open sio files jnl of
             Inl e \<Rightarrow> Inl (StoreErr e)
           | Inr pages \<Rightarrow>
               (case dirs of
                  None \<Rightarrow> Inl IOErr
                | Some es \<Rightarrow>
                    (case open_queues io now 0 es [] pages of
                       Inl e \<Rightarrow> Inl (QueueErr e)
                     | Inr (qs, p) \<Rightarrow>
                         Inr (rebuildPageStore rio
                           \<lparr>b_pages = p, b_queues = qs, b_left = filter (skipped \<circ> snd) es\<rparr>)))))"

section \<open>Looking up\<close>

definition Names :: "Broker \<Rightarrow> string list" where
  "Names b = sort (map fst (b_queues b))"

definition Get :: "string \<Rightarrow> Broker \<Rightarrow> broker_error + Queue" where
  "Get name b =
    (case map_of (b_queues b) name of
       None \<Rightarrow> Inl (QueueErr ErrNoQueue)
     | Some q \<Rightarrow> Inr (with_pages (b_pages b) q))"

definition put_queue :: "string \<Rightarrow> Queue \<Rightarrow> Broker \<Rightarrow> Broker" where
  "put_queue name q b = b\<lparr>b_queues := AList.update name q (b_queues b), b_pages := q_pages q\<rparr>"

text \<open>A method call on a queue that was looked up by its name.\<close>

definition on_queue :: "string \<Rightarrow> (Queue \<Rightarrow> 'a \<times> Queue) \<Rightarrow> Broker \<Rightarrow> (broker_error + 'a) \<times> Broker" where
  "on_queue name f b =
    (case Get name b of
       Inl e \<Rightarrow> (Inl e, b)
     | Inr q \<Rightarrow> (case f q of (r, q') \<Rightarrow> (Inr r, put_queue name q' b)))"

section \<open>Creating, deleting, closing\<close>

text \<open>
  The outcomes of \<open>Create\<close>: the directory, \<open>saveMeta\<close> (which replaces the file atomically), the clock, and
  the releases that a replay of an old log may make.
\<close>

record create_io =
  cre_mkdir :: bool
  cre_meta :: bool
  cre_now :: i64
  cre_release :: "nat \<Rightarrow> page_io \<times> page_io"

text \<open>What the directory of a queue that is not open holds after \<open>MkdirAll\<close>.\<close>

definition left_dir :: "string \<Rightarrow> Broker \<Rightarrow> queue_dir" where
  "left_dir name b =
    (case map_of (b_left b) name of
       None \<Rightarrow> \<lparr>qd_isDir = True, qd_meta = None, qd_wal = [], qd_index = NotExist\<rparr>
     | Some d \<Rightarrow> d)"

definition Create :: "create_io \<Rightarrow> Config \<Rightarrow> Broker \<Rightarrow> (broker_error + Queue) \<times> Broker" where
  "Create io cfg b =
    (let n = cfg_Name cfg; d = left_dir n b in
     if map_of (b_queues b) n \<noteq> None then (Inl (QueueErr ErrExists), b)
     else if \<not> cre_mkdir io then (Inl IOErr, b)
     else if \<not> cre_meta io then (Inl IOErr, b\<lparr>b_left := AList.update n d (b_left b)\<rparr>)
     else (case openQueue (cre_release io) (cre_now io) cfg (qd_wal d) (qd_index d) (b_pages b) of
             (Inl e, p) \<Rightarrow>
               (Inl (QueueErr e),
                b\<lparr>b_pages := p, b_left := AList.update n
                    (d\<lparr>qd_meta := Some cfg, qd_wal := w_files (wal_Open (qd_wal d))\<rparr>) (b_left b)\<rparr>)
           | (Inr q, p) \<Rightarrow> (Inr q, (put_queue n q b)\<lparr>b_left := AList.delete n (b_left b)\<rparr>)))"

text \<open>The outcomes of \<open>Close\<close> of one queue: the index file, the removals of segments, the log.\<close>

record close_io =
  clo_index :: index_io
  clo_rm :: "u64 \<Rightarrow> bool"
  clo_wal :: wal_io

text \<open>The files a closed queue leaves, as the next \<open>OpenBroker\<close> or \<open>Create\<close> finds them.\<close>

definition dir_of :: "Queue \<Rightarrow> queue_dir" where
  "dir_of q = \<lparr>qd_isDir = True, qd_meta = Some (q_cfg q), qd_wal = w_files (q_wal q),
     qd_index = (case ix_file (q_idx q) of None \<Rightarrow> NotExist | Some d \<Rightarrow> FileData d)\<rparr>"

text \<open>
  The outcome of \<open>os.RemoveAll\<close>: everything removed, or an error after which some of the files are gone
  (\<open>queue.meta\<close>, the index file, each segment).
\<close>

record remove_io =
  rmv_all :: bool
  rmv_meta :: bool
  rmv_index :: bool
  rmv_wal :: "u64 \<Rightarrow> bool"

definition remains :: "remove_io \<Rightarrow> queue_dir \<Rightarrow> queue_dir" where
  "remains rm d = d\<lparr>qd_meta := (if rmv_meta rm then None else qd_meta d),
     qd_index := (if rmv_index rm then NotExist else qd_index d),
     qd_wal := filter (\<lambda>(fl, data). \<not> rmv_wal rm fl) (qd_wal d)\<rparr>"

text \<open>
  \<open>Delete\<close>: the queue leaves the map, is closed (it works on the shared store), and its directory is
  removed.  The closed queue is what a caller that still holds it sees.
\<close>

definition Delete :: "close_io \<Rightarrow> remove_io \<Rightarrow> string \<Rightarrow> Broker \<Rightarrow> (broker_error + Queue) \<times> Broker" where
  "Delete io rm name b =
    (case map_of (b_queues b) name of
       None \<Rightarrow> (Inl (QueueErr ErrNoQueue), b)
     | Some q \<Rightarrow>
         (let closed = q_Close (clo_index io) (clo_rm io) (clo_wal io) (with_pages (b_pages b) q);
              b' = b\<lparr>b_queues := AList.delete name (b_queues b), b_pages := q_pages closed\<rparr>
          in if rmv_all rm then (Inr closed, b'\<lparr>b_left := AList.delete name (b_left b)\<rparr>)
             else (Inl IOErr, b'\<lparr>b_left := AList.update name (remains rm (dir_of closed)) (b_left b)\<rparr>)))"

text \<open>The first component is the closed queues, whose logs and index files are what is on disk; \<open>ok\<close> is the outcome of closing the store.\<close>

definition Broker_Close :: "(string \<Rightarrow> close_io) \<Rightarrow> bool \<Rightarrow> Broker \<Rightarrow> (string \<times> Queue) list \<times> (broker_error + unit) \<times> Broker" where
  "Broker_Close io ok b =
    (map (\<lambda>(n, q). (n, q_Close (clo_index (io n)) (clo_rm (io n)) (clo_wal (io n)) (with_pages (b_pages b) q))) (b_queues b),
     if ok then Inr () else Inl IOErr,
     b\<lparr>b_queues := [], b_pages := store_Close (b_pages b)\<rparr>)"

text \<open>Here \<open>ok\<close> tells whether all the closes, of the logs and of the store, succeeded.\<close>

definition CloseWithoutCheckpoint :: "(string \<Rightarrow> wal_io) \<Rightarrow> bool \<Rightarrow> Broker \<Rightarrow> (string \<times> Queue) list \<times> (broker_error + unit) \<times> Broker" where
  "CloseWithoutCheckpoint io ok b =
    (map (\<lambda>(n, q). (n, closeWithoutCheckpoint (io n) (with_pages (b_pages b) q))) (b_queues b),
     if ok then Inr () else Inl IOErr,
     b\<lparr>b_queues := [], b_pages := store_Close (b_pages b)\<rparr>)"

end
