(* ===== verification/Broker_Inv.thy ===== *)
theory Broker_Inv
  imports Broker
begin

text \<open>
  The broker invariant: the live references of the shared store are those of the queues, each queue's its
  own, and the leaked ones (\<open>L\<close>: what deleted queues left behind).  A step of one queue keeps it and does
  not change what another queue holds.
\<close>

definition queue_owned :: "Queue \<Rightarrow> u64 set" where
  "queue_owned q = owned (prefs (q_slots q))"

type_synonym queue_map = "string \<rightharpoonup> Queue"

definition all_owned :: "queue_map \<Rightarrow> u64 set" where
  "all_owned M = (\<Union>q \<in> ran M. queue_owned q)"

definition others :: "u64 set \<Rightarrow> string \<Rightarrow> queue_map \<Rightarrow> u64 set" where
  "others L n M = L \<union> all_owned (M(n := None))"

abbreviation queue_map :: "Broker \<Rightarrow> queue_map" where
  "queue_map b \<equiv> map_of (b_queues b)"

definition broker_inv :: "u64 set \<Rightarrow> Broker \<Rightarrow> bool" where
  "broker_inv L b \<longleftrightarrow> distinct (map fst (b_queues b)) \<and> store_inv (b_pages b) \<and> live (b_pages b) = L \<union> all_owned (queue_map b) \<and>
     (\<forall>n q. queue_map b n = Some q \<longrightarrow> q_inv (others L n (queue_map b)) (with_pages (b_pages b) q))"

text \<open>What a client can see: the payloads of the messages of each queue.\<close>

definition contents :: "Broker \<Rightarrow> string \<rightharpoonup> (u64 \<rightharpoonup> bytes)" where
  "contents b n = map_option (\<lambda>q. payloads (with_pages (b_pages b) q)) (map_of (b_queues b) n)"

text \<open>The messages of each queue in full: payload, priority, attempts, time and status.\<close>

definition all_messages :: "Broker \<Rightarrow> string \<rightharpoonup> (u64 \<rightharpoonup> amsg)" where
  "all_messages b n = map_option (\<lambda>q. messages (with_pages (b_pages b) q)) (map_of (b_queues b) n)"

lemma broker_invD:
  assumes "broker_inv L b"
  shows "distinct (map fst (b_queues b))" "store_inv (b_pages b)" "live (b_pages b) = L \<union> all_owned (queue_map b)"
    "queue_map b n = Some q \<Longrightarrow> q_inv (others L n (queue_map b)) (with_pages (b_pages b) q)"
  using assms unfolding broker_inv_def by blast+

lemma broker_invI:
  assumes "distinct (map fst (b_queues b))" "store_inv (b_pages b)" "live (b_pages b) = L \<union> all_owned (queue_map b)"
    "\<And>n q. queue_map b n = Some q \<Longrightarrow> q_inv (others L n (queue_map b)) (with_pages (b_pages b) q)"
  shows "broker_inv L b"
  using assms unfolding broker_inv_def by blast

lemma all_owned_split: "M n = Some q \<Longrightarrow> all_owned M = all_owned (M(n := None)) \<union> queue_owned q"
  unfolding all_owned_def ran_def by (auto split: if_splits) (metis option.inject)

lemma owned_others: "M m = Some q \<Longrightarrow> m \<noteq> n \<Longrightarrow> queue_owned q \<subseteq> others L n M"
  unfolding others_def all_owned_def ran_def by auto

lemma others_all: "M n = Some q \<Longrightarrow> others L n M \<union> queue_owned q = L \<union> all_owned M"
  unfolding others_def by (auto simp: all_owned_split)

lemma queue_disjoint:
  assumes "q_inv F (with_pages p q)"
  shows "F \<inter> queue_owned q = {}" "live p = F \<union> queue_owned q"
  using heap_invD(2,3) [OF q_invD(2) [OF assms]] by (simp_all add: queue_owned_def)

text \<open>Another queue keeps its invariant and its messages when the store changes under it outside its own references.\<close>

lemma other_queue:
  assumes i: "q_inv F (with_pages p q)" and p': "store_inv p'" "live p' = F' \<union> queue_owned q" "F' \<inter> queue_owned q = {}"
    and rd: "same_reads (queue_owned q) p p'"
  shows "q_inv F' (with_pages p' q)" "messages (with_pages p' q) = messages (with_pages p q)"
proof -
  let ?q = "with_pages p q"
  note q = q_invD [OF i]
  have "heap_inv F' (prefs (q_slots ?q)) p'"
    by (rule heap_inv_store [OF q(2) p'(1)]) (use p' rd in \<open>simp_all add: queue_owned_def same_reads_def\<close>)
  moreover have "queue_inv (with_pages p' q)"
    by (rule core_inv_cong [where q = ?q]) (use q(1) in simp_all)
  ultimately have "q_inv F' (with_pages p' q) \<and> messages (with_pages p' q) = messages ?q"
    by (intro q_inv_pages [OF i]) (use rd in \<open>simp_all add: queue_owned_def\<close>)
  then show "q_inv F' (with_pages p' q)" "messages (with_pages p' q) = messages (with_pages p q)" by blast+
qed

lemma left_other [simp]:
  "broker_inv L (b\<lparr>b_left := d\<rparr>) = broker_inv L b" "contents (b\<lparr>b_left := d\<rparr>) = contents b"
  "all_messages (b\<lparr>b_left := d\<rparr>) = all_messages b"
  by (simp_all add: broker_inv_def contents_def all_messages_def fun_eq_iff)

section \<open>A step of one queue\<close>

lemma put_queue_fields [simp]:
  "queue_map (put_queue n q b) = (queue_map b)(n \<mapsto> q)" "b_pages (put_queue n q b) = q_pages q"
  by (simp_all add: put_queue_def update_conv')

lemma put_queue_distinct: "distinct (map fst (b_queues b)) \<Longrightarrow> distinct (map fst (b_queues (put_queue n q b)))"
  by (simp add: put_queue_def distinct_update)

lemma put_queue_inv:
  assumes i: "broker_inv L b" and q: "q_inv (others L n (queue_map b)) q'"
    and rd: "same_reads (others L n (queue_map b)) (b_pages b) (q_pages q')"
  shows "broker_inv L (put_queue n q' b)" "contents (put_queue n q' b) = (contents b)(n \<mapsto> payloads q')"
    "all_messages (put_queue n q' b) = (all_messages b)(n \<mapsto> messages q')"
proof -
  let ?b' = "put_queue n q' b" and ?M = "queue_map b"
  note b = broker_invD [OF i]
  have eq: "with_pages (q_pages q') q' = q'" by simp
  have dj: "others L n ?M \<inter> queue_owned q' = {}" "live (q_pages q') = others L n ?M \<union> queue_owned q'"
    using queue_disjoint [of "others L n ?M" "q_pages q'" q'] q by simp_all
  have lv: "live (q_pages q') = L \<union> all_owned (?M(n \<mapsto> q'))"
    using dj(2) others_all [of "?M(n \<mapsto> q')" n q' L] by (simp add: others_def)
  have o: "q_inv (others L m (?M(n \<mapsto> q'))) (with_pages (q_pages q') qm) \<and>
      messages (with_pages (q_pages q') qm) = messages (with_pages (b_pages b) qm)"
    if m: "m \<noteq> n" "?M m = Some qm" for m qm
  proof -
    note im = b(4) [OF m(2)]
    have sub: "queue_owned qm \<subseteq> others L n ?M" by (rule owned_others) (rule m)+
    have out: "others L m (?M(n \<mapsto> q')) \<subseteq> others L m ?M \<union> queue_owned q'"
      unfolding others_def all_owned_def ran_def by (auto split: if_splits)
    have d: "others L m (?M(n \<mapsto> q')) \<inter> queue_owned qm = {}" using out sub dj(1) queue_disjoint(1) [OF im] by blast
    have l: "live (q_pages q') = others L m (?M(n \<mapsto> q')) \<union> queue_owned qm"
      unfolding lv by (rule others_all [symmetric]) (use m in simp)
    have "same_reads (queue_owned qm) (b_pages b) (q_pages q')" using rd sub by (auto simp: same_reads_def)
    from other_queue [OF im heap_invD(1) [OF q_invD(2) [OF q]] l d this] show ?thesis by blast
  qed
  show "broker_inv L ?b'"
  proof (rule broker_invI)
    show "distinct (map fst (b_queues ?b'))" by (rule put_queue_distinct [OF b(1)])
    show "store_inv (b_pages ?b')" using heap_invD(1) [OF q_invD(2) [OF q]] by simp
    show "live (b_pages ?b') = L \<union> all_owned (queue_map ?b')" using lv by simp
    fix m qm assume m: "queue_map ?b' m = Some qm"
    show "q_inv (others L m (queue_map ?b')) (with_pages (b_pages ?b') qm)"
    proof (cases "m = n")
      case True
      then have "qm = q'" "others L m (queue_map ?b') = others L n ?M" using m by (simp_all add: others_def)
      then show ?thesis using q by simp
    next
      case False
      then show ?thesis using o [OF False, of qm] m by simp
    qed
  qed
  show "contents ?b' = (contents b)(n \<mapsto> payloads q')"
  proof
    fix m
    show "contents ?b' m = ((contents b)(n \<mapsto> payloads q')) m"
      using o [of m] by (cases "m = n"; cases "?M m") (simp_all add: contents_def payloads_def)
  qed
  show "all_messages ?b' = (all_messages b)(n \<mapsto> messages q')"
  proof
    fix m
    show "all_messages ?b' m = ((all_messages b)(n \<mapsto> messages q')) m"
      using o [of m] by (cases "m = n"; cases "?M m") (simp_all add: all_messages_def)
  qed
qed

lemma queue_step_broker:
  assumes i: "broker_inv L b" and q: "queue_map b n = Some q" and s: "queue_step (with_pages (b_pages b) q) ev q'"
  shows "broker_inv L (put_queue n q' b)"
    "contents (put_queue n q' b) = (contents b)(n := map_option (\<lambda>P. apply_event P ev) (contents b n))"
    "all_messages (put_queue n q' b) = (all_messages b)(n \<mapsto> messages q')"
proof -
  note iq = broker_invD(4) [OF i q]
  note sp = step_spec [OF s iq] and fr = step_frame [OF s iq]
  have rd: "same_reads (others L n (queue_map b)) (b_pages b) (q_pages q')" using fr by simp
  show "broker_inv L (put_queue n q' b)" by (rule put_queue_inv(1) [OF i conjunct1 [OF sp] rd])
  show "all_messages (put_queue n q' b) = (all_messages b)(n \<mapsto> messages q')" by (rule put_queue_inv(3) [OF i conjunct1 [OF sp] rd])
  have "contents (put_queue n q' b) = (contents b)(n \<mapsto> payloads q')" by (rule put_queue_inv(2) [OF i conjunct1 [OF sp] rd])
  then show "contents (put_queue n q' b) = (contents b)(n := map_option (\<lambda>P. apply_event P ev) (contents b n))"
    using conjunct2 [OF sp] q by (simp add: contents_def)
qed

section \<open>Creating and deleting queues\<close>

lemma same_reads_refl [simp]: "same_reads S p p"
  by (simp add: same_reads_def)

lemma apply_other [simp]:
  "q_inv F (q\<lparr>q_apply := c\<rparr>) = q_inv F q" "messages (q\<lparr>q_apply := c\<rparr>) = messages q"
proof -
  show "q_inv F (q\<lparr>q_apply := c\<rparr>) = q_inv F q"
    by (simp add: q_inv_def dead_ok_def core_inv_def shape_inv_def q_dir_def ready_view_def dead_view_def)
  show "messages (q\<lparr>q_apply := c\<rparr>) = messages q" by (rule messages_cong) simp_all
qed

lemma create_new:
  assumes i: "broker_inv L b" and n: "queue_map b (cfg_Name cfg) = None"
    and o: "openQueue io now cfg [] NotExist (b_pages b) = (Inr q, p)"
  shows "broker_inv L (put_queue (cfg_Name cfg) q b)" "contents (put_queue (cfg_Name cfg) q b) = (contents b)(cfg_Name cfg \<mapsto> (\<lambda>m. None))"
proof -
  let ?n = "cfg_Name cfg"
  note b = broker_invD [OF i]
  define q0 where "q0 = new_queue now cfg (wal_Open []) empty_index (b_pages b)"
  have q: "q = q0\<lparr>q_apply := cursor_reset 0 \<lparr>ac_pending = [], ac_high = 0, ac_contig = 0\<rparr>\<rparr>"
    using o unfolding open_new_queue q0_def by blast
  have oth: "others L ?n (queue_map b) = live (b_pages b)" unfolding b(3) using n by (simp add: others_def fun_upd_idem)
  have "q_inv (live (b_pages b)) q0 \<and> messages q0 = (\<lambda>m. None)" unfolding q0_def by (rule new_queue_inv [OF b(2)])
  then have iq: "q_inv (others L ?n (queue_map b)) q" "messages q = (\<lambda>m. None)" unfolding oth q by simp_all
  have pg: "q_pages q = b_pages b" unfolding q q0_def by (simp add: new_queue_def)
  have rd: "same_reads (others L ?n (queue_map b)) (b_pages b) (q_pages q)" unfolding pg by simp
  show "broker_inv L (put_queue ?n q b)" by (rule put_queue_inv(1) [OF i iq(1) rd])
  have "payloads q = (\<lambda>m. None)" using iq(2) by (simp add: payloads_def)
  then show "contents (put_queue ?n q b) = (contents b)(?n \<mapsto> (\<lambda>m. None))" using put_queue_inv(2) [OF i iq(1) rd] by simp
qed

lemma delete_queue:
  assumes i: "broker_inv L b" and q: "queue_map b n = Some q"
  defines "b' \<equiv> b\<lparr>b_queues := AList.delete n (b_queues b)\<rparr>"
  shows "broker_inv (L \<union> queue_owned q) b'" "contents b' = (contents b)(n := None)" "b_pages b' = b_pages b"
proof -
  note b = broker_invD [OF i]
  have m: "queue_map b' = (queue_map b)(n := None)" "b_pages b' = b_pages b" by (simp_all add: b'_def delete_conv')
  show "b_pages b' = b_pages b" by (rule m(2))
  show "contents b' = (contents b)(n := None)" by (rule ext) (simp add: contents_def m)
  have all: "all_owned (queue_map b) = all_owned (queue_map b') \<union> queue_owned q"
    unfolding m(1) by (rule all_owned_split) (rule q)
  show "broker_inv (L \<union> queue_owned q) b'"
  proof (rule broker_invI)
    show "distinct (map fst (b_queues b'))" using b(1) by (simp add: b'_def distinct_delete)
    show "store_inv (b_pages b')" using b(2) m(2) by simp
    show "live (b_pages b') = (L \<union> queue_owned q) \<union> all_owned (queue_map b')" using b(3) all m(2) by auto
    fix k x assume k: "queue_map b' k = Some x"
    then have "k \<noteq> n" "queue_map b k = Some x" using m(1) by (auto split: if_splits)
    moreover have "others (L \<union> queue_owned q) k (queue_map b') = others L k (queue_map b)"
      using all_owned_split [of "(queue_map b)(k := None)" n q] q \<open>k \<noteq> n\<close> unfolding others_def m(1) by (auto simp: fun_upd_twist)
    ultimately show "q_inv (others (L \<union> queue_owned q) k (queue_map b')) (with_pages (b_pages b') x)" using b(4) m(2) by simp
  qed
qed

text \<open>Closing a queue writes its checkpoint and closes its log; the page store stays as it is.\<close>

lemma q_Close_pages [simp]: "q_pages (q_Close xio rm wio q) = q_pages q"
  by (simp add: q_Close_def q_Checkpoint_def Let_def split: prod.split bool.split)

lemma Delete_removes:
  assumes "queue_map b n = Some q" "Delete io rm n b = (res, b')"
  obtains d where "b' = b\<lparr>b_queues := AList.delete n (b_queues b), b_left := d\<rparr>" "map_of d n = None \<longleftrightarrow> rmv_all rm"
    "isl res \<longleftrightarrow> \<not> rmv_all rm"
  using assms by (auto simp: Delete_def Let_def split: if_splits)

text \<open>The directory of a name holds no log and no index: there is none, or it is empty.\<close>

definition empty_left :: "string \<Rightarrow> Broker \<Rightarrow> bool" where
  "empty_left n b \<longleftrightarrow> qd_wal (left_dir n b) = [] \<and> qd_index (left_dir n b) = NotExist"

lemma Create_empty:
  assumes "empty_left (cfg_Name cfg) b" "Create io cfg b = (res, b')"
  shows "res = Inr q \<Longrightarrow> queue_map b (cfg_Name cfg) = None \<and> (\<exists>p d. b' = (put_queue (cfg_Name cfg) q b)\<lparr>b_left := d\<rparr> \<and>
      openQueue (cre_release io) (cre_now io) cfg [] NotExist (b_pages b) = (Inr q, p))"
    "isl res \<Longrightarrow> \<exists>d. b' = b\<lparr>b_left := d\<rparr>"
proof -
  have e: "qd_wal (left_dir (cfg_Name cfg) b) = []" "qd_index (left_dir (cfg_Name cfg) b) = NotExist"
    using assms(1) by (simp_all add: empty_left_def)
  have self: "\<exists>d. b = b\<lparr>b_left := d\<rparr>" by (rule exI [of _ "b_left b"]) simp
  show "res = Inr q \<Longrightarrow> queue_map b (cfg_Name cfg) = None \<and> (\<exists>p d. b' = (put_queue (cfg_Name cfg) q b)\<lparr>b_left := d\<rparr> \<and>
      openQueue (cre_release io) (cre_now io) cfg [] NotExist (b_pages b) = (Inr q, p))"
    using assms(2) by (auto simp: Create_def e Let_def split: if_splits sum.splits prod.splits)
  show "isl res \<Longrightarrow> \<exists>d. b' = b\<lparr>b_left := d\<rparr>"
    using assms(2) self by (auto simp: Create_def e Let_def open_new_queue split: if_splits sum.splits prod.splits)
qed

section \<open>Runs of the broker\<close>

datatype broker_event = On string event | Created string | Deleted string | NoChange

inductive broker_step :: "Broker \<Rightarrow> broker_event \<Rightarrow> Broker \<Rightarrow> bool" where
  queue_op: "Get n b = Inr q \<Longrightarrow> queue_step q ev q' \<Longrightarrow> broker_step b (On n ev) (put_queue n q' b)"
| create: "Create io cfg b = (Inr q, b') \<Longrightarrow> empty_left (cfg_Name cfg) b \<Longrightarrow> broker_step b (Created (cfg_Name cfg)) b'"
| create_fails: "Create io cfg b = (Inl e, b') \<Longrightarrow> empty_left (cfg_Name cfg) b \<Longrightarrow> broker_step b NoChange b'"
| delete: "Delete io rm n b = (res, b') \<Longrightarrow> res \<noteq> Inl (QueueErr ErrNoQueue) \<Longrightarrow> broker_step b (Deleted n) b'"
| delete_unknown: "Delete io rm n b = (Inl (QueueErr ErrNoQueue), b') \<Longrightarrow> broker_step b NoChange b'"

inductive broker_run :: "Broker \<Rightarrow> broker_event list \<Rightarrow> Broker \<Rightarrow> bool" where
  start: "broker_run b [] b"
| step: "broker_run b evs b1 \<Longrightarrow> broker_step b1 ev b2 \<Longrightarrow> broker_run b (evs @ [ev]) b2"

fun apply_broker :: "(string \<rightharpoonup> (u64 \<rightharpoonup> bytes)) \<Rightarrow> broker_event \<Rightarrow> (string \<rightharpoonup> (u64 \<rightharpoonup> bytes))" where
  "apply_broker C (On n ev) = C(n := map_option (\<lambda>P. apply_event P ev) (C n))"
| "apply_broker C (Created n) = C(n \<mapsto> (\<lambda>m. None))"
| "apply_broker C (Deleted n) = C(n := None)"
| "apply_broker C NoChange = C"

lemma broker_step_spec:
  assumes s: "broker_step b ev b'" and i: "broker_inv L b"
  shows "\<exists>L'. L \<subseteq> L' \<and> broker_inv L' b' \<and> contents b' = apply_broker (contents b) ev"
  using s
proof cases
  case (queue_op n q ev' q')
  obtain q0 where q0: "queue_map b n = Some q0" "q = with_pages (b_pages b) q0"
    using queue_op(3) by (auto simp: Get_def split: option.splits)
  note st = queue_step_broker [OF i q0(1) queue_op(4) [unfolded q0(2)]]
  show ?thesis unfolding queue_op(1,2) apply_broker.simps st(2) [symmetric] using st(1) by blast
next
  case (create io cfg q)
  obtain p d where "b' = (put_queue (cfg_Name cfg) q b)\<lparr>b_left := d\<rparr>" "queue_map b (cfg_Name cfg) = None"
    "openQueue (cre_release io) (cre_now io) cfg [] NotExist (b_pages b) = (Inr q, p)"
    using Create_empty(1) [OF create(3,2) refl] by blast
  then show ?thesis using create_new [OF i] create(1) by auto
next
  case (create_fails io cfg e)
  then show ?thesis using i Create_empty(2) [OF create_fails(3,2)] by auto
next
  case (delete io rm n res)
  obtain q where q: "queue_map b n = Some q" using delete(2,3) by (auto simp: Delete_def split: option.splits)
  obtain d where "b' = b\<lparr>b_queues := AList.delete n (b_queues b), b_left := d\<rparr>" by (rule Delete_removes [OF q delete(2)])
  then show ?thesis using delete_queue [OF i q] delete(1) by auto
next
  case (delete_unknown io rm n)
  have "b' = b" using delete_unknown(2) by (auto simp: Delete_def Let_def split: option.splits if_splits)
  then show ?thesis using i delete_unknown(1) by auto
qed

lemma broker_run_spec:
  assumes "broker_run b evs b'" "broker_inv L b"
  shows "\<exists>L'. L \<subseteq> L' \<and> broker_inv L' b' \<and> contents b' = foldl apply_broker (contents b) evs"
  using assms
proof (induction rule: broker_run.induct)
  case (step b evs b1 ev b2)
  then obtain L1 where "L \<subseteq> L1" "broker_inv L1 b1" "contents b1 = foldl apply_broker (contents b) evs" by blast
  moreover obtain L2 where "L1 \<subseteq> L2" "broker_inv L2 b2" "contents b2 = apply_broker (contents b1) ev"
    using broker_step_spec [OF step.hyps(2) calculation(2)] by blast
  ultimately show ?case by (intro exI [of _ L2]) auto
qed auto

end
