(* ===== verification/Api.thy ===== *)
theory Api
  imports Broker_Inv
begin

text \<open>
  The HTTP API (\<open>internal/api/api.go\<close>): routing, the checks of each handler, and the status codes.  The JSON
  codec is not modelled: a request carries what decoding its body into each request struct gives
  (\<open>None\<close> is an error), and a response carries the value that is encoded.  A string of a payload is its bytes.
\<close>

section \<open>Requests and responses\<close>

record createReq =
  cr_Name :: string
  cr_Order :: string
  cr_MaxAttempts :: u16
  cr_VisibilityMs :: i64
  cr_MaxDelayMs :: i64
  cr_AgeBoostMs :: i64
  cr_MaxDepth :: int
  cr_DurableLeases :: bool

record enqueueItem =
  ei_Body :: bytes
  ei_Priority :: u8
  ei_DelayMs :: i64

record enqueueReq =
  eq_item :: enqueueItem
  eq_Messages :: "enqueueItem list"

record leaseReq =
  lr_Max :: int
  lr_VisibilityMs :: i64
  lr_WaitMs :: int

record http_req =
  rq_method :: string
  rq_path :: string
  rq_query :: "string \<Rightarrow> string"
  rq_contentLength :: int
  rq_create :: "createReq option"
  rq_enqueue :: "enqueueReq option"
  rq_lease :: "leaseReq option"
  rq_ack :: "string option"
  rq_nack :: "(string \<times> i64) option"
  rq_replay :: "(u64 list \<times> i64) option"

record queueInfo =
  qn_Name :: string
  qn_Config :: Config
  qn_Stats :: Stats

record deadOut =
  do_ID :: u64
  do_Body :: bytes
  do_Priority :: u8
  do_Attempts :: u16
  do_EnqueuedAtMs :: i64

datatype api_error = DecodeErr | OrderErr string | Message string | BrokerErr broker_error

text \<open>\<open>Aborted\<close> is a panic in a handler: \<open>net/http\<close> drops the connection, and there is no status code.\<close>

datatype body = NoBody | ErrBody api_error | InfoList "queueInfo list" | Info queueInfo | StatsBody Stats | Ids "u64 list"
  | Deliveries "Delivery list" | Acked_ok | Nacked_ok | DeadList "deadOut list" | StoreStats "int \<times> int \<times> int" | Aborted | Static

record response =
  rs_code :: nat
  rs_body :: body

definition reply :: "nat \<Rightarrow> body \<Rightarrow> response" where
  "reply code v = \<lparr>rs_code = code, rs_body = v\<rparr>"

text \<open>\<open>fail\<close>: the domain errors and their status codes.\<close>

definition fail :: "broker_error \<Rightarrow> response" where
  "fail err =
    (case err of
       QueueErr Panic \<Rightarrow> reply 0 Aborted
     | QueueErr ErrNoQueue \<Rightarrow> reply 404 (ErrBody (BrokerErr err))
     | QueueErr ErrNotFound \<Rightarrow> reply 404 (ErrBody (BrokerErr err))
     | QueueErr ErrBadReceipt \<Rightarrow> reply 409 (ErrBody (BrokerErr err))
     | QueueErr (ErrDelayTooLong d m) \<Rightarrow> reply 400 (ErrBody (BrokerErr err))
     | QueueErr ErrFull \<Rightarrow> reply 429 (ErrBody (BrokerErr err))
     | _ \<Rightarrow> reply 500 (ErrBody (BrokerErr err)))"

text \<open>\<open>strconv.ParseInt\<close> and \<open>Atoi\<close> with base 10, the error ignored: 0 for bad syntax, the nearest value out of range.\<close>

fun parse_uint :: "nat \<Rightarrow> string \<Rightarrow> nat option" where
  "parse_uint n [] = Some n"
| "parse_uint n (c # cs) =
    (case digit_val 10 c of
       None \<Rightarrow> None
     | Some d \<Rightarrow> (if 2 ^ 64 \<le> n * 10 + d then Some (2 ^ 64 - 1) else parse_uint (n * 10 + d) cs))"

definition ParseInt :: "string \<Rightarrow> int" where
  "ParseInt s =
    (let neg = (s \<noteq> [] \<and> hd s = CHR ''-''); ds = (if s \<noteq> [] \<and> hd s \<in> {CHR ''-'', CHR ''+''} then tl s else s) in
     if ds = [] then 0
     else (case parse_uint 0 ds of
             None \<Rightarrow> 0
           | Some n \<Rightarrow> (if neg then max (- int n) (- (2 ^ 63)) else min (int n) (2 ^ 63 - 1))))"

section \<open>The environment of a request\<close>

text \<open>The outcomes of the system calls, the clock and the nonces; \<open>ae_static\<close> is the answer of the file server.\<close>

record api_env =
  ae_io :: queue_io
  ae_release :: "nat \<Rightarrow> page_io"
  ae_nonces :: "nat \<Rightarrow> u64"
  ae_now :: i64
  ae_now2 :: i64
  ae_wake :: "((Queue \<Rightarrow> Queue) \<times> queue_io \<times> (nat \<Rightarrow> u64) \<times> i64 \<times> i64) option"
  ae_index :: index_io
  ae_rm :: "u64 \<Rightarrow> bool"
  ae_create :: create_io
  ae_close :: close_io
  ae_rmAll :: remove_io
  ae_static :: response

section \<open>Handlers of one queue\<close>

definition q_fail :: "queue_error \<Rightarrow> response" where
  "q_fail e = fail (QueueErr e)"

definition api_items :: "enqueueReq \<Rightarrow> EnqueueRequest list" where
  "api_items req =
    map (\<lambda>it. \<lparr>er_Payload = ei_Body it, er_Priority = ei_Priority it, er_DelayMs = ei_DelayMs it\<rparr>)
      (if eq_Messages req = [] then [eq_item req] else eq_Messages req)"

definition api_enqueue :: "api_env \<Rightarrow> http_req \<Rightarrow> Queue \<Rightarrow> response \<times> Queue" where
  "api_enqueue env rq q =
    (if rq_method rq \<noteq> ''POST'' then (reply 405 NoBody, q)
     else (case rq_enqueue rq of
             None \<Rightarrow> (reply 400 (ErrBody DecodeErr), q)
           | Some req \<Rightarrow>
               (case q_Enqueue (ae_io env) (ae_now env) (ae_now2 env) (api_items req) q of
                  (Inl e, q') \<Rightarrow> (q_fail e, q')
                | (Inr ids, q') \<Rightarrow> (reply 201 (Ids ids), q'))))"

text \<open>The lease request after the query parameters and the limit on the waiting time.\<close>

definition lease_params :: "http_req \<Rightarrow> leaseReq \<Rightarrow> leaseReq" where
  "lease_params rq req =
    (let v = rq_query rq ''max''; w = rq_query rq ''wait_ms'';
         r1 = (if v \<noteq> [] then req\<lparr>lr_Max := ParseInt v\<rparr> else req);
         r2 = (if w \<noteq> [] then r1\<lparr>lr_WaitMs := ParseInt w\<rparr> else r1)
     in if 30000 < lr_WaitMs r2 then r2\<lparr>lr_WaitMs := 30000\<rparr> else r2)"

definition api_lease :: "api_env \<Rightarrow> http_req \<Rightarrow> Queue \<Rightarrow> response \<times> Queue" where
  "api_lease env rq q =
    (if rq_method rq \<noteq> ''POST'' then (reply 405 NoBody, q)
     else (case (if 0 < rq_contentLength rq then rq_lease rq else Some \<lparr>lr_Max = 0, lr_VisibilityMs = 0, lr_WaitMs = 0\<rparr>) of
             None \<Rightarrow> (reply 400 (ErrBody DecodeErr), q)
           | Some req0 \<Rightarrow>
               (let req = lease_params rq req0 in
                (case (if 0 < lr_WaitMs req
                       then LeaseWait (ae_io env) (ae_nonces env) (ae_now env) (ae_now2 env) (lr_Max req) (lr_VisibilityMs req) (ae_wake env) q
                       else q_Lease (ae_io env) (ae_nonces env) (ae_now env) (ae_now2 env) (lr_Max req) (lr_VisibilityMs req) q) of
                   (Inl e, q') \<Rightarrow> (q_fail e, q')
                 | (Inr ds, q') \<Rightarrow> (reply 200 (Deliveries ds), q')))))"

definition api_ack :: "api_env \<Rightarrow> http_req \<Rightarrow> Queue \<Rightarrow> response \<times> Queue" where
  "api_ack env rq q =
    (if rq_method rq \<noteq> ''POST'' then (reply 405 NoBody, q)
     else (case rq_ack rq of
             None \<Rightarrow> (reply 400 (ErrBody DecodeErr), q)
           | Some receipt \<Rightarrow>
               (case q_Ack (ae_io env) receipt q of
                  (Inl e, q') \<Rightarrow> (q_fail e, q')
                | (Inr _, q') \<Rightarrow> (reply 200 Acked_ok, q'))))"

definition api_nack :: "api_env \<Rightarrow> http_req \<Rightarrow> Queue \<Rightarrow> response \<times> Queue" where
  "api_nack env rq q =
    (if rq_method rq \<noteq> ''POST'' then (reply 405 NoBody, q)
     else (case rq_nack rq of
             None \<Rightarrow> (reply 400 (ErrBody DecodeErr), q)
           | Some (receipt, delayMs) \<Rightarrow>
               (case q_Nack (ae_io env) (ae_now env) (ae_now2 env) receipt delayMs q of
                  (Inl e, q') \<Rightarrow> (q_fail e, q')
                | (Inr _, q') \<Rightarrow> (reply 200 Nacked_ok, q'))))"

definition dead_out :: "DeadMessage \<Rightarrow> deadOut" where
  "dead_out m = \<lparr>do_ID = dm_ID m, do_Body = dm_Payload m, do_Priority = dm_Priority m, do_Attempts = dm_Attempts m,
     do_EnqueuedAtMs = dm_EnqueuedAtMs m\<rparr>"

definition api_deadLetters :: "http_req \<Rightarrow> Queue \<Rightarrow> response \<times> Queue" where
  "api_deadLetters rq q =
    (if rq_method rq \<noteq> ''GET'' then (reply 405 NoBody, q)
     else (reply 200 (DeadList (map dead_out (DeadLetters (ParseInt (rq_query rq ''limit'')) q))), q))"

definition api_replay :: "api_env \<Rightarrow> http_req \<Rightarrow> Queue \<Rightarrow> response \<times> Queue" where
  "api_replay env rq q =
    (if rq_method rq \<noteq> ''POST'' then (reply 405 NoBody, q)
     else (case (if 0 < rq_contentLength rq then rq_replay rq else Some ([], 0)) of
             None \<Rightarrow> (reply 400 (ErrBody DecodeErr), q)
           | Some (ids, delayMs) \<Rightarrow>
               (case q_Replay (ae_io env) (ae_release env) (ae_now env) (ae_now2 env) ids delayMs q of
                  (Inl e, q') \<Rightarrow> (q_fail e, q')
                | (Inr new, q') \<Rightarrow> (reply 200 (Ids new), q'))))"

definition api_checkpoint :: "api_env \<Rightarrow> Queue \<Rightarrow> response \<times> Queue" where
  "api_checkpoint env q =
    (case q_Checkpoint (ae_index env) (ae_rm env) q of
       (False, q') \<Rightarrow> (fail IOErr, q')
     | (True, q') \<Rightarrow> (reply 200 (StatsBody (q_Stats q')), q'))"

definition queue_info :: "string \<Rightarrow> Queue \<Rightarrow> queueInfo" where
  "queue_info name q = \<lparr>qn_Name = name, qn_Config = q_cfg q, qn_Stats = q_Stats q\<rparr>"

definition queue_action :: "api_env \<Rightarrow> http_req \<Rightarrow> string \<Rightarrow> string \<Rightarrow> Queue \<Rightarrow> response \<times> Queue" where
  "queue_action env rq name action q =
    (if action = [] then (reply 200 (Info (queue_info name q)), q)
     else if action = ''messages'' then api_enqueue env rq q
     else if action = ''lease'' then api_lease env rq q
     else if action = ''ack'' then api_ack env rq q
     else if action = ''nack'' then api_nack env rq q
     else if action = ''dead'' then api_deadLetters rq q
     else if action = ''replay'' then api_replay env rq q
     else if action = ''checkpoint'' then api_checkpoint env q
     else if action = ''stats'' then (reply 200 (StatsBody (q_Stats q)), q)
     else (reply 404 (ErrBody (Message (''unknown action '' @ action))), q))"

section \<open>Routing\<close>

definition queues_path :: string where
  "queues_path = ''/v1/queues/''"

text \<open>\<open>SplitN(rest, "/", 2)\<close> as the name and the action.\<close>

definition split_path :: "string \<Rightarrow> string \<times> string" where
  "split_path rest = (takeWhile (\<lambda>c. c \<noteq> CHR ''/'') rest, drop 1 (dropWhile (\<lambda>c. c \<noteq> CHR ''/'') rest))"

definition queueOp :: "api_env \<Rightarrow> http_req \<Rightarrow> Broker \<Rightarrow> response \<times> Broker" where
  "queueOp env rq b =
    (let (name, action) = split_path (drop (length queues_path) (rq_path rq)) in
     if name = [] then (reply 400 (ErrBody (Message ''missing queue name'')), b)
     else if action = [] \<and> rq_method rq = ''DELETE'' then
       (case Delete (ae_close env) (ae_rmAll env) name b of
          (Inl e, b') \<Rightarrow> (fail e, b')
        | (Inr _, b') \<Rightarrow> (reply 204 NoBody, b'))
     else (case on_queue name (queue_action env rq name action) b of
             (Inl e, b') \<Rightarrow> (fail e, b')
           | (Inr r, b') \<Rightarrow> (r, b')))"

definition valid_name :: "string \<Rightarrow> bool" where
  "valid_name n \<longleftrightarrow> TrimSpace n \<noteq> [] \<and> set n \<inter> {CHR ''/'', CHR 0x5C, CHR ''.''} = {}"

definition create_config :: "createReq \<Rightarrow> Order \<Rightarrow> Config" where
  "create_config req order =
    \<lparr>cfg_Name = cr_Name req, cfg_Order = order, cfg_MaxAttempts = cr_MaxAttempts req, cfg_VisibilityMs = cr_VisibilityMs req,
     cfg_MaxDelayMs = cr_MaxDelayMs req, cfg_AgeBoostMs = cr_AgeBoostMs req, cfg_MaxDepth = cr_MaxDepth req,
     cfg_DurableLeases = cr_DurableLeases req\<rparr>"

definition api_queues :: "api_env \<Rightarrow> http_req \<Rightarrow> Broker \<Rightarrow> response \<times> Broker" where
  "api_queues env rq b =
    (if rq_method rq = ''GET'' then
       (reply 200 (InfoList (concat (map (\<lambda>n. case Get n b of Inl _ \<Rightarrow> [] | Inr q \<Rightarrow> [queue_info n q]) (Names b)))), b)
     else if rq_method rq = ''POST'' then
       (case rq_create rq of
          None \<Rightarrow> (reply 400 (ErrBody DecodeErr), b)
        | Some req \<Rightarrow>
            (case ParseOrder (cr_Order req) of
               Inl s \<Rightarrow> (reply 400 (ErrBody (OrderErr s)), b)
             | Inr order \<Rightarrow>
                 (if \<not> valid_name (cr_Name req) then (reply 400 (ErrBody (Message ''invalid queue name'')), b)
                  else (case Create (ae_create env) (create_config req order) b of
                          (Inl (QueueErr Panic), b') \<Rightarrow> (reply 0 Aborted, b')
                        | (Inl e, b') \<Rightarrow> (reply 409 (ErrBody (BrokerErr e)), b')
                        | (Inr q, b') \<Rightarrow> (reply 201 (Info (queue_info (cfg_Name (q_cfg q)) q)), b')))))
     else (reply 405 NoBody, b))"

text \<open>The routes; the path is the cleaned path that the multiplexer passes on.\<close>

definition ServeHTTP :: "api_env \<Rightarrow> http_req \<Rightarrow> Broker \<Rightarrow> response \<times> Broker" where
  "ServeHTTP env rq b =
    (if rq_path rq = ''/v1/queues'' then api_queues env rq b
     else if take (length queues_path) (rq_path rq) = queues_path then queueOp env rq b
     else if rq_path rq = ''/v1/stats'' then (reply 200 (StoreStats (store_Stats (b_pages b))), b)
     else (ae_static env, b))"

end
