(* ===== verification/Queue_Progress.thy ===== *)
theory Queue_Progress
  imports Queue_Run
begin

text \<open>
  Progress: when the system calls succeed, the store can allocate, the log can append, and the handlers
  return success.
\<close>

section \<open>Allocation\<close>

lemma create_file_succeeds:
  assumes "store_inv s"
  shows "\<exists>s2. create_file pio_ok (st_nextID s) e (s\<lparr>st_nextID := m\<rparr>) = (True, s2)"
proof -
  have "map_of (st_files s) (st_nextID s) = None"
    using store_invD(4) [OF assms, of "st_nextID s"] by (cases "map_of (st_files s) (st_nextID s)") auto
  then show ?thesis by (simp add: create_file_def pio_ok_def)
qed

lemma newSlabPage_succeeds:
  assumes "store_inv s"
  shows "\<exists>x s1. newSlabPage pio_ok c s = (Inr x, s1)"
  using create_file_succeeds [OF assms, of "appendPageCreate (st_nextID s) (word_of_nat c) 1 0" "st_nextID s + 1"]
  by (auto simp: newSlabPage_def Let_def split: prod.split)

lemma alloc_fresh_succeeds:
  assumes "store_inv s"
  shows "\<exists>x s1. alloc_fresh pio_ok c s = (Inr x, s1)"
  using newSlabPage_succeeds [OF assms, of c] by (auto simp: alloc_fresh_def slot_result_def Let_def split: prod.split)

lemma Alloc_succeeds:
  assumes inv: "store_inv s" and n: "n \<noteq> 0"
  shows "\<exists>x s1. Alloc pio_ok n s = (Inr x, s1)"
proof (cases "JumboThreshold < n")
  case True
  then show ?thesis
    using n create_file_succeeds [OF inv, of "appendPageCreate (st_nextID s) 0xFFFF (ucast (SpanPagesFor n)) 0" "st_nextID s + 1"]
    by (auto simp: Alloc_def newJumboPage_def Let_def split: prod.split)
next
  case False
  let ?c = "nat (SizeClassFor n)" and ?s0 = "s\<lparr>st_active := (st_active s)[nat (SizeClassFor n) := 0]\<rparr>"
  have "?c < 14" using SizeClassFor_bound [of n] False by simp
  then have i0: "store_inv ?s0" by (rule store_inv_active [OF inv]) simp
  show ?thesis
    using n False alloc_fresh_succeeds [OF inv, of ?c] alloc_fresh_succeeds [OF i0, of ?c]
    by (auto simp: Alloc_def allocSlab_def slot_result_def Let_def split: option.split prod.split)
qed

lemma payload_size_nonzero: "small r \<Longrightarrow> payload_size r \<noteq> 0"
  by (simp add: payload_size_def Let_def)

lemma alloc_payloads_succeeds:
  assumes "heap_inv F pr p" "room (n + length rs) p" "\<forall>r \<in> set rs. small r"
  shows "\<exists>its p'. alloc_payloads (\<lambda>_. pio_ok) now i rs p = (None, its, p')"
  using assms
proof (induction rs arbitrary: i p F)
  case (Cons r rs)
  have sm: "small r" and rm: "room (Suc (n + length rs)) p" using Cons.prems by simp_all
  obtain ref lo hi p1 where a: "Alloc pio_ok (payload_size r) p = (Inr (ref, lo, hi), p1)"
    using Alloc_succeeds [OF heap_invD(1) [OF Cons.prems(1)] payload_size_nonzero [OF sm]] by (metis prod_cases3)
  define p2 where "p2 = (if er_Payload r \<noteq> [] then store_copy (PageID ref) (nat lo) (take (nat (hi - lo)) (er_Payload r)) p1 else p1)"
  note one = alloc_one [OF Cons.prems(1) rm sm a, folded p2_def]
  obtain its p' where "alloc_payloads (\<lambda>_. pio_ok) now (Suc i) rs p2 = (None, its, p')"
    using Cons.IH [OF heap_grows(1) [OF Cons.prems(1) one(1)] one(2), of "Suc i"] Cons.prems(3) by auto
  then show ?case using a by (simp add: p2_def Let_def)
qed simp

lemma assign_ids_succeeds:
  assumes "heap_inv F pr p" "room (n + length its) p"
  shows "\<exists>its' m' p'. assign_ids (\<lambda>_. pio_ok) i its m p = (None, its', m', p')"
  using assms
proof (induction its arbitrary: i m p F)
  case (Cons it its)
  have rm: "room (Suc (n + length its)) p" using Cons.prems by simp
  have "SizeClasses ! 0 \<noteq> 0" by (simp add: SizeClasses_def)
  then obtain ref p1 where a: "AllocSlot pio_ok p = (Inr ref, p1)"
    using Alloc_succeeds [OF heap_invD(1) [OF Cons.prems(1)]] by (fastforce simp: AllocSlot_def split: prod.splits)
  note g = AllocSlot_grows [OF Cons.prems(1) rm a]
  have "grows p ref p1" using g(1) by simp
  then obtain its' m' p' where "assign_ids (\<lambda>_. pio_ok) (Suc i) its (m + 1) p1 = (None, its', m', p')"
    using Cons.IH [OF heap_grows(1) [OF Cons.prems(1)] g(2)] by blast
  then show ?case using a by (simp add: Let_def)
qed simp

text \<open>Page ids are used up one per new page.\<close>

lemma store_copy_nextID [simp]: "st_nextID (store_copy k off bs s) = st_nextID s"
  by (simp add: store_copy_def split: option.split)

lemma add_Suc_nat: "(m :: 'a :: len word) + 1 + word_of_nat k = m + word_of_nat (Suc k)"
  by (simp add: ac_simps)

lemma alloc_payloads_nextID:
  "alloc_payloads io now i rs p = (err, its, p') \<Longrightarrow> \<exists>k \<le> length rs. st_nextID p' = st_nextID p + word_of_nat k"
proof (induction rs arbitrary: i p err its p')
  case (Cons r rs)
  obtain a p1 where a: "Alloc (io i) (payload_size r) p = (a, p1)" by force
  consider "st_nextID p1 = st_nextID p" | "st_nextID p1 = st_nextID p + 1" using Alloc_nextID [OF a] by blast
  note n = this
  show ?case
  proof (cases a)
    case (Inl e)
    then have "p' = p1" using Cons.prems a by simp
    then show ?thesis using n by (cases rule: n) (auto intro: exI [of _ 0] exI [of _ 1])
  next
    case (Inr b)
    obtain ref lo hi where b: "b = (ref, lo, hi)" by (metis prod_cases3)
    obtain p2 err1 its1 where rest: "alloc_payloads io now (Suc i) rs p2 = (err1, its1, p')" and p2: "st_nextID p2 = st_nextID p1"
      using Cons.prems a Inr b by (fastforce simp: Let_def split: prod.splits if_splits)
    obtain k where k: "k \<le> length rs" "st_nextID p' = st_nextID p1 + word_of_nat k" using Cons.IH [OF rest] p2 by auto
    show ?thesis using n k add_Suc_nat [of "st_nextID p" k] by (cases rule: n) (auto intro: exI [of _ k] exI [of _ "Suc k"])
  qed
qed simp

lemma assign_ids_nextID:
  "assign_ids io i its m p = (err, its', m', p') \<Longrightarrow> \<exists>k \<le> length its. st_nextID p' = st_nextID p + word_of_nat k"
proof (induction its arbitrary: i m p err its' m' p')
  case (Cons it its)
  obtain a p1 where a: "AllocSlot (io i) p = (a, p1)" by force
  then obtain y where y: "Alloc (io i) (SizeClasses ! 0) p = (y, p1)" by (auto simp: AllocSlot_def split: prod.splits sum.splits)
  consider "st_nextID p1 = st_nextID p" | "st_nextID p1 = st_nextID p + 1" using Alloc_nextID [OF y] by blast
  note n = this
  show ?case
  proof (cases a)
    case (Inl e)
    then have "p' = p1" using Cons.prems a by (simp add: Let_def)
    then show ?thesis using n by (cases rule: n) (auto intro: exI [of _ 0] exI [of _ 1])
  next
    case (Inr b)
    obtain err1 its1 m1 where rest: "assign_ids io (Suc i) its (m + 1) p1 = (err1, its1, m1, p')"
      using Cons.prems a Inr by (auto simp: Let_def split: prod.splits)
    obtain k where k: "k \<le> length its" "st_nextID p' = st_nextID p1 + word_of_nat k" using Cons.IH [OF rest] by auto
    show ?thesis using n k add_Suc_nat [of "st_nextID p" k] by (cases rule: n) (auto intro: exI [of _ k] exI [of _ "Suc k"])
  qed
qed simp

section \<open>Commit\<close>

text \<open>The log is open and its active segment holds at most \<open>b\<close> bytes, below the rotation threshold.\<close>

definition wal_ready :: "int \<Rightarrow> WAL \<Rightarrow> bool" where
  "wal_ready b w \<longleftrightarrow> \<not> w_closed w \<and> w_segOpen w \<and> w_segSize w \<le> b \<and> b < segSizeThreshold"

lemma encs_length: "list_all encodable rs \<Longrightarrow> length (encs rs) \<le> 65 * length rs"
  by (induction rs) (auto dest: enc_total(2))

lemma encodable_LSN [simp]: "encodable (rc\<lparr>rec_LSN := l\<rparr>) = encodable rc"
  by (simp add: encodable_def)

lemma encodable_number [simp]: "list_all encodable (number l rs) = list_all encodable rs"
  by (induction rs arbitrary: l) auto

lemma AppendBatch_succeeds:
  assumes w: "wal_ready b w" and r: "list_all encodable recs"
  shows "\<exists>l w'. AppendBatch io_ok w recs = (Inr l, w') \<and> \<not> w_closed w' \<and> w_segOpen w' \<and>
    w_segSize w' \<le> b + 65 * int (length recs)"
proof (cases "recs = []")
  case True
  then show ?thesis using w by (simp add: AppendBatch_def wal_ready_def)
next
  case False
  obtain l bs where e: "encode_all (w_lsn w) recs = (l, Inr bs)" using encode_all_encodable [OF r] by blast
  have len: "int (length bs) \<le> 65 * int (length recs)"
    using encode_all_correct [OF e] encs_length [of "number (w_lsn w) recs"] r by simp
  show ?thesis
    using False e w len by (auto simp: AppendBatch_def append_encode_def flush_def maybeRotate_def wal_ready_def io_ok_def Let_def)
qed

text \<open>Batches of \<open>n\<close> records can be appended, and leave the log as \<open>Q\<close> says.\<close>

definition appends :: "(WAL \<Rightarrow> bool) \<Rightarrow> nat \<Rightarrow> WAL \<Rightarrow> bool" where
  "appends Q n w \<longleftrightarrow> (\<forall>recs. list_all encodable recs \<longrightarrow> length recs = n \<longrightarrow> (\<exists>l w'. AppendBatch io_ok w recs = (Inr l, w') \<and> Q w'))"

lemma ready_appends: "wal_ready b w \<Longrightarrow> appends (\<lambda>w'. \<not> w_closed w' \<and> w_segOpen w' \<and> w_segSize w' \<le> b + 65 * int n) n w"
  unfolding appends_def using AppendBatch_succeeds by blast

lemma usable_appends: "wal_usable n w \<Longrightarrow> appends (\<lambda>_. True) n w"
  unfolding appends_def using AppendBatch_usable encode_all_encodable by metis

definition cio_ok :: commit_io where
  "cio_ok = \<lparr>ci_fsync = (\<lambda>_. True), ci_wal = io_ok\<rparr>"

definition qio_ok :: queue_io where
  "qio_ok = \<lparr>qi_payload = (\<lambda>_. pio_ok), qi_index = (\<lambda>_. pio_ok), qi_release = (\<lambda>_. pio_ok), qi_commit = (\<lambda>_. cio_ok)\<rparr>"

lemma sync_loop_succeeds: "sync_loop (\<lambda>_. True) seen refs s"
  by (induction refs arbitrary: seen) (auto simp: Let_def split: option.split)

lemma submitCommit_succeeds:
  assumes w: "appends Q (length recs) (q_wal q)" "\<not> q_stopped q" and r: "list_all encodable recs"
  shows "\<exists>res q'. submitCommit cio_ok refs recs q = (res, q') \<and> cr_err res = None \<and> Q (q_wal q')"
proof -
  obtain l w' where a: "AppendBatch io_ok (q_wal q) recs = (Inr l, w')" "Q w'" using w(1) r unfolding appends_def by blast
  show ?thesis
    using a w(2) sync_loop_succeeds by (auto simp: submitCommit_def commit_flush_def cio_ok_def store_Sync_def Let_def)
qed

section \<open>Handlers\<close>

lemma apply_items_wal:
  "q_wal (apply_items now now2 reqs its q) = q_wal q" "q_stopped (apply_items now now2 reqs its q) = q_stopped q"
  "q_cfg (apply_items now now2 reqs its q) = q_cfg q" "q_pages (apply_items now now2 reqs its q) = q_pages q"
  "q_nextMsgID (apply_items now now2 reqs its q) = q_nextMsgID q"
  by (induction now now2 reqs its q rule: apply_items.induct) (simp_all add: apply_item_def Let_def)

lemma enqueue_encodable: "list_all encodable (map2 (enqueue_rec now) reqs its)"
  by (auto simp: list_all_iff enqueue_rec_def encodable_def)

lemma Enqueue_succeeds:
  assumes i: "q_inv F q" and n: "enough reqs q" and w: "appends Q (length reqs) (q_wal q)" "\<not> q_stopped q"
    and d: "\<forall>r \<in> set reqs. sint (er_DelayMs r) \<le> sint (maxDelayMs (q_cfg q))" "\<not> over_depth (length reqs) q"
  shows "\<exists>ids q'. q_Enqueue qio_ok now now2 reqs q = (Inr ids, q') \<and> Q (q_wal q') \<and> q_stopped q' = q_stopped q \<and> q_cfg q' = q_cfg q \<and>
    q_nextMsgID q' = q_nextMsgID q + word_of_nat (length reqs) \<and>
    (\<exists>j \<le> length reqs. \<exists>k \<le> length reqs. st_nextID (q_pages q') = st_nextID (q_pages q) + word_of_nat j + word_of_nat k)"
proof (cases "reqs = []")
  case True
  then show ?thesis using w by (simp add: q_Enqueue_def appends_def AppendBatch_def)
next
  case False
  let ?q = "q\<lparr>q_reserved := q_reserved q + int (length reqs)\<rparr>"
  have rm: "room (length reqs + length reqs) (q_pages q)" "\<forall>r \<in> set reqs. small r" using n by (simp_all add: enough_def mult_2)
  obtain its p where al: "alloc_payloads (\<lambda>_. pio_ok) now 0 reqs (q_pages q) = (None, its, p)"
    using alloc_payloads_succeeds [OF q_invD(2) [OF i] rm] by blast
  note a = alloc_payloads_spec [OF q_invD(2) [OF i] rm al]
  have len: "length its = length reqs" using a by (auto dest: list_all2_lengthD)
  have h: "heap_inv (F \<union> set (map it_ref its)) (prefs (q_slots q)) p" "room (0 + length its) p" using a len by simp_all
  obtain its' nid p' where as: "assign_ids (\<lambda>_. pio_ok) 0 its (q_nextMsgID q) p = (None, its', nid, p')"
    using assign_ids_succeeds [OF h] by blast
  let ?q2 = "?q\<lparr>q_pages := p', q_nextMsgID := nid\<rparr>"
  have len': "length its' = length reqs" using assign_ids_spec [OF h as] len by (auto dest: list_all2_lengthD)
  have w2: "appends Q (length (map2 (enqueue_rec now) reqs its')) (q_wal ?q2)" "\<not> q_stopped ?q2" using w len' by simp_all
  obtain res q3 where c: "submitCommit cio_ok (map it_ref its') (map2 (enqueue_rec now) reqs its') ?q2 = (res, q3)" "cr_err res = None" "Q (q_wal q3)"
    using submitCommit_succeeds [OF w2 enqueue_encodable [of now reqs its'], of "map it_ref its'"] by blast
  have f: "find (\<lambda>r. sint (maxDelayMs (q_cfg q)) < sint (er_DelayMs r)) reqs = None"
    using d(1) by (auto simp: find_None_iff)
  let ?q4 = "apply_items now now2 reqs its' q3"
  let ?q5 = "finish res (?q4\<lparr>q_reserved := q_reserved ?q4 - int (length reqs)\<rparr>)"
  let ?q6 = "notify (?q5\<lparr>q_statEnqueued := q_statEnqueued ?q5 + word_of_nat (length reqs)\<rparr>)"
  have e: "q_Enqueue qio_ok now now2 reqs q = (Inr (map it_msgID its'), ?q6)"
    using False f d(2) al as c(1,2)
    by (simp add: q_Enqueue_def enqueue_reserved_def enqueue_commit_def qio_ok_def Let_def)
  have st: "q_stopped q3 = q_stopped ?q2" "q_cfg q3 = q_cfg ?q2" "q_pages q3 = p'" "q_nextMsgID q3 = nid"
    using submitCommit_same(11,1,8,9) [OF c(1)] by simp_all
  have nid: "nid = q_nextMsgID q + word_of_nat (length reqs)" using assign_ids_spec [OF h as] len by simp
  have pg: "\<exists>j \<le> length reqs. \<exists>k \<le> length reqs. st_nextID p' = st_nextID (q_pages q) + word_of_nat j + word_of_nat k"
    using alloc_payloads_nextID [OF al] assign_ids_nextID [OF as] len by metis
  show ?thesis using e c(3) st nid pg by (simp add: apply_items_wal)
qed

lemma settles_succeeds:
  assumes s: "settles cio_ok receipt rc upd q res q'" and w: "wal_ready b (q_wal q)" "\<not> q_stopped q"
    and r: "current (messages q) receipt = Some (m, nonce)" "encodable (rc m nonce)"
  shows "res = Inr () \<and> messages q' = upd m (messages q) \<and> \<not> w_closed (q_wal q') \<and> w_segOpen (q_wal q') \<and> w_segSize (q_wal q') \<le> b + 65"
proof -
  obtain cr qc where c: "submitCommit cio_ok [] [rc m nonce] q = (cr, qc)" "cr_err cr = None" "\<not> w_closed (q_wal qc)" "w_segOpen (q_wal qc)"
    "w_segSize (q_wal qc) \<le> b + 65 * int (length [rc m nonce])"
    using submitCommit_succeeds [OF ready_appends [OF w(1)] w(2), of "[rc m nonce]" "[]"] r(2) by auto
  then show ?thesis using s r(1) by (simp add: settles_def)
qed

end
