(* ===== verification/Queue_Stats.thy ===== *)
theory Queue_Stats
  imports Queue_Progress
begin

text \<open>
  The counters that a queue reports and the depth limit it enforces, in terms of its messages.
\<close>

abbreviation waiting :: "status \<Rightarrow> bool" where "waiting st \<equiv> st = Waiting"
abbreviation later :: "status \<Rightarrow> bool" where "later st \<equiv> \<exists>t. st = Later t"
abbreviation on_lease :: "status \<Rightarrow> bool" where "on_lease st \<equiv> \<exists>n u. st = Leased n u"
abbreviation is_dead :: "status \<Rightarrow> bool" where "is_dead st \<equiv> st = Dead"

lemma card_status:
  assumes i: "q_inv F q" and st: "\<And>r s. q_slots q r = Some s \<Longrightarrow> s_State s = st \<longleftrightarrow> Q (status_of s)"
  shows "card {r. \<exists>s. q_slots q r = Some s \<and> s_State s = st} = card (with_status Q (messages q))"
proof -
  have "{m. \<exists>r s. q_slots q r = Some s \<and> s_MsgID s = m \<and> s_State s = st} = with_status Q (messages q)"
    unfolding with_status_slots [OF i] using st by blast
  then show ?thesis using card_ids [OF i, of "\<lambda>s. s_State s = st"] by simp
qed

lemma delayed_count:
  assumes i: "q_inv F q"
  shows "length (q_delayed q) = card (with_status later (messages q))"
proof -
  have "length (q_delayed q) = size (mset (q_delayed q) + {#})" by simp
  also have "\<dots> = card {r. \<exists>s. q_slots q r = Some s \<and> s_State s = StateDelayed}"
    by (rule dt.size_card [OF core_invD(4) [OF q_invD(1) [OF i]]])
  also have "\<dots> = card (with_status later (messages q))" by (rule card_status [OF i state_status(2) [OF i]])
  finally show ?thesis .
qed

lemma dead_count:
  assumes i: "q_inv F q"
  shows "length (q_dead q) = card (with_status is_dead (messages q))"
proof -
  have "length (q_dead q) = size (dead_view q + {#})" by (simp add: dead_view_def)
  also have "\<dots> = card {r. \<exists>s. q_slots q r = Some s \<and> s_State s = StateDead}"
    by (rule xt.size_card [OF core_invD(6) [OF q_invD(1) [OF i]]])
  also have "\<dots> = card (with_status is_dead (messages q))" by (rule card_status [OF i state_status(4) [OF i]])
  finally show ?thesis .
qed

lemma lease_count:
  assumes i: "q_inv F q"
  shows "length (q_receipts q) = card (with_status on_lease (messages q))"
proof -
  note q = q_invD [OF i]
  have "distinct (map fst (q_receipts q))" using core_invD(1) [OF q(1)] by (simp add: shape_inv_def)
  then have "length (q_receipts q) = card (set (map fst (q_receipts q)))" by (metis distinct_card length_map)
  also have "set (map fst (q_receipts q)) = dom (map_of (q_receipts q))" by (simp add: dom_map_of_conv_image_fst)
  also have "\<dots> = with_status on_lease (messages q)"
  proof (intro set_eqI)
    fix m
    have "m \<in> dom (map_of (q_receipts q)) \<longleftrightarrow> (\<exists>r s. q_slots q r = Some s \<and> s_MsgID s = m \<and> s_State s = StateInflight)"
      unfolding domIff not_None_eq receipts_okD [OF core_invD(7) [OF q(1)]] by blast
    then show "m \<in> dom (map_of (q_receipts q)) \<longleftrightarrow> m \<in> with_status on_lease (messages q)"
      unfolding with_status_slots [OF i] using state_status(3) [OF i] by blast
  qed
  finally show ?thesis .
qed

lemma stats_spec:
  assumes "q_inv F q"
  shows "sta_Ready (q_Stats q) = card (with_status waiting (messages q)) \<and>
    sta_Delayed (q_Stats q) = card (with_status later (messages q)) \<and>
    sta_Inflight (q_Stats q) = card (with_status on_lease (messages q)) \<and>
    sta_Dead (q_Stats q) = card (with_status is_dead (messages q))"
  using ready_count [OF assms] delayed_count [OF assms] lease_count [OF assms] dead_count [OF assms] by (simp add: q_Stats_def)

section \<open>The depth limit\<close>

abbreviation pending_msgs :: "(u64 \<rightharpoonup> amsg) \<Rightarrow> u64 set" where
  "pending_msgs M \<equiv> with_status (\<lambda>st. st = Waiting \<or> (\<exists>t. st = Later t)) M"

lemma pending_count:
  assumes i: "q_inv F q"
  shows "card (pending_msgs (messages q)) = rh_Len (q_ready q) + length (q_delayed q)"
proof -
  have "pending_msgs (messages q) = with_status waiting (messages q) \<union> with_status later (messages q)"
    by (auto simp: with_status_def)
  moreover have "with_status waiting (messages q) \<inter> with_status later (messages q) = {}" by (auto simp: with_status_def)
  ultimately show ?thesis using ready_count [OF i] delayed_count [OF i] by (simp add: card_Un_disjoint)
qed

lemma pending_enqueued: "pending_msgs (M ++ map_of (zip ids xs)) \<subseteq> pending_msgs M \<union> set ids"
  by (auto simp: with_status_def map_add_Some_iff dest!: map_of_SomeD set_zip_leftD)

lemma depth_spec:
  assumes i: "q_inv F q" and n: "enough reqs q" and e: "q_Enqueue io now now2 reqs q = (Inr ids, q')"
    and d: "reqs \<noteq> []" "0 < cfg_MaxDepth (q_cfg q)" "0 \<le> q_reserved q"
  shows "int (card (pending_msgs (messages q'))) \<le> cfg_MaxDepth (q_cfg q)"
proof -
  have m: "messages q' = messages q ++ map_of (zip ids (map (new_msg now) reqs))" "length ids = length reqs"
    using Enqueue_spec [OF i n e] by (simp_all add: enqueued_def)
  have "\<not> over_depth (length reqs) q" using e d(1) by (auto simp: q_Enqueue_def Let_def split: option.splits)
  then have o: "int (rh_Len (q_ready q)) + int (length (q_delayed q)) + q_reserved q + int (length reqs) \<le> cfg_MaxDepth (q_cfg q)"
    using d(2) by (simp add: over_depth_def)
  have "card (pending_msgs (messages q')) \<le> card (pending_msgs (messages q) \<union> set ids)"
    unfolding m(1) by (rule card_mono [OF _ pending_enqueued]) simp
  also have "\<dots> \<le> card (pending_msgs (messages q)) + card (set ids)" by (rule card_Un_le)
  also have "\<dots> \<le> card (pending_msgs (messages q)) + length reqs" using card_length [of ids] m(2) by simp
  finally show ?thesis using o d(3) pending_count [OF i] by simp
qed

end
