(* ===== verification/Queue_Props.thy ===== *)
theory Queue_Props
  imports Queue_Stats Queue_Frame Store_Recovery
begin

text \<open>
  The properties of the queue handlers, with witnesses on a sample queue: it is opened empty, one message
  is enqueued, leased, and then dead-lettered by a Nack.
\<close>

section \<open>Sample queues\<close>

definition sample_cfg :: Config where
  "sample_cfg = \<lparr>cfg_Name = ''jobs'', cfg_Order = FIFO, cfg_MaxAttempts = 1, cfg_VisibilityMs = 1000, cfg_MaxDelayMs = 0,
     cfg_AgeBoostMs = 0, cfg_MaxDepth = 5, cfg_DurableLeases = False\<rparr>"

definition sample_q0 :: Queue where
  "sample_q0 = new_queue 1000 sample_cfg (wal_Open []) empty_index (empty_store [])"

definition sample_req :: EnqueueRequest where
  "sample_req = \<lparr>er_Payload = [104, 105], er_Priority = 7, er_DelayMs = 0\<rparr>"

definition sample_q1 :: Queue where
  "sample_q1 = snd (q_Enqueue qio_ok 1000 1001 [sample_req] sample_q0)"

definition sample_q2 :: Queue where
  "sample_q2 = snd (q_Lease qio_ok (\<lambda>_. 77) 2000 2001 1 0 sample_q1)"

definition sample_receipt :: string where
  "sample_receipt = encodeReceipt 1 1 77"

definition sample_q3 :: Queue where
  "sample_q3 = snd (q_Nack qio_ok 2500 2501 sample_receipt 0 sample_q2)"

definition sample_msg :: amsg where
  "sample_msg = \<lparr>am_payload = [104, 105], am_priority = 7, am_attempts = 0, am_enqueuedAt = 1000, am_status = Waiting\<rparr>"

lemma sample_q0_facts:
  "q_inv {} sample_q0" "messages sample_q0 = (\<lambda>m. None)" "wal_ready 0 (q_wal sample_q0)" "\<not> q_stopped sample_q0"
  "q_nextMsgID sample_q0 = 0" "q_cfg sample_q0 = sample_cfg" "enough [sample_req] sample_q0" "q_reserved sample_q0 = 0"
  using new_queue_inv [OF empty_store_inv(1), of "[]" 1000 sample_cfg "wal_Open []"] empty_store_inv(2) [of "[]"]
  by (simp_all add: sample_q0_def wal_ready_def new_queue_def wal_Open_def openNewSegment_def segSizeThreshold_def Let_def
      enough_def room_def empty_store_def small_def sample_req_def)

lemma sample_new: "new_msg 1000 sample_req = sample_msg"
  by (simp add: new_msg_def sample_req_def sample_msg_def avail_at_def)

lemma sample_enqueue:
  "q_Enqueue qio_ok 1000 1001 [sample_req] sample_q0 = (Inr [1], sample_q1)"
  "q_inv {} sample_q1" "messages sample_q1 = [1 \<mapsto> sample_msg]" "wal_ready 65 (q_wal sample_q1)" "\<not> q_stopped sample_q1"
  "q_cfg sample_q1 = sample_cfg" "q_nextMsgID sample_q1 = 1" "unat (st_nextID (q_pages sample_q1)) \<le> 3"
proof -
  note s = sample_q0_facts
  have "sint (0 :: i64) \<le> sint (maxDelayMs sample_cfg)" by (simp add: maxDelayMs_def defaultMaxDelayMs_def sample_cfg_def)
  moreover have "\<not> over_depth 1 sample_q0"
    by (simp add: over_depth_def sample_q0_def new_queue_def sample_cfg_def newReadyHeap_def rh_Len_def)
  ultimately obtain ids q' where e: "q_Enqueue qio_ok 1000 1001 [sample_req] sample_q0 = (Inr ids, q')"
    "\<not> w_closed (q_wal q')" "w_segOpen (q_wal q')" "w_segSize (q_wal q') \<le> 65" "\<not> q_stopped q'"
    "q_cfg q' = sample_cfg" "q_nextMsgID q' = 1"
    "\<exists>j \<le> 1. \<exists>k \<le> 1. st_nextID (q_pages q') = st_nextID (q_pages sample_q0) + word_of_nat j + word_of_nat k"
    using Enqueue_succeeds [OF s(1,7) ready_appends [OF s(3)] s(4), of 1000 1001] s(4-6) by (auto simp: sample_req_def)
  have q': "q' = sample_q1" using e(1) by (simp add: sample_q1_def)
  note sp = Enqueue_spec [OF s(1,7) e(1)]
  have ids: "ids = [1]" "messages q' = [1 \<mapsto> sample_msg]" using sp s(2,5) by (simp_all add: enqueued_def sample_new)
  show "q_Enqueue qio_ok 1000 1001 [sample_req] sample_q0 = (Inr [1], sample_q1)" using e(1) ids(1) q' by simp
  show "q_inv {} sample_q1" "messages sample_q1 = [1 \<mapsto> sample_msg]" using sp ids(2) q' by simp_all
  show "wal_ready 65 (q_wal sample_q1)" "\<not> q_stopped sample_q1" "q_cfg sample_q1 = sample_cfg" "q_nextMsgID sample_q1 = 1"
    using e q' by (simp_all add: wal_ready_def segSizeThreshold_def)
  obtain j k :: nat where jk: "j \<le> 1" "k \<le> 1" "st_nextID (q_pages q') = 1 + word_of_nat j + word_of_nat k"
    using e(8) by (auto simp: sample_q0_def new_queue_def empty_store_def)
  then have "j = 0 \<or> j = 1" "k = 0 \<or> k = 1" by linarith+
  then show "unat (st_nextID (q_pages sample_q1)) \<le> 3" using jk(3) unfolding q' by auto
qed

lemma sample_promoted: "promote_msgs now [1 \<mapsto> sample_msg] = [1 \<mapsto> sample_msg]"
  by (rule ext) (simp add: promote_msgs_def a_promote_def sample_msg_def)

lemma sample_choice:
  assumes "lease_choice 1 h [1 \<mapsto> sample_msg] ms"
  shows "ms = [1]"
proof -
  have "with_status (\<lambda>st. st = Waiting) [1 \<mapsto> sample_msg] = {1}" by (auto simp: with_status_def sample_msg_def)
  then have "length ms = 1" "set ms \<subseteq> {1}" using assms by (simp_all add: lease_choice_def)
  then show ?thesis by (cases ms) auto
qed

lemma Lease_fields:
  assumes "q_Lease io nonces now now2 mx vis q = (res, q')" "\<not> cfg_DurableLeases (q_cfg q)" "q_inv F q" "mx \<le> leaseCap"
  shows "q_wal q' = q_wal q" "q_stopped q' = q_stopped q" "q_cfg q' = q_cfg q" "q_pages q' = q_pages q" "q_nextMsgID q' = q_nextMsgID q"
proof -
  obtain ls q1 where l: "lease_loop nonces (lease_until now vis q) 0 (lease_max mx) (promoteLocked now q) = (ls, q1)" by force
  have "same_base (promoteLocked now q) q1"
    using lease_loop_spec [OF q_invD(1) [OF conjunct1 [OF promote_spec [OF assms(3)]]] l] by blast
  then have b: "q_wal q1 = q_wal q" "q_stopped q1 = q_stopped q" "q_cfg q1 = q_cfg q" "q_pages q1 = q_pages q"
    "q_nextMsgID q1 = q_nextMsgID q" by (simp_all add: same_base_def)
  have "q' = q1\<lparr>q_statDelivered := q_statDelivered q1 + word_of_nat (length ls)\<rparr>"
    using assms(1,2,4) l b(3) by (auto simp: q_Lease_def lease_until_def lease_max_def Let_def)
  then show "q_wal q' = q_wal q" "q_stopped q' = q_stopped q" "q_cfg q' = q_cfg q" "q_pages q' = q_pages q" "q_nextMsgID q' = q_nextMsgID q"
    using b by simp_all
qed

definition sample_leased :: amsg where
  "sample_leased = sample_msg\<lparr>am_attempts := 1, am_status := Leased 77 3000\<rparr>"

lemma sample_lease:
  "q_Lease qio_ok (\<lambda>_. 77) 2000 2001 1 0 sample_q1 =
    (Inr [\<lparr>d_ID = 1, d_Payload = [104, 105], d_Priority = 7, d_Attempt = 1, d_Receipt = sample_receipt, d_LeaseUntilMs = 3000\<rparr>], sample_q2)"
  "q_inv {} sample_q2" "messages sample_q2 = [1 \<mapsto> sample_leased]" "wal_ready 65 (q_wal sample_q2)" "\<not> q_stopped sample_q2"
  "q_cfg sample_q2 = sample_cfg" "current (messages sample_q2) sample_receipt = Some (1, 77)"
proof -
  note s = sample_enqueue(2-6)
  have dl: "\<not> cfg_DurableLeases (q_cfg sample_q1)" using s(5) by (simp add: sample_cfg_def)
  have mx: "\<not> leaseCap < 1" "1 \<le> leaseCap" by (simp_all add: leaseCap_def)
  obtain res where l: "q_Lease qio_ok (\<lambda>_. 77) 2000 2001 1 0 sample_q1 = (res, sample_q2)"
    unfolding sample_q2_def by (metis surjective_pairing)
  have until: "lease_until 2000 0 sample_q1 = 3000" using s(5) by (simp add: lease_until_def visibilityMs_def sample_cfg_def)
  obtain ms where ms: "lease_choice 1 (q_ready (promoteLocked 2000 sample_q1)) [1 \<mapsto> sample_msg] ms"
    "lease_result (\<lambda>_. 77) 3000 [1 \<mapsto> sample_msg] ms None res (messages sample_q2)" and i: "q_inv {} sample_q2"
    using Lease_spec [OF s(1) l mx(1)] dl unfolding s(2) sample_promoted until by (auto simp: lease_max_def lease_err_def)
  have m: "ms = [1]" by (rule sample_choice [OF ms(1)])
  have r: "res = Inr [delivery_of 3000 77 1 sample_msg]" and ml: "messages sample_q2 = [1 \<mapsto> lease_msg 3000 77 sample_msg]"
    using ms(2) unfolding m lease_result_def by simp_all
  show "q_Lease qio_ok (\<lambda>_. 77) 2000 2001 1 0 sample_q1 =
    (Inr [\<lparr>d_ID = 1, d_Payload = [104, 105], d_Priority = 7, d_Attempt = 1, d_Receipt = sample_receipt, d_LeaseUntilMs = 3000\<rparr>], sample_q2)"
    unfolding l r by (simp add: delivery_of_def sample_msg_def sample_receipt_def)
  show "q_inv {} sample_q2" by (rule i)
  show m2: "messages sample_q2 = [1 \<mapsto> sample_leased]" unfolding ml by (simp add: lease_msg_def sample_leased_def sample_msg_def)
  show "wal_ready 65 (q_wal sample_q2)" "\<not> q_stopped sample_q2" "q_cfg sample_q2 = sample_cfg"
    using Lease_fields [OF l dl s(1) mx(2)] s(3-5) by simp_all
  show "current (messages sample_q2) sample_receipt = Some (1, 77)"
    using decode_encode [of 1 1 77 "[]"] unfolding m2 by (simp add: current_def sample_receipt_def sample_leased_def)
qed

definition sample_dead :: amsg where
  "sample_dead = sample_msg\<lparr>am_attempts := 1, am_status := Dead\<rparr>"

lemma sample_nack:
  "q_Nack qio_ok 2500 2501 sample_receipt 0 sample_q2 = (Inr (), sample_q3)"
  "q_inv {} sample_q3" "messages sample_q3 = [1 \<mapsto> sample_dead]"
proof -
  note s = sample_lease(2-7)
  obtain res where n: "q_Nack qio_ok 2500 2501 sample_receipt 0 sample_q2 = (res, sample_q3)"
    unfolding sample_q3_def by (metis surjective_pairing)
  note sp = Nack_spec [OF s(1) n]
  have io: "qi_commit qio_ok 0 = cio_ok" by (simp add: qio_ok_def)
  have ex: "exhausted sample_cfg sample_leased" by (simp add: exhausted_def sample_cfg_def sample_leased_def)
  have en: "encodable (nack_record (q_cfg sample_q2) (nack_at 2500 0) (messages sample_q2) 1 77)"
    by (simp add: nack_record_def mk_rec_def encodable_def)
  have r: "res = Inr ()" "messages sample_q3 = nack_upd (q_cfg sample_q2) (nack_at 2500 0) 2501 1 (messages sample_q2)"
    using settles_succeeds [OF conjunct2 [OF sp, unfolded io] s(3,4,6) en] by blast+
  show "q_Nack qio_ok 2500 2501 sample_receipt 0 sample_q2 = (Inr (), sample_q3)" using n r(1) by simp
  show "q_inv {} sample_q3" using sp by blast
  show "messages sample_q3 = [1 \<mapsto> sample_dead]"
    unfolding r(2) s(2,5) by (simp add: nack_upd_def nacked_def ex) (simp add: sample_leased_def sample_dead_def)
qed

section \<open>Properties\<close>

text \<open>C1. No message is lost, duplicated or corrupted: along every sequence of handler calls (enqueue, lease,
  ack, nack, replay, tick, checkpoint), whatever system calls fail, the invariant of the queue is kept
  and the messages with their payloads are exactly those enqueued, less the acknowledged ones, with
  replayed dead letters under their new ids.  The invariant includes that every live slot of the page
  store belongs to exactly one message or to the owner set \<open>F\<close>, so nothing leaks.\<close>

theorem queue_run_conserves_messages:
  assumes "queue_run q0 evs q" and "q_inv F q0"
  shows "q_inv F q \<and> payloads q = foldl apply_event (payloads q0) evs"
  by (rule run_spec [OF assms])

theorem queue_run_conserves_messages_witness:
  "\<exists>evs. queue_run sample_q0 evs sample_q3 \<and> length evs = 3 \<and> q_inv {} sample_q3 \<and>
    foldl apply_event (payloads sample_q0) evs = [1 \<mapsto> [104, 105]]"
proof -
  let ?evs = "[Added [(1, er_Payload sample_req)], Quiet, Quiet]"
  have 1: "queue_run sample_q0 ([] @ [Added (zip [1] (map er_Payload [sample_req]))]) sample_q1"
    by (rule queue_run.step [OF queue_run.start queue_step.enqueue [OF sample_enqueue(1) sample_q0_facts(7)]])
  have 2: "queue_run sample_q0 (([] @ [Added (zip [1] (map er_Payload [sample_req]))]) @ [Quiet]) sample_q2"
    by (rule queue_run.step [OF 1 queue_step.lease [OF sample_lease(1)]])
  have 3: "queue_run sample_q0 ((([] @ [Added (zip [1] (map er_Payload [sample_req]))]) @ [Quiet]) @ [Quiet]) sample_q3"
    by (rule queue_run.step [OF 2 queue_step.nack [OF sample_nack(1)]])
  have "payloads sample_q3 = [1 \<mapsto> [104, 105]]"
    by (rule ext) (simp add: payloads_def sample_nack(3) sample_dead_def sample_msg_def)
  then have "foldl apply_event (payloads sample_q0) ?evs = [1 \<mapsto> [104, 105]]" "q_inv {} sample_q3"
    using queue_run_conserves_messages [OF 3 sample_q0_facts(1)] by simp_all
  moreover have "queue_run sample_q0 ?evs sample_q3" using 3 by simp
  moreover have "length ?evs = 3" by simp
  ultimately show ?thesis by blast
qed

text \<open>C4. \<open>Enqueue\<close> is atomic: either all messages of the request are added, with their payloads, under new
  consecutive ids that no message of the queue has, or an error is returned and the messages are
  unchanged; in both cases the invariant is kept, so a failed enqueue releases every slot it took.  The
  hypothesis \<open>enough\<close> excludes the wrap-around of the page and message counters and payloads near 4 GiB.\<close>

theorem enqueue_atomic:
  assumes "q_inv F q" and "enough reqs q" and "q_Enqueue io now now2 reqs q = (res, q')"
  shows "q_inv F q' \<and> enqueued now reqs (q_nextMsgID q) (messages q) res (messages q')"
  by (rule Enqueue_spec [OF assms])

theorem enqueue_atomic_witness:
  "q_Enqueue qio_ok 1000 1001 [sample_req] sample_q0 = (Inr [1], sample_q1) \<and> q_inv {} sample_q1 \<and>
   enqueued 1000 [sample_req] 0 (\<lambda>m. None) (Inr [1]) (messages sample_q1)"
  using enqueue_atomic [OF sample_q0_facts(1,7) sample_enqueue(1)] sample_enqueue(1) sample_q0_facts(2,5) by simp

text \<open>C5. \<open>Lease\<close> first makes due messages ready, then takes as many waiting messages as there are, up to the
  limit and in the order of the ready heap, and returns each with its payload, one more attempt and the
  receipt of its new lease, which the message then records.  If the leases are durable and cannot be
  committed, the error is returned and the messages wait again.  A limit above \<open>2 ^ 43\<close>, for which the
  runtime cannot make the slices, panics after the due messages became ready, and no lease is given.\<close>

theorem lease_refines:
  assumes "q_inv F q" and "q_Lease io nonces now now2 mx vis q = (res, q')"
  shows "q_inv F q' \<and>
    (if leaseCap < mx then res = Inl Panic \<and> messages q' = promote_msgs now (messages q)
     else \<exists>ms. lease_choice (lease_max mx) (q_ready (promoteLocked now q)) (promote_msgs now (messages q)) ms \<and>
       lease_result nonces (lease_until now vis q) (promote_msgs now (messages q)) ms
         (lease_err (qi_commit io 0) nonces (lease_until now vis q) (promote_msgs now (messages q)) ms q) res (messages q'))"
  using Lease_spec [OF assms] Lease_panic [OF assms] by simp

theorem lease_refines_witness:
  "q_Lease qio_ok (\<lambda>_. 77) 2000 2001 1 0 sample_q1 =
     (Inr [\<lparr>d_ID = 1, d_Payload = [104, 105], d_Priority = 7, d_Attempt = 1, d_Receipt = sample_receipt, d_LeaseUntilMs = 3000\<rparr>], sample_q2) \<and>
   q_inv {} sample_q2 \<and> messages sample_q2 = [1 \<mapsto> sample_leased]"
  using lease_refines [OF sample_enqueue(2) sample_lease(1)] sample_lease(1,3) by simp

text \<open>C6. \<open>Ack\<close>: a receipt that does not name the current lease of a message is rejected with
  \<open>ErrBadReceipt\<close> and nothing changes.  Otherwise the acknowledgement is logged, and exactly if the commit
  succeeds the message is deleted and its slots are released; if it fails the lease is as before.\<close>

theorem ack_refines:
  assumes "q_inv F q" and "q_Ack io receipt q = (res, q')"
  shows "q_inv F q' \<and> settles (qi_commit io 0) receipt ack_record (\<lambda>m M. M(m := None)) q res q'"
  by (rule Ack_spec [OF assms])

theorem ack_refines_witness:
  "\<exists>q'. q_Ack qio_ok sample_receipt sample_q2 = (Inr (), q') \<and> q_inv {} q' \<and> messages q' = (\<lambda>m. None)"
proof -
  obtain res q' where a: "q_Ack qio_ok sample_receipt sample_q2 = (res, q')" by force
  note sp = ack_refines [OF sample_lease(2) a]
  have io: "qi_commit qio_ok 0 = cio_ok" by (simp add: qio_ok_def)
  have en: "encodable (ack_record 1 77)" by (simp add: ack_record_def mk_rec_def encodable_def)
  have "res = Inr ()" "messages q' = (messages sample_q2)(1 := None)"
    using settles_succeeds [OF conjunct2 [OF sp, unfolded io] sample_lease(4,5,7) en] by blast+
  then show ?thesis using a sp sample_lease(3) by auto
qed

text \<open>C7. \<open>Nack\<close>: a stale receipt is rejected and nothing changes.  Otherwise the outcome is logged, and
  exactly if the commit succeeds the message becomes a dead letter when its attempts are used up, and
  else waits again, at once or after the delay; if the commit fails the lease is as before.  No case
  panics.\<close>

theorem nack_refines:
  assumes "q_inv F q" and "q_Nack io now now2 receipt delayMs q = (res, q')"
  shows "q_inv F q' \<and> settles (qi_commit io 0) receipt (nack_record (q_cfg q) (nack_at now delayMs) (messages q))
    (nack_upd (q_cfg q) (nack_at now delayMs) now2) q res q'"
  by (rule Nack_spec [OF assms])

theorem nack_refines_witness:
  "q_Nack qio_ok 2500 2501 sample_receipt 0 sample_q2 = (Inr (), sample_q3) \<and> q_inv {} sample_q3 \<and>
   messages sample_q3 = [1 \<mapsto> sample_dead]"
  using nack_refines [OF sample_lease(2) sample_nack(1)] sample_nack(1,3) by simp

text \<open>C8. The background tick never panics; it makes due messages ready and gives up the leases that are over,
  earliest deadline first, committing one record for each to the log: a message that has attempts left
  waits again, whatever becomes of its record; one whose attempts are used up becomes a dead letter
  exactly when the append of its \<open>OpDead\<close> record succeeds, and keeps its lease otherwise (always, if the
  queue is stopped).  No other message changes.\<close>

theorem tick_refines:
  assumes "q_inv F q"
  shows "\<exists>q' ms. tick io xio rm now q = (True, q') \<and> q_inv F q' \<and> expiry_order now (promote_msgs now (messages q)) ms \<and>
    messages q' = (\<lambda>m. map_option (tick_msg (q_cfg q) now
      (m \<in> died (qi_commit io) (q_stopped q) 0 (map (tick_record (q_cfg q) (promote_msgs now (messages q))) ms) (q_wal q)))
      (messages q m))"
  by (rule tick_spec [OF assms])

lemma sample_expiry: "expiry_order 4000 (promote_msgs 4000 [1 \<mapsto> sample_leased]) ms \<Longrightarrow> ms = [1]"
proof -
  assume o: "expiry_order 4000 (promote_msgs 4000 [1 \<mapsto> sample_leased]) ms"
  have "promote_msgs 4000 [1 \<mapsto> sample_leased] = [1 \<mapsto> sample_leased]"
    by (rule ext) (simp add: promote_msgs_def a_promote_def sample_leased_def)
  then have "set ms = {1}" "distinct ms" using o by (auto simp: expiry_order_def lease_over_def sample_leased_def split: if_splits)
  moreover from this have "length ms = 1" using distinct_card [of ms] by simp
  ultimately show "ms = [1]" by (cases ms) auto
qed

lemma sample_tick:
  assumes "q_inv {} sample_q2 \<Longrightarrow> \<exists>q' ms. tick io xio rm 4000 sample_q2 = (True, q') \<and> q_inv {} q' \<and>
      expiry_order 4000 (promote_msgs 4000 (messages sample_q2)) ms \<and>
      messages q' = (\<lambda>m. map_option (tick_msg (q_cfg sample_q2) 4000
        (m \<in> died (qi_commit io) (q_stopped sample_q2) 0 (map (tick_record (q_cfg sample_q2) (promote_msgs 4000 (messages sample_q2))) ms)
          (q_wal sample_q2))) (messages sample_q2 m))"
  shows "\<exists>q'. tick io xio rm 4000 sample_q2 = (True, q') \<and> q_inv {} q' \<and>
    messages q' = [1 \<mapsto> if isl (fst (AppendBatch (ci_wal (qi_commit io 0)) (q_wal sample_q2) [mk_rec OpDead (BDead \<lparr>de_MsgID = 1, de_Reason = 2\<rparr>)]))
      then sample_leased else sample_dead]"
proof -
  let ?M = "[1 \<mapsto> sample_leased]" and ?r = "mk_rec OpDead (BDead \<lparr>de_MsgID = 1, de_Reason = 2\<rparr>)"
  have st: "q_stopped sample_q2 = False" using sample_lease(5) by simp
  obtain q' ms where t: "tick io xio rm 4000 sample_q2 = (True, q')" "q_inv {} q'" and ms: "expiry_order 4000 (promote_msgs 4000 ?M) ms"
    and m: "messages q' = (\<lambda>m. map_option (tick_msg sample_cfg 4000
        (m \<in> died (qi_commit io) False 0 (map (tick_record sample_cfg (promote_msgs 4000 ?M)) ms) (q_wal sample_q2))) (?M m))"
    using assms [OF sample_lease(2)] unfolding sample_lease(3,6) st by blast
  have p: "promote_msgs 4000 ?M = ?M"
    by (rule ext) (simp add: promote_msgs_def a_promote_def sample_leased_def)
  have "tick_record sample_cfg ?M 1 = ?r"
    by (simp add: tick_record_def exhausted_def sample_leased_def sample_cfg_def)
  then have d: "1 \<in> died (qi_commit io) False 0 (map (tick_record sample_cfg (promote_msgs 4000 ?M)) [1]) (q_wal sample_q2) \<longleftrightarrow>
      \<not> isl (fst (AppendBatch (ci_wal (qi_commit io 0)) (q_wal sample_q2) [?r]))"
    unfolding p by (simp add: mk_rec_def split: prod.split sum.split)
  have "tick_msg sample_cfg 4000 b sample_leased = (if b then sample_dead else sample_leased)" for b
    by (simp add: tick_msg_def a_promote_def lease_over_def exhausted_def sample_leased_def sample_dead_def sample_cfg_def Let_def)
  then have "messages q' = [1 \<mapsto> if isl (fst (AppendBatch (ci_wal (qi_commit io 0)) (q_wal sample_q2) [?r])) then sample_leased else sample_dead]"
    unfolding m sample_expiry [OF ms] using d by (intro ext) (simp del: died.simps)
  then show ?thesis using t(1,2) by blast
qed

text \<open>Both outcomes on the sample queue, whose only message has used up its attempts: with a working disk
  it becomes a dead letter, with a disk that fails at once it keeps its lease.\<close>

definition qio_disk_full :: queue_io where
  "qio_disk_full = qio_ok\<lparr>qi_commit := (\<lambda>_. cio_ok\<lparr>ci_wal := io_ok\<lparr>io_write := Some 0\<rparr>\<rparr>)\<rparr>"

theorem tick_refines_witness:
  "(\<exists>q'. tick qio_ok (index_io.make True True True True True) (\<lambda>_. True) 4000 sample_q2 = (True, q') \<and> q_inv {} q' \<and>
     messages q' = [1 \<mapsto> sample_dead]) \<and>
   (\<exists>q'. tick qio_disk_full (index_io.make True True True True True) (\<lambda>_. True) 4000 sample_q2 = (True, q') \<and> q_inv {} q' \<and>
     messages q' = [1 \<mapsto> sample_leased])"
proof -
  let ?r = "mk_rec OpDead (BDead \<lparr>de_MsgID = 1, de_Reason = 2\<rparr>)"
  have en: "list_all encodable [?r]" by (simp add: mk_rec_def encodable_def)
  obtain l w' where "AppendBatch io_ok (q_wal sample_q2) [?r] = (Inr l, w')"
    using AppendBatch_succeeds [OF sample_lease(4) en] by blast
  then have 1: "\<not> isl (fst (AppendBatch (ci_wal (qi_commit qio_ok 0)) (q_wal sample_q2) [?r]))"
    by (simp add: qio_ok_def cio_ok_def)
  have "isl (fst (AppendBatch (io_ok\<lparr>io_write := Some 0\<rparr>) w [?r]))" for w
    by (auto simp: AppendBatch_def append_encode_def flush_def Let_def split: prod.split sum.split bool.split)
  then have 2: "isl (fst (AppendBatch (ci_wal (qi_commit qio_disk_full 0)) (q_wal sample_q2) [?r]))"
    by (simp add: qio_disk_full_def cio_ok_def)
  show ?thesis
    using sample_tick [OF tick_refines, of qio_ok "index_io.make True True True True True" "\<lambda>_. True"] 1
      sample_tick [OF tick_refines, of qio_disk_full "index_io.make True True True True True" "\<lambda>_. True"] 2 by simp
qed

lemma sample_q3_enough: "enough (replay_reqs [] 0 sample_q3) sample_q3" "replay_ids [] sample_q3 = [1]" "q_nextMsgID sample_q3 = 1"
proof -
  note l = replay_lists [OF sample_nack(2), of "[]"]
  have "with_status (\<lambda>st. st = Dead) [1 \<mapsto> sample_dead] = {1}" by (auto simp: with_status_def sample_dead_def)
  then have "set (replay_ids [] sample_q3) = {1}" using l(2) unfolding sample_nack(3) by simp
  moreover from this have "length (replay_ids [] sample_q3) = 1" using distinct_card [OF l(1)] by simp
  ultimately show ids: "replay_ids [] sample_q3 = [1]" by (cases "replay_ids [] sample_q3") auto
  have dl: "\<not> cfg_DurableLeases (q_cfg sample_q1)" using sample_enqueue(6) by (simp add: sample_cfg_def)
  have mx: "1 \<le> leaseCap" by (simp add: leaseCap_def)
  have pg: "q_pages sample_q3 = q_pages sample_q1" "q_nextMsgID sample_q3 = 1"
    using Nack_fields [OF sample_nack(1)] Lease_fields(4,5) [OF sample_lease(1) dl sample_enqueue(2) mx] sample_enqueue(7) by simp_all
  then show "q_nextMsgID sample_q3 = 1" by simp
  have "replay_reqs [] 0 sample_q3 = [again 0 sample_dead]" unfolding l(3) ids sample_nack(3) by simp
  moreover have "small (again 0 sample_dead)" by (simp add: small_def again_def sample_dead_def sample_msg_def)
  ultimately show "enough (replay_reqs [] 0 sample_q3) sample_q3"
    using sample_enqueue(8) pg by (simp add: enough_def room_def)
qed

text \<open>C9. \<open>Replay\<close> of dead letters: the dead messages named (or all of them) are enqueued again with the same
  payload and priority under new ids and with no attempts used, and the dead ones are deleted with
  their slots; if the enqueue fails they are all still dead letters.  No other message changes.\<close>

theorem replay_refines:
  assumes "q_inv F q" and "enough (replay_reqs ids delayMs q) q" and "q_Replay io fio now now2 ids delayMs q = (res, q')"
  shows "q_inv F q' \<and> set (replay_ids ids q) = {m \<in> with_status (\<lambda>st. st = Dead) (messages q). ids = [] \<or> m \<in> set ids} \<and>
    replayed now delayMs (replay_ids ids q) (q_nextMsgID q) (messages q) res (messages q')"
  using Replay_spec [OF assms] replay_lists(2) [OF assms(1)] by blast

theorem replay_refines_witness:
  "\<exists>res q'. q_Replay qio_ok (\<lambda>_. pio_ok) 5000 5001 [] 0 sample_q3 = (res, q') \<and> q_inv {} q' \<and>
    replayed 5000 0 [1] 1 [1 \<mapsto> sample_dead] res (messages q')"
proof -
  obtain res q' where r: "q_Replay qio_ok (\<lambda>_. pio_ok) 5000 5001 [] 0 sample_q3 = (res, q')" by force
  show ?thesis
    using replay_refines [OF sample_nack(2) sample_q3_enough(1) r] r unfolding sample_q3_enough(2,3) sample_nack(3) by blast
qed

text \<open>C13. Progress: when the system calls succeed, the log is open, the delays are admissible and the depth
  limit is not reached, \<open>Enqueue\<close> returns ids and not an error, also when the active segment is full and has
  to be rotated first (in a log whose segment names are LSNs already given, as every run of appends,
  truncations and reopenings leaves it).\<close>

theorem enqueue_succeeds:
  assumes "q_inv F q" and "enough reqs q" and "wal_usable (length reqs) (q_wal q)" and "\<not> q_stopped q"
    and "\<forall>r \<in> set reqs. sint (er_DelayMs r) \<le> sint (maxDelayMs (q_cfg q))" and "\<not> over_depth (length reqs) q"
  shows "\<exists>ids q'. q_Enqueue qio_ok now now2 reqs q = (Inr ids, q')"
  using Enqueue_succeeds [OF assms(1,2) usable_appends [OF assms(3)] assms(4-6)] by blast

theorem enqueue_succeeds_witness:
  "\<exists>ids q'. q_Enqueue qio_ok 1000 1001 [sample_req] sample_q0 = (Inr ids, q')"
proof -
  have "sint (0 :: i64) \<le> sint (maxDelayMs sample_cfg)" by (simp add: maxDelayMs_def defaultMaxDelayMs_def sample_cfg_def)
  moreover have "\<not> over_depth 1 sample_q0"
    by (simp add: over_depth_def sample_q0_def new_queue_def sample_cfg_def newReadyHeap_def rh_Len_def)
  moreover have "wal_usable (length [sample_req]) (q_wal sample_q0)"
    using wal_run_usable [OF wal_run.fresh, of 1] by (simp add: sample_q0_def new_queue_def fresh_fields)
  ultimately show ?thesis
    using enqueue_succeeds [OF sample_q0_facts(1,7) _ sample_q0_facts(4), of 1000 1001] sample_q0_facts(6) by (auto simp: sample_req_def)
qed

text \<open>C14. \<open>Stats\<close> is exact: the four gauges are the numbers of messages that wait, are delayed, are leased and
  are dead.\<close>

theorem stats_exact:
  assumes "q_inv F q"
  shows "sta_Ready (q_Stats q) = card (with_status (\<lambda>st. st = Waiting) (messages q)) \<and>
    sta_Delayed (q_Stats q) = card (with_status (\<lambda>st. \<exists>t. st = Later t) (messages q)) \<and>
    sta_Inflight (q_Stats q) = card (with_status (\<lambda>st. \<exists>n u. st = Leased n u) (messages q)) \<and>
    sta_Dead (q_Stats q) = card (with_status (\<lambda>st. st = Dead) (messages q))"
  by (rule stats_spec [OF assms])

theorem stats_exact_witness:
  "sta_Ready (q_Stats sample_q3) = 0 \<and> sta_Delayed (q_Stats sample_q3) = 0 \<and> sta_Inflight (q_Stats sample_q3) = 0 \<and>
   sta_Dead (q_Stats sample_q3) = 1"
proof -
  have "with_status Q [1 \<mapsto> sample_dead] = (if Q Dead then {1} else {})" for Q by (auto simp: with_status_def sample_dead_def)
  then show ?thesis using stats_exact [OF sample_nack(2)] unfolding sample_nack(3) by simp
qed

text \<open>C15. The depth limit holds: after a successful enqueue of at least one message into a queue with a
  positive \<open>MaxDepth\<close>, at most \<open>MaxDepth\<close> messages are waiting or delayed.\<close>

theorem enqueue_depth_bounded:
  assumes "q_inv F q" and "enough reqs q" and "q_Enqueue io now now2 reqs q = (Inr ids, q')"
    and "reqs \<noteq> []" and "0 < cfg_MaxDepth (q_cfg q)" and "0 \<le> q_reserved q"
  shows "int (card (with_status (\<lambda>st. st = Waiting \<or> (\<exists>t. st = Later t)) (messages q'))) \<le> cfg_MaxDepth (q_cfg q)"
  by (rule depth_spec [OF assms])

theorem enqueue_depth_bounded_witness:
  "int (card (with_status (\<lambda>st. st = Waiting \<or> (\<exists>t. st = Later t)) (messages sample_q1))) \<le> 5"
  using enqueue_depth_bounded [OF sample_q0_facts(1,7) sample_enqueue(1)] sample_q0_facts(6,8) by (simp add: sample_cfg_def)

end
