(* ===== verification/Broker_Props.thy ===== *)
theory Broker_Props
  imports Broker_Inv Queue_Props
begin

text \<open>The properties of the broker, with a sample broker that has one queue with one message as the witness.\<close>

definition empty_broker :: Broker where
  "empty_broker = \<lparr>b_pages = empty_store [], b_queues = [], b_left = []\<rparr>"

definition sample_create :: create_io where
  "sample_create = \<lparr>cre_mkdir = True, cre_meta = True, cre_now = 1000, cre_release = (\<lambda>_. (pio_ok, pio_ok))\<rparr>"

definition sample_b1 :: Broker where
  "sample_b1 = put_queue ''jobs'' sample_q0 empty_broker"

definition sample_b2 :: Broker where
  "sample_b2 = put_queue ''jobs'' sample_q1 sample_b1"

lemma empty_broker_inv: "broker_inv {} empty_broker" "contents empty_broker = (\<lambda>n. None)"
proof -
  show "broker_inv {} empty_broker"
    by (rule broker_invI) (simp_all add: empty_broker_def empty_store_inv all_owned_def)
  show "contents empty_broker = (\<lambda>n. None)" by (rule ext) (simp add: contents_def empty_broker_def)
qed

lemma sample_created: "Create sample_create sample_cfg empty_broker = (Inr sample_q0, sample_b1)"
proof -
  have "openQueue (\<lambda>_. (pio_ok, pio_ok)) 1000 sample_cfg [] NotExist (empty_store []) = (Inr sample_q0, empty_store [])"
    unfolding open_new_queue by (simp add: sample_q0_def new_queue_def cursor_reset_def)
  then show ?thesis by (simp add: Create_def sample_create_def empty_broker_def sample_b1_def sample_cfg_def left_dir_def put_queue_def)
qed

lemma sample_b1_get: "Get ''jobs'' sample_b1 = Inr sample_q0"
proof -
  have "with_pages (q_pages sample_q0) sample_q0 = sample_q0" by simp
  then show ?thesis by (simp add: Get_def sample_b1_def)
qed

lemma sample_run: "broker_run empty_broker [Created ''jobs'', On ''jobs'' (Added [(1, [104, 105])])] sample_b2"
proof -
  have 1: "broker_step empty_broker (Created (cfg_Name sample_cfg)) sample_b1"
    by (rule broker_step.create [OF sample_created]) (simp add: empty_left_def left_dir_def empty_broker_def)
  have "queue_step sample_q0 (Added (zip [1] (map er_Payload [sample_req]))) sample_q1"
    by (rule queue_step.enqueue [OF sample_enqueue(1) sample_q0_facts(7)])
  from broker_step.queue_op [OF sample_b1_get this]
  have 2: "broker_step sample_b1 (On ''jobs'' (Added [(1, [104, 105])])) sample_b2" by (simp add: sample_b2_def sample_req_def)
  have "broker_run empty_broker ([] @ [Created ''jobs'']) sample_b1"
    by (rule broker_run.step [OF broker_run.start]) (use 1 in \<open>simp add: sample_cfg_def\<close>)
  from broker_run.step [OF this 2] show ?thesis by simp
qed

section \<open>Properties\<close>

text \<open>C2. Queues that share the page store do not interfere: along every run of the broker, with queues created and
  deleted, any handler called on any queue, and any outcome of the system calls, each queue holds exactly the
  messages, with their payloads, that its own operations put there, and the references of the queues stay
  disjoint and accounted for. The one condition is that \<open>Create\<close> does not find an old log or index under the
  name (its directory is missing or empty): a \<open>Delete\<close> whose \<open>RemoveAll\<close> fails leaves them, and \<open>Create\<close> would
  then bring the deleted messages back.\<close>

theorem broker_run_isolates_queues:
  assumes "broker_inv L b" and "broker_run b evs b'"
  shows "contents b' = foldl apply_broker (contents b) evs \<and> (\<exists>L'. L \<subseteq> L' \<and> broker_inv L' b')"
  using broker_run_spec [OF assms(2,1)] by blast

theorem broker_run_isolates_queues_witness:
  "contents sample_b2 = [''jobs'' \<mapsto> [1 \<mapsto> [104, 105]]]"
  using broker_run_isolates_queues [OF empty_broker_inv(1) sample_run] empty_broker_inv(2) by simp

lemma sample_b2_inv: "\<exists>L. broker_inv L sample_b2"
  using broker_run_spec [OF sample_run empty_broker_inv(1)] by blast

text \<open>C37. Deleting a queue gives none of its page-store slots back: \<open>Close\<close> checkpoints the queue and closes its
  log but releases nothing, so after \<open>Delete\<close> every index and payload slot of the queue is still allocated and
  reads the same, though no queue refers to it any more. The queue's directory is gone exactly when
  \<open>RemoveAll\<close> succeeds; otherwise \<open>Delete\<close> reports an error, and the queue is out of the map all the same.\<close>

theorem delete_keeps_pages_allocated:
  assumes "broker_inv L b" and "queue_map b n = Some q" and "Delete io rm n b = (res, b')"
  shows "queue_map b' n = None \<and> broker_inv (L \<union> queue_owned q) b' \<and>
    queue_owned q \<subseteq> live (b_pages b') \<and> queue_owned q \<inter> all_owned (queue_map b') = {} \<and>
    (\<forall>r \<in> queue_owned q. store_Read r (b_pages b') = store_Read r (b_pages b)) \<and>
    (map_of (b_left b') n = None \<longleftrightarrow> rmv_all rm) \<and> (isl res \<longleftrightarrow> \<not> rmv_all rm)"
proof -
  obtain d where b': "b' = (b\<lparr>b_queues := AList.delete n (b_queues b)\<rparr>)\<lparr>b_left := d\<rparr>" "map_of d n = None \<longleftrightarrow> rmv_all rm"
    "isl res \<longleftrightarrow> \<not> rmv_all rm" by (rule Delete_removes [OF assms(2,3)]) simp
  note d = delete_queue [OF assms(1,2)]
  have inv: "broker_inv (L \<union> queue_owned q) b'" using d(1) unfolding b'(1) by simp
  have m: "queue_map b' = (queue_map b)(n := None)" unfolding b'(1) by (simp add: delete_conv')
  have "queue_owned q \<subseteq> live (b_pages b')" using broker_invD(3) [OF inv] by blast
  moreover have "queue_owned q \<inter> all_owned (queue_map b') = {}"
    using queue_disjoint(1) [OF broker_invD(4) [OF assms(1,2)]] unfolding m others_def by blast
  moreover have "b_pages b' = b_pages b" unfolding b'(1) by simp
  ultimately show ?thesis using inv m b' by simp
qed

definition sample_close :: close_io where
  "sample_close = \<lparr>clo_index = \<lparr>xio_create = True, xio_write = True, xio_sync = True, xio_rename = True, xio_dir = True\<rparr>,
     clo_rm = (\<lambda>_. True), clo_wal = io_ok\<rparr>"

definition sample_remove :: remove_io where
  "sample_remove = \<lparr>rmv_all = True, rmv_meta = True, rmv_index = True, rmv_wal = (\<lambda>_. True)\<rparr>"

theorem delete_keeps_pages_allocated_witness:
  "\<exists>res b' r. Delete sample_close sample_remove ''jobs'' sample_b2 = (res, b') \<and> queue_map b' ''jobs'' = None \<and>
     map_of (b_left b') ''jobs'' = None \<and> r \<in> live (b_pages b')"
proof -
  obtain L where L: "broker_inv L sample_b2" using sample_b2_inv by blast
  obtain res b' where d: "Delete sample_close sample_remove ''jobs'' sample_b2 = (res, b')" by force
  have q: "queue_map sample_b2 ''jobs'' = Some sample_q1" by (simp add: sample_b2_def)
  have "messages sample_q1 1 = Some sample_msg" using sample_enqueue(3) by simp
  then obtain r s where s: "q_slots sample_q1 r = Some s"
    using viewD [OF q_invD(4) [OF sample_enqueue(2)], of 1 sample_msg] by auto
  have r: "r \<in> queue_owned sample_q1"
    using owned_mem [of "prefs (q_slots sample_q1)" r, OF prefs_Some [of "q_slots sample_q1", OF s]] by (simp add: queue_owned_def)
  note k = delete_keeps_pages_allocated [OF L q d]
  have "rmv_all sample_remove" by (simp add: sample_remove_def)
  then show ?thesis using d k r by (intro exI [of _ res] exI [of _ b'] exI [of _ r]) blast
qed

end
