(* ===== verification/Api_Props.thy ===== *)
theory Api_Props
  imports Api Broker_Props
begin

text \<open>What a request does to the messages of the broker, read off its status code.\<close>

section \<open>Handlers as steps of the queue\<close>

definition admissible :: "http_req \<Rightarrow> Queue \<Rightarrow> bool" where
  "admissible rq q \<longleftrightarrow> (\<forall>req. rq_enqueue rq = Some req \<longrightarrow> enough (api_items req) q) \<and>
     (\<forall>ids d. enough (replay_reqs ids d q) q)"

text \<open>
  What a request without success may do to a message: nothing, or make it ready if its delay is over
  (which any lease request does first).  The third case is a lease that was given and taken back, for a
  message with the highest attempt count: the counter wraps to 0 and is not put back.
\<close>

definition kept :: "i64 \<Rightarrow> amsg \<Rightarrow> amsg \<Rightarrow> bool" where
  "kept now a a' \<longleftrightarrow> a' = a \<or> a' = a_promote now a \<or> am_attempts a = 65535 \<and> a' = (a_promote now a)\<lparr>am_attempts := 0\<rparr>"

definition kept_msgs :: "i64 \<Rightarrow> (u64 \<rightharpoonup> amsg) \<Rightarrow> (u64 \<rightharpoonup> amsg) \<Rightarrow> bool" where
  "kept_msgs now M M' \<longleftrightarrow> (\<forall>m. rel_option (kept now) (M m) (M' m))"

lemma kept_same [simp]: "kept_msgs now M M"
  by (simp add: kept_msgs_def kept_def option.rel_refl)

lemma promote_attempts [simp]: "am_attempts (a_promote now a) = am_attempts a"
  by (simp add: a_promote_def split: status.split)

lemma lease_kept:
  assumes i: "q_inv F q" and l: "q_Lease io nonces now now2 mx vis q = (Inl e, q')"
  shows "kept_msgs now (messages q) (messages q')"
proof (cases "leaseCap < mx")
  case True
  then show ?thesis
    using Lease_panic [OF i l True] by (simp add: kept_msgs_def promote_msgs_def kept_def option.rel_map option.rel_refl)
next
  case False
  have one: "- 1 = (65535 :: u16)" by simp
  have top: "am_attempts a + 1 = 0 \<longleftrightarrow> am_attempts a = 65535" for a :: amsg
    by (simp add: eq_neg_iff_add_eq_0 [symmetric] one)
  obtain ms where "messages q' = (\<lambda>m. map_option (if m \<in> set ms then unlease_msg else (\<lambda>a. a)) (promote_msgs now (messages q) m))"
    using Lease_spec [OF i l False] unfolding lease_result_def by (auto split: option.splits)
  then show ?thesis
    by (auto simp: kept_msgs_def promote_msgs_def kept_def unlease_msg_def option.rel_map top intro: option.rel_refl)
qed

text \<open>A handler makes at most one step of the queue; without a success code it keeps the messages.\<close>

definition success :: "http_req \<Rightarrow> response \<Rightarrow> bool" where
  "success rq r \<longleftrightarrow> rq_method rq = ''POST'' \<and> 0 < rs_code r \<and> rs_code r < 400"

definition api_step :: "api_env \<Rightarrow> http_req \<Rightarrow> response \<Rightarrow> Queue \<Rightarrow> Queue \<Rightarrow> bool" where
  "api_step env rq r q q' \<longleftrightarrow> (q' = q \<or> (\<exists>ev. queue_step q ev q')) \<and>
     (success rq r \<or> kept_msgs (ae_now env) (messages q) (messages q'))"

lemma api_stepI:
  "queue_step q ev q' \<Longrightarrow> messages q' = messages q \<Longrightarrow> api_step env rq r q q'"
  "queue_step q ev q' \<Longrightarrow> success rq r \<Longrightarrow> api_step env rq r q q'"
  "api_step env rq r q q"
  by (auto simp: api_step_def)

lemma reply_fields [simp]: "rs_code (reply c v) = c" "rs_body (reply c v) = v"
  by (simp_all add: reply_def)

lemma enqueue_step:
  assumes "api_enqueue env rq q = (r, q')" "q_inv F q" "admissible rq q"
  shows "api_step env rq r q q'"
proof (cases "rq_method rq = ''POST'' \<and> rq_enqueue rq \<noteq> None")
  case False
  then have "q' = q" using assms(1) by (auto simp: api_enqueue_def split: if_splits)
  then show ?thesis by (simp add: api_stepI)
next
  case True
  then obtain req where rq: "rq_enqueue rq = Some req" "rq_method rq = ''POST''" by blast
  have n: "enough (api_items req) q" using assms(3) rq(1) by (simp add: admissible_def)
  obtain res where e: "q_Enqueue (ae_io env) (ae_now env) (ae_now2 env) (api_items req) q = (res, q')"
    using assms(1) rq by (auto simp: api_enqueue_def split: sum.splits prod.splits)
  show ?thesis
  proof (cases res)
    case (Inl x)
    have "messages q' = messages q" using Enqueue_spec [OF assms(2) n e] Inl by (simp add: enqueued_def)
    then show ?thesis by (rule api_stepI(1) [OF queue_step.enqueue_fails [OF e [unfolded Inl] n]])
  next
    case (Inr ids)
    have "r = reply 201 (Ids ids)" using assms(1) rq e Inr by (simp add: api_enqueue_def)
    then show ?thesis using api_stepI(2) [OF queue_step.enqueue [OF e [unfolded Inr] n]] rq(2) by (simp add: success_def)
  qed
qed

lemma lease_step:
  assumes "api_lease env rq q = (r, q')" "q_inv F q" "ae_wake env = None"
  shows "api_step env rq r q q'"
proof (cases "q' = q")
  case False
  then obtain mx vis res where l: "q_Lease (ae_io env) (ae_nonces env) (ae_now env) (ae_now2 env) mx vis q = (res, q')"
    and r: "rq_method rq = ''POST''" "\<forall>ds. res = Inr ds \<longrightarrow> r = reply 200 (Deliveries ds)"
    using assms(1,3) by (auto simp: api_lease_def LeaseWait_def Let_def split: option.splits sum.splits prod.splits if_splits)
  show ?thesis
  proof (cases res)
    case (Inl e)
    then show ?thesis using lease_kept [OF assms(2)] l queue_step.lease [OF l] by (auto simp: api_step_def)
  next
    case (Inr ds)
    then have "success rq r" using r by (simp add: success_def)
    then show ?thesis by (rule api_stepI(2) [OF queue_step.lease [OF l]])
  qed
qed (simp add: api_stepI)

lemma settles_error: "settles io receipt rc upd q (Inl e) q' \<Longrightarrow> messages q' = messages q"
  by (auto simp: settles_def split: option.splits prod.splits)

lemma ack_step:
  assumes "api_ack env rq q = (r, q')" "q_inv F q"
  shows "api_step env rq r q q'"
proof (cases "rq_method rq = ''POST'' \<and> rq_ack rq \<noteq> None")
  case False
  then have "q' = q" using assms(1) by (auto simp: api_ack_def split: if_splits)
  then show ?thesis by (simp add: api_stepI)
next
  case True
  then obtain receipt where rq: "rq_ack rq = Some receipt" "rq_method rq = ''POST''" by blast
  obtain res where a: "q_Ack (ae_io env) receipt q = (res, q')"
    using assms(1) rq by (auto simp: api_ack_def split: sum.splits prod.splits)
  note sp = conjunct2 [OF Ack_spec [OF assms(2) a]]
  show ?thesis
  proof (cases res)
    case (Inl x)
    show ?thesis by (rule api_stepI(1) [OF queue_step.ack_fails [OF a [unfolded Inl]] settles_error [OF sp [unfolded Inl]]])
  next
    case (Inr u)
    have r: "r = reply 200 Acked_ok" using assms(1) rq a Inr by (simp add: api_ack_def)
    obtain m att nonce where "decodeReceipt receipt = Some (m, att, nonce)" using settles_payloads [OF sp] Inr by auto
    then show ?thesis using api_stepI(2) [OF queue_step.ack [of "ae_io env" receipt q q']] a Inr r rq(2) by (simp add: success_def)
  qed
qed

lemma nack_step:
  assumes "api_nack env rq q = (r, q')" "q_inv F q"
  shows "api_step env rq r q q'"
proof (cases "rq_method rq = ''POST'' \<and> rq_nack rq \<noteq> None")
  case False
  then have "q' = q" using assms(1) by (auto simp: api_nack_def split: if_splits option.splits)
  then show ?thesis by (simp add: api_stepI)
next
  case True
  then obtain receipt d where rq: "rq_nack rq = Some (receipt, d)" "rq_method rq = ''POST''" by auto
  obtain res where a: "q_Nack (ae_io env) (ae_now env) (ae_now2 env) receipt d q = (res, q')"
    using assms(1) rq by (auto simp: api_nack_def split: sum.splits prod.splits)
  note sp = conjunct2 [OF Nack_spec [OF assms(2) a]]
  show ?thesis
  proof (cases res)
    case (Inl x)
    show ?thesis by (rule api_stepI(1) [OF queue_step.nack [OF a] settles_error [OF sp [unfolded Inl]]])
  next
    case (Inr u)
    have "r = reply 200 Nacked_ok" using assms(1) rq a Inr by (simp add: api_nack_def)
    then show ?thesis using api_stepI(2) [OF queue_step.nack [OF a]] rq(2) by (simp add: success_def)
  qed
qed

lemma replay_step:
  assumes "api_replay env rq q = (r, q')" "q_inv F q" "admissible rq q"
  shows "api_step env rq r q q'"
proof (cases "rq_method rq = ''POST'' \<and> (if 0 < rq_contentLength rq then rq_replay rq else Some ([], 0)) \<noteq> None")
  case False
  then have "q' = q" using assms(1) by (auto simp: api_replay_def split: if_splits option.splits)
  then show ?thesis by (simp add: api_stepI)
next
  case True
  then obtain ids d where rq: "(if 0 < rq_contentLength rq then rq_replay rq else Some ([], 0)) = Some (ids, d)" "rq_method rq = ''POST''"
    by (metis not_None_eq prod.exhaust)
  have n: "enough (replay_reqs ids d q) q" using assms(3) by (simp add: admissible_def)
  obtain res where e: "q_Replay (ae_io env) (ae_release env) (ae_now env) (ae_now2 env) ids d q = (res, q')"
    using assms(1) rq(2) unfolding api_replay_def rq(1) by (auto split: sum.splits prod.splits)
  show ?thesis
  proof (cases res)
    case (Inl x)
    have "messages q' = messages q" using Replay_spec [OF assms(2) n e] Inl by (simp add: replayed_def)
    then show ?thesis by (rule api_stepI(1) [OF queue_step.replay_fails [OF e [unfolded Inl] n]])
  next
    case (Inr new)
    have "r = reply 200 (Ids new)" using assms(1) rq(2) e Inr unfolding api_replay_def rq(1) by simp
    then show ?thesis using api_stepI(2) [OF queue_step.replay [OF e [unfolded Inr] n]] rq(2) by (simp add: success_def)
  qed
qed

lemma checkpoint_step:
  assumes "api_checkpoint env q = (r, q')"
  shows "api_step env rq r q q'"
proof -
  obtain ok where c: "q_Checkpoint (ae_index env) (ae_rm env) q = (ok, q')"
    using assms by (auto simp: api_checkpoint_def split: prod.splits bool.splits)
  show ?thesis by (rule api_stepI(1) [OF queue_step.checkpoint [OF c] Checkpoint_same(2) [OF c]])
qed

lemma action_step:
  assumes "queue_action env rq name action q = (r, q')" "q_inv F q" "admissible rq q" "ae_wake env = None"
  shows "api_step env rq r q q'"
  using assms(1) enqueue_step [OF _ assms(2,3)] lease_step [OF _ assms(2,4)] ack_step [OF _ assms(2)] nack_step [OF _ assms(2)]
    replay_step [OF _ assms(2,3)] checkpoint_step
  unfolding queue_action_def by (auto simp: api_deadLetters_def api_stepI(3) split: if_splits)

section \<open>Requests\<close>

text \<open>All queues but \<open>n\<close> have the same messages as before, and those of \<open>n\<close> are kept.\<close>

definition broker_kept :: "i64 \<Rightarrow> string \<Rightarrow> Broker \<Rightarrow> Broker \<Rightarrow> bool" where
  "broker_kept now n b b' \<longleftrightarrow> (\<forall>k. k \<noteq> n \<longrightarrow> all_messages b' k = all_messages b k) \<and>
     rel_option (kept_msgs now) (all_messages b n) (all_messages b' n)"

lemma broker_kept_same: "all_messages b' = all_messages b \<Longrightarrow> broker_kept now n b b'"
  by (simp add: broker_kept_def option.rel_refl)

lemma put_same:
  assumes i: "broker_inv L b" and q: "queue_map b n = Some q"
  shows "broker_inv L (put_queue n (with_pages (b_pages b) q) b)" "all_messages (put_queue n (with_pages (b_pages b) q) b) = all_messages b"
  using put_queue_inv [OF i, of n "with_pages (b_pages b) q"] broker_invD(4) [OF i q] q by (simp_all add: all_messages_def fun_upd_idem)

lemma on_queue_step:
  assumes i: "broker_inv L b" and o: "on_queue n (queue_action env rq n action) b = (res, b')"
    and a: "\<forall>q. Get n b = Inr q \<longrightarrow> admissible rq q" and w: "ae_wake env = None"
  shows "broker_inv L b' \<and> (case res of Inl e \<Rightarrow> b' = b | Inr r \<Rightarrow> success rq r \<or> broker_kept (ae_now env) n b b')"
proof (cases "queue_map b n")
  case None
  then show ?thesis using o i by (auto simp: on_queue_def Get_def)
next
  case (Some q)
  let ?q = "with_pages (b_pages b) q"
  obtain r q' where f: "queue_action env rq n action ?q = (r, q')" by force
  have b': "res = Inr r" "b' = put_queue n q' b" using o Some f by (simp_all add: on_queue_def Get_def)
  have "admissible rq ?q" using a Some by (simp add: Get_def)
  note st = action_step [OF f broker_invD(4) [OF i Some] this w]
  have m: "all_messages b n = Some (messages ?q)" using Some by (simp add: all_messages_def)
  show ?thesis
  proof (cases "q' = ?q")
    case True
    then show ?thesis using put_same [OF i Some] b' by (auto intro: broker_kept_same)
  next
    case False
    then obtain ev where ev: "queue_step ?q ev q'" using st by (auto simp: api_step_def)
    note s = queue_step_broker [OF i Some ev]
    have "success rq r \<or> broker_kept (ae_now env) n b b'"
      using st s(3) m b'(2) by (auto simp: api_step_def broker_kept_def)
    then show ?thesis using s(1) b' by simp
  qed
qed

definition request_name :: "http_req \<Rightarrow> string" where
  "request_name rq = fst (split_path (drop (length queues_path) (rq_path rq)))"

lemma fail_code: "rs_code (fail e) = 0 \<or> 400 \<le> rs_code (fail e)"
  by (auto simp: fail_def split: broker_error.split queue_error.split)

lemma create_step:
  assumes i: "broker_inv L b" and s: "api_queues env rq b = (r, b')" and c: "\<forall>n. empty_left n b"
  shows "\<exists>L'. L \<subseteq> L' \<and> broker_inv L' b'" "success rq r \<or> all_messages b' = all_messages b"
proof -
  consider (same) "b' = b" | (post) req order where "rq_method rq = ''POST''" "rq_create rq = Some req"
    "ParseOrder (cr_Order req) = Inr order" "valid_name (cr_Name req)"
    using s by (auto simp: api_queues_def split: option.splits sum.splits if_splits)
  then have "(\<exists>L'. L \<subseteq> L' \<and> broker_inv L' b') \<and> (success rq r \<or> all_messages b' = all_messages b)"
  proof cases
    case same
    then show ?thesis using i by blast
  next
    case post
    obtain res where cr: "Create (ae_create env) (create_config req order) b = (res, b')"
      using s post by (auto simp: api_queues_def split: sum.splits prod.splits broker_error.splits queue_error.splits)
    have e: "empty_left (cfg_Name (create_config req order)) b" using c by blast
    show ?thesis
    proof (cases res)
      case (Inl x)
      obtain d where "b' = b\<lparr>b_left := d\<rparr>" using Create_empty(2) [OF e cr] Inl by auto
      then show ?thesis using i by auto
    next
      case (Inr q)
      have "success rq r" using s post cr Inr by (auto simp: api_queues_def success_def)
      then show ?thesis using broker_step_spec [OF broker_step.create [OF cr [unfolded Inr] e] i] by blast
    qed
  qed
  then show "\<exists>L'. L \<subseteq> L' \<and> broker_inv L' b'" "success rq r \<or> all_messages b' = all_messages b" by blast+
qed

lemma queueOp_step:
  assumes i: "broker_inv L b" and s: "queueOp env rq b = (r, b')" and w: "ae_wake env = None"
    and a: "\<forall>q. Get (request_name rq) b = Inr q \<longrightarrow> admissible rq q"
  shows "\<exists>L'. L \<subseteq> L' \<and> broker_inv L' b'"
    "rq_method rq = ''DELETE'' \<or> success rq r \<or> broker_kept (ae_now env) (request_name rq) b b'"
proof -
  obtain name action where sp: "split_path (drop (length queues_path) (rq_path rq)) = (name, action)" by force
  have nm: "request_name rq = name" by (simp add: request_name_def sp)
  consider (missing) "name = []" | (delete) "name \<noteq> []" "action = []" "rq_method rq = ''DELETE''"
    | (act) "name \<noteq> []" "\<not> (action = [] \<and> rq_method rq = ''DELETE'')" by blast
  then have "(\<exists>L'. L \<subseteq> L' \<and> broker_inv L' b') \<and>
      (rq_method rq = ''DELETE'' \<or> success rq r \<or> broker_kept (ae_now env) (request_name rq) b b')"
  proof cases
    case missing
    then have "b' = b" using s sp by (auto simp: queueOp_def)
    then show ?thesis using i broker_kept_same by blast
  next
    case delete
    obtain res where d: "Delete (ae_close env) (ae_rmAll env) name b = (res, b')"
      using s sp delete by (auto simp: queueOp_def split: sum.splits prod.splits)
    have "\<exists>ev. broker_step b ev b'"
      using d broker_step.delete [OF d] broker_step.delete_unknown [of "ae_close env" "ae_rmAll env" name b b']
      by (cases "res = Inl (QueueErr ErrNoQueue)") auto
    then show ?thesis using broker_step_spec [OF _ i] delete(3) by blast
  next
    case act
    obtain res where o: "on_queue name (queue_action env rq name action) b = (res, b')" "r = (case res of Inl e \<Rightarrow> fail e | Inr r \<Rightarrow> r)"
      using s sp act unfolding queueOp_def by (auto split: sum.splits prod.splits)
    note q = on_queue_step [OF i o(1) a [unfolded nm] w]
    show ?thesis using q o(2) nm by (cases res) (auto intro: broker_kept_same)
  qed
  then show "\<exists>L'. L \<subseteq> L' \<and> broker_inv L' b'"
    "rq_method rq = ''DELETE'' \<or> success rq r \<or> broker_kept (ae_now env) (request_name rq) b b'" by blast+
qed

lemma serve_invariant:
  assumes i: "broker_inv L b" and s: "ServeHTTP env rq b = (r, b')" and w: "ae_wake env = None"
    and a: "\<forall>q. Get (request_name rq) b = Inr q \<longrightarrow> admissible rq q" and c: "\<forall>n. empty_left n b"
  shows "\<exists>L'. L \<subseteq> L' \<and> broker_inv L' b'"
    "rq_method rq = ''DELETE'' \<or> success rq r \<or> broker_kept (ae_now env) (request_name rq) b b'"
proof -
  consider "api_queues env rq b = (r, b')" | "queueOp env rq b = (r, b')" | "b' = b"
    using s by (auto simp: ServeHTTP_def split: if_splits)
  then have "(\<exists>L'. L \<subseteq> L' \<and> broker_inv L' b') \<and>
      (rq_method rq = ''DELETE'' \<or> success rq r \<or> broker_kept (ae_now env) (request_name rq) b b')"
  proof cases
    case 1
    then show ?thesis using create_step [OF i 1 c] broker_kept_same by blast
  next
    case 2
    then show ?thesis using queueOp_step [OF i 2 w a] by blast
  next
    case 3
    then show ?thesis using i broker_kept_same by blast
  qed
  then show "\<exists>L'. L \<subseteq> L' \<and> broker_inv L' b'"
    "rq_method rq = ''DELETE'' \<or> success rq r \<or> broker_kept (ae_now env) (request_name rq) b b'" by blast+
qed

lemma split_path_name:
  assumes "CHR ''/'' \<notin> set n"
  shows "split_path (n @ CHR ''/'' # a) = (n, a)" "split_path n = (n, [])"
proof -
  have n: "\<forall>c \<in> set n. c \<noteq> CHR ''/''" using assms by blast
  show "split_path (n @ CHR ''/'' # a) = (n, a)" using n by (simp add: split_path_def)
  show "split_path n = (n, [])" using n by (simp add: split_path_def takeWhile_eq_all_conv [THEN iffD2] dropWhile_eq_Nil_conv [THEN iffD2])
qed

lemma serve_queue_path:
  assumes "rq_path rq = queues_path @ rest"
  shows "ServeHTTP env rq b = queueOp env rq b" "drop (length queues_path) (rq_path rq) = rest"
  using assms by (simp_all add: ServeHTTP_def queues_path_def)

lemma serve_messages:
  assumes p: "rq_path rq = queues_path @ n @ ''/messages''" "CHR ''/'' \<notin> set n" "n \<noteq> []"
    and q: "Get n b = Inr q" and m: "rq_method rq = ''POST''" "rq_enqueue rq = Some req"
    and e: "q_Enqueue (ae_io env) (ae_now env) (ae_now2 env) (api_items req) q = (res, q')"
  shows "ServeHTTP env rq b = (case res of Inl x \<Rightarrow> q_fail x | Inr ids \<Rightarrow> reply 201 (Ids ids), put_queue n q' b)"
proof -
  have "queue_action env rq n ''messages'' q = (case res of Inl x \<Rightarrow> q_fail x | Inr ids \<Rightarrow> reply 201 (Ids ids), q')"
    using m e by (cases res) (simp_all add: queue_action_def api_enqueue_def)
  moreover have "split_path (n @ ''/messages'') = (n, ''messages'')" using split_path_name(1) [OF p(2), of "''messages''"] by simp
  ultimately show ?thesis
    using q p(3) unfolding serve_queue_path(1) [OF p(1)] queueOp_def serve_queue_path(2) [OF p(1)] by (simp add: on_queue_def)
qed

text \<open>The queue request of an item, and the message it becomes.\<close>

definition request_of :: "enqueueItem \<Rightarrow> EnqueueRequest" where
  "request_of it = \<lparr>er_Payload = ei_Body it, er_Priority = ei_Priority it, er_DelayMs = ei_DelayMs it\<rparr>"

definition item_msg :: "i64 \<Rightarrow> enqueueItem \<Rightarrow> amsg" where
  "item_msg now it = \<lparr>am_payload = ei_Body it, am_priority = ei_Priority it, am_attempts = 0, am_enqueuedAt = now,
     am_status = (if 0 < sint (ei_DelayMs it) \<and> sint now < sint (now + ei_DelayMs it) then Later (now + ei_DelayMs it) else Waiting)\<rparr>"

lemma new_item: "new_msg now (request_of it) = item_msg now it"
  by (simp add: new_msg_def request_of_def item_msg_def avail_at_def)

lemma Enqueue_ids:
  assumes i: "q_inv F q" and n: "enough reqs q" and e: "q_Enqueue io now now2 reqs q = (Inr ids, q')"
  shows "length ids = length reqs" "distinct ids" "set ids \<inter> dom (messages q) = {}"
proof -
  have ids: "ids = next_ids (q_nextMsgID q) (length reqs)" using Enqueue_spec [OF i n e] by (simp add: enqueued_def)
  have b: "unat (q_nextMsgID q) + length reqs < 2 ^ 64" using n by (simp add: enough_def)
  show "length ids = length reqs" by (simp add: ids)
  show "distinct ids" unfolding ids by (rule next_ids_distinct [OF b])
  show "set ids \<inter> dom (messages q) = {}" using next_ids_new(3) [OF i b] unfolding ids by auto
qed

section \<open>Properties\<close>

text \<open>C10. An error response is the whole truth: a request that is answered with a 4xx or 5xx code, that dies in a panic, or
  that has a method other than POST and DELETE, leaves every message of every queue as it was: its payload,
  priority, attempts, time and status, whatever the path, the body and the outcomes of the system calls.  Two
  things may happen to messages of the queue the request names: a delayed message that is due becomes ready
  (every lease request does this first), and a message with 65535 attempts may lose them when a lease is
  taken back.  Every request keeps the invariant of the broker.  Deletion is the exception, since it reports
  an error when the queue is gone but its files could not be removed.  It is assumed that a long poll is not
  woken up by other requests in between, and that no directory under an unused name holds an old log or index.\<close>

theorem api_error_changes_nothing:
  assumes "broker_inv L b" and "ServeHTTP env rq b = (r, b')" and "ae_wake env = None"
    and "\<forall>q. Get (request_name rq) b = Inr q \<longrightarrow> admissible rq q" and "\<forall>n. empty_left n b"
  shows "(rq_method rq \<noteq> ''DELETE'' \<and> (400 \<le> rs_code r \<or> rs_code r = 0 \<or> rq_method rq \<noteq> ''POST'') \<longrightarrow>
      (\<forall>n. n \<noteq> request_name rq \<longrightarrow> all_messages b' n = all_messages b n) \<and>
      rel_option (kept_msgs (ae_now env)) (all_messages b (request_name rq)) (all_messages b' (request_name rq))) \<and>
    (\<exists>L'. L \<subseteq> L' \<and> broker_inv L' b')"
  using serve_invariant [OF assms] by (auto simp: success_def broker_kept_def)

definition sample_env :: api_env where
  "sample_env = \<lparr>ae_io = qio_ok, ae_release = (\<lambda>_. pio_ok), ae_nonces = (\<lambda>_. 77), ae_now = 1000, ae_now2 = 1001, ae_wake = None,
     ae_index = clo_index sample_close, ae_rm = (\<lambda>_. True), ae_create = sample_create, ae_close = sample_close, ae_rmAll = sample_remove,
     ae_static = reply 404 NoBody\<rparr>"

definition sample_rq :: "string \<Rightarrow> string \<Rightarrow> http_req" where
  "sample_rq m p = \<lparr>rq_method = m, rq_path = p, rq_query = (\<lambda>_. []), rq_contentLength = 0, rq_create = None, rq_enqueue = None,
     rq_lease = None, rq_ack = None, rq_nack = None, rq_replay = None\<rparr>"

lemma sample_admissible: "enough (replay_reqs ids d sample_q1) sample_q1"
proof -
  have "with_status (\<lambda>st. st = Dead) (messages sample_q1) = {}"
    by (auto simp: with_status_def sample_enqueue(3) sample_msg_def split: if_splits)
  then have "replay_reqs ids d sample_q1 = []" using replay_lists(2,3) [OF sample_enqueue(2)] by simp
  then show ?thesis using sample_enqueue(7,8) by (simp add: enough_def room_def)
qed

text \<open>A receipt that was never given, sent to the queue that has a message.\<close>

definition stale_ack :: http_req where
  "stale_ack = (sample_rq ''POST'' ''/v1/queues/jobs/ack'')\<lparr>rq_ack := Some sample_receipt\<rparr>"

theorem api_error_changes_nothing_witness:
  "\<exists>r b'. ServeHTTP sample_env stale_ack sample_b2 = (r, b') \<and> rs_code r = 409 \<and>
    (\<exists>M. all_messages b' ''jobs'' = Some M \<and> M 1 = Some sample_msg)"
proof -
  obtain L where L: "broker_inv L sample_b2" using sample_b2_inv by blast
  obtain r b' where s: "ServeHTTP sample_env stale_ack sample_b2 = (r, b')" by force
  have sp: "split_path ''jobs/ack'' = (''jobs'', ''ack'')" by (simp add: split_path_def)
  have g: "Get ''jobs'' sample_b2 = Inr sample_q1" by (simp add: Get_def sample_b2_def)
  have nm: "request_name stale_ack = ''jobs''" by (simp add: request_name_def stale_ack_def sample_rq_def queues_path_def sp)
  have path: "rq_path stale_ack = queues_path @ ''jobs/ack''" by (simp add: stale_ack_def sample_rq_def queues_path_def)
  have cur: "current (messages sample_q1) sample_receipt = None"
    using decode_encode [of 1 1 77 "[]"] by (simp add: current_def sample_receipt_def sample_enqueue(3) sample_msg_def)
  obtain res q' where a: "q_Ack qio_ok sample_receipt sample_q1 = (res, q')" by force
  have "res = Inl ErrBadReceipt" using Ack_spec [OF sample_enqueue(2) a] cur by (simp add: settles_def)
  then have "queue_action sample_env stale_ack ''jobs'' ''ack'' sample_q1 = (q_fail ErrBadReceipt, q')"
    using a by (simp add: queue_action_def api_ack_def stale_ack_def sample_rq_def sample_env_def)
  then have r: "rs_code r = 409"
    using s unfolding serve_queue_path(1) [OF path] queueOp_def serve_queue_path(2) [OF path] sp
    by (auto simp: on_queue_def g stale_ack_def sample_rq_def q_fail_def fail_def)
  have m: "all_messages sample_b2 ''jobs'' = Some [1 \<mapsto> sample_msg]"
    using sample_enqueue(3) by (simp add: all_messages_def sample_b2_def)
  have left: "\<forall>n. empty_left n sample_b2" by (simp add: empty_left_def left_dir_def sample_b2_def sample_b1_def put_queue_def empty_broker_def)
  have adm: "\<forall>q. Get (request_name stale_ack) sample_b2 = Inr q \<longrightarrow> admissible stale_ack q"
    unfolding nm g using sample_admissible by (simp add: stale_ack_def sample_rq_def admissible_def)
  have "rel_option (kept_msgs 1000) (Some [1 \<mapsto> sample_msg]) (all_messages b' ''jobs'')"
    using api_error_changes_nothing [OF L s _ adm left] r nm m by (auto simp: sample_env_def stale_ack_def sample_rq_def)
  then obtain M where M: "all_messages b' ''jobs'' = Some M" "kept_msgs 1000 [1 \<mapsto> sample_msg] M" by (auto simp: option_rel_Some1)
  have "rel_option (kept 1000) (Some sample_msg) (M 1)" using M(2) by (auto simp: kept_msgs_def dest: spec [of _ 1])
  then have "M 1 = Some sample_msg"
    by (auto simp: option_rel_Some1 kept_def a_promote_def sample_msg_def)
  then show ?thesis using s r M(1) by blast
qed

text \<open>C11. A 201 answer to POST \<open>/v1/queues/{q}/messages\<close> means that every item of the request is stored: the
  messages of the batch if the request has any, else the single message of the request itself.  The response lists one new
  id per item, in order, none of them in use before, and the queue has, in addition to what it had, a message under
  each id with the body, priority and delay of its item, enqueued now and with no attempts; a delay
  that is not positive, or that overflows the clock, makes the message ready at once.  No other queue changes.
  As for \<open>Enqueue\<close>, message ids and page ids must be left and no body may be near 4 GiB.\<close>

theorem api_enqueue_stores_all:
  assumes "broker_inv L b" and "rq_path rq = queues_path @ n @ ''/messages''" and "CHR ''/'' \<notin> set n" and "n \<noteq> []"
    and "rq_method rq = ''POST''" and "rq_enqueue rq = Some req"
    and "eq_Messages req \<noteq> [] \<and> items = eq_Messages req \<or> eq_Messages req = [] \<and> items = [eq_item req]"
    and "\<forall>q. Get n b = Inr q \<longrightarrow> enough (map request_of items) q"
    and "ServeHTTP env rq b = (r, b')" and "rs_code r = 201"
  shows "\<exists>ids M. rs_body r = Ids ids \<and> all_messages b n = Some M \<and> length ids = length items \<and> distinct ids \<and> set ids \<inter> dom M = {} \<and>
    all_messages b' = (all_messages b)(n \<mapsto> M ++ map_of (zip ids (map (item_msg (ae_now env)) items)))"
proof (cases "queue_map b n")
  case None
  have "split_path (n @ ''/messages'') = (n, ''messages'')" using split_path_name(1) [OF assms(3), of "''messages''"] by simp
  then have "ServeHTTP env rq b = (fail (QueueErr ErrNoQueue), b)"
    using None assms(4) unfolding serve_queue_path(1) [OF assms(2)] queueOp_def serve_queue_path(2) [OF assms(2)]
    by (simp add: on_queue_def Get_def)
  then show ?thesis using assms(9,10) by (auto simp: fail_def)
next
  case (Some q)
  let ?q = "with_pages (b_pages b) q" and ?rs = "map request_of items"
  have g: "Get n b = Inr ?q" using Some by (simp add: Get_def)
  have it: "api_items req = ?rs" using assms(7) by (auto simp: api_items_def request_of_def)
  obtain res q' where e: "q_Enqueue (ae_io env) (ae_now env) (ae_now2 env) ?rs ?q = (res, q')" by force
  note sm = serve_messages [OF assms(2-4) g assms(5,6) e [folded it]]
  have rb: "r = (case res of Inl x \<Rightarrow> q_fail x | Inr ids \<Rightarrow> reply 201 (Ids ids))" "b' = put_queue n q' b" using sm assms(9) by simp_all
  have "rs_code (q_fail x) \<noteq> 201" for x by (auto simp: q_fail_def fail_def split: queue_error.split)
  then obtain ids where ids: "res = Inr ids" "r = reply 201 (Ids ids)" using rb(1) assms(10) by (cases res) auto
  have n: "enough ?rs ?q" using assms(8) g by blast
  note st = queue_step.enqueue [OF e [unfolded ids(1)] n] and iq = broker_invD(4) [OF assms(1) Some]
  have "messages q' = messages ?q ++ map_of (zip ids (map (item_msg (ae_now env)) items))"
    using Enqueue_spec [OF iq n e] ids(1) by (simp add: enqueued_def new_item comp_def)
  then have "all_messages b' = (all_messages b)(n \<mapsto> messages ?q ++ map_of (zip ids (map (item_msg (ae_now env)) items)))"
    using queue_step_broker(3) [OF assms(1) Some st] rb(2) by simp
  moreover have "all_messages b n = Some (messages ?q)" using Some by (simp add: all_messages_def)
  moreover note Enqueue_ids [OF iq n e [unfolded ids(1)]]
  ultimately show ?thesis using ids(2) by auto
qed

definition sample_items :: "enqueueItem list" where
  "sample_items = [\<lparr>ei_Body = [104, 105], ei_Priority = 7, ei_DelayMs = 0\<rparr>, \<lparr>ei_Body = [33], ei_Priority = 9, ei_DelayMs = 50\<rparr>]"

definition sample_batch :: enqueueReq where
  "sample_batch = \<lparr>eq_item = \<lparr>ei_Body = [], ei_Priority = 0, ei_DelayMs = 0\<rparr>, eq_Messages = sample_items\<rparr>"

definition sample_post :: http_req where
  "sample_post = (sample_rq ''POST'' ''/v1/queues/jobs/messages'')\<lparr>rq_enqueue := Some sample_batch\<rparr>"

lemma sample_b1_inv: "broker_inv {} sample_b1" "all_messages sample_b1 = [''jobs'' \<mapsto> (\<lambda>m. None)]"
proof -
  have "openQueue (cre_release sample_create) 1000 sample_cfg [] NotExist (b_pages empty_broker) = (Inr sample_q0, empty_store [])"
    unfolding open_new_queue by (simp add: sample_q0_def new_queue_def cursor_reset_def empty_broker_def)
  from create_new [OF empty_broker_inv(1) _ this] show "broker_inv {} sample_b1"
    by (simp add: sample_b1_def sample_cfg_def empty_broker_def)
  show "all_messages sample_b1 = [''jobs'' \<mapsto> (\<lambda>m. None)]"
    using sample_q0_facts(2) by (auto simp: all_messages_def sample_b1_def put_queue_def empty_broker_def fun_eq_iff)
qed

lemma sample_two:
  "enough (map request_of sample_items) sample_q0"
  "\<exists>ids q'. q_Enqueue qio_ok 1000 1001 (map request_of sample_items) sample_q0 = (Inr ids, q')"
proof -
  note s = sample_q0_facts
  let ?rs = "map request_of sample_items"
  show en: "enough ?rs sample_q0"
    using s(5) by (simp add: enough_def room_def sample_items_def request_of_def small_def sample_q0_def new_queue_def empty_store_def)
  have "\<forall>r \<in> set ?rs. sint (er_DelayMs r) \<le> sint (maxDelayMs (q_cfg sample_q0))"
    unfolding s(6) by (simp add: sample_items_def request_of_def maxDelayMs_def defaultMaxDelayMs_def sample_cfg_def)
  moreover have "\<not> over_depth (length ?rs) sample_q0"
    by (simp add: over_depth_def sample_items_def sample_q0_def new_queue_def sample_cfg_def newReadyHeap_def rh_Len_def)
  ultimately show "\<exists>ids q'. q_Enqueue qio_ok 1000 1001 ?rs sample_q0 = (Inr ids, q')"
    using Enqueue_succeeds [OF s(1) en ready_appends [OF s(3)] s(4)] by blast
qed

theorem api_enqueue_stores_all_witness:
  "\<exists>r b' i j. ServeHTTP sample_env sample_post sample_b1 = (r, b') \<and> rs_code r = 201 \<and> rs_body r = Ids [i, j] \<and> i \<noteq> j \<and>
    all_messages b' = [''jobs'' \<mapsto> [j \<mapsto> \<lparr>am_payload = [33], am_priority = 9, am_attempts = 0, am_enqueuedAt = 1000, am_status = Later 1050\<rparr>,
      i \<mapsto> sample_msg]]"
proof -
  have path: "rq_path sample_post = queues_path @ ''jobs'' @ ''/messages''" by (simp add: sample_post_def sample_rq_def queues_path_def)
  have rq: "rq_method sample_post = ''POST''" "rq_enqueue sample_post = Some sample_batch" by (simp_all add: sample_post_def sample_rq_def)
  have it: "api_items sample_batch = map request_of sample_items"
    by (simp add: api_items_def sample_batch_def sample_items_def request_of_def)
  obtain ids q' where e: "q_Enqueue qio_ok 1000 1001 (map request_of sample_items) sample_q0 = (Inr ids, q')" using sample_two(2) by blast
  obtain r b' where s: "ServeHTTP sample_env sample_post sample_b1 = (r, b')" by force
  have "r = reply 201 (Ids ids)"
    using serve_messages [OF path _ _ sample_b1_get rq, of sample_env "Inr ids" q'] e s by (simp add: it sample_env_def)
  then have r: "rs_code r = 201" by simp
  have g: "\<forall>q. Get ''jobs'' sample_b1 = Inr q \<longrightarrow> enough (map request_of sample_items) q" using sample_b1_get sample_two(1) by simp
  obtain ids where ids: "rs_body r = Ids ids" "length ids = 2" "distinct ids"
    "all_messages b' = [''jobs'' \<mapsto> map_of (zip ids (map (item_msg 1000) sample_items))]"
    using api_enqueue_stores_all [OF sample_b1_inv(1) path _ _ rq _ g s r] sample_b1_inv(2)
    by (auto simp: sample_batch_def sample_items_def sample_env_def)
  obtain i j where ij: "ids = [i, j]" using ids(2) by (auto simp: numeral_2_eq_2 length_Suc_conv)
  have m: "map (item_msg 1000) sample_items = [sample_msg,
    \<lparr>am_payload = [33], am_priority = 9, am_attempts = 0, am_enqueuedAt = 1000, am_status = Later 1050\<rparr>]"
    by (simp add: sample_items_def item_msg_def sample_msg_def)
  show ?thesis using s r ids(1,3,4) unfolding m ij by auto
qed

end
