(* ===== verification/Committer.thy ===== *)
theory Committer
  imports Queue_Props
begin

text \<open>
  The goroutine that commits for all callers (\<open>runCommitter\<close>): it never drops a request, also not when the queue
  is closed, and the ranges of log sequence numbers it hands out do not overlap.
\<close>

fun requests :: "(commit_io \<times> committer_event) list \<Rightarrow> commitRequest list" where
  "requests [] = []"
| "requests ((io, ReqEvent r) # evs) = r # requests evs"
| "requests ((io, TickEvent) # evs) = requests evs"
| "requests ((io, StopEvent rs) # evs) = rs"

definition stops :: "(commit_io \<times> committer_event) list \<Rightarrow> bool" where
  "stops evs \<longleftrightarrow> (\<exists>io rs. (io, StopEvent rs) \<in> set evs)"

definition nrecs :: "commitRequest list \<Rightarrow> nat" where
  "nrecs rs = sum_list (map (length \<circ> cq_walRecs) rs)"

definition answered :: "commitRequest \<Rightarrow> commitResult \<Rightarrow> bool" where
  "answered r a \<longleftrightarrow>
    (if cr_err a = None \<and> cq_walRecs r \<noteq> []
     then 0 < unat (cr_firstLSN a) \<and> unat (cr_lastLSN a) + 1 = unat (cr_firstLSN a) + length (cq_walRecs r)
     else cr_firstLSN a = 0 \<and> cr_lastLSN a = 0)"

definition granted_ranges :: "commitResult list \<Rightarrow> commitResult list" where
  "granted_ranges res = filter (\<lambda>a. cr_firstLSN a \<noteq> 0) res"

text \<open>The ranges of \<open>res\<close> lie in order between the two bounds.\<close>

definition ranges_in :: "nat \<Rightarrow> commitResult list \<Rightarrow> nat \<Rightarrow> bool" where
  "ranges_in lo res hi \<longleftrightarrow> lo \<le> hi \<and> (\<forall>a \<in> set (granted_ranges res). lo < unat (cr_firstLSN a) \<and> unat (cr_lastLSN a) \<le> hi) \<and>
     sorted_wrt (\<lambda>a b. unat (cr_lastLSN a) < unat (cr_firstLSN b)) (granted_ranges res)"

lemma ranges_none: "lo \<le> hi \<Longrightarrow> \<forall>a \<in> set res. cr_firstLSN a = 0 \<Longrightarrow> ranges_in lo res hi"
  by (simp add: ranges_in_def granted_ranges_def filter_False)

lemma ranges_append:
  assumes "ranges_in lo res mid" "ranges_in mid res' hi"
  shows "ranges_in lo (res @ res') hi"
proof -
  have 1: "lo \<le> mid" "mid \<le> hi" "\<forall>a \<in> set (granted_ranges res). lo < unat (cr_firstLSN a) \<and> unat (cr_lastLSN a) \<le> mid"
    "\<forall>a \<in> set (granted_ranges res'). mid < unat (cr_firstLSN a) \<and> unat (cr_lastLSN a) \<le> hi"
    using assms by (simp_all add: ranges_in_def)
  have g: "granted_ranges (res @ res') = granted_ranges res @ granted_ranges res'" by (simp add: granted_ranges_def)
  have "\<forall>a \<in> set (granted_ranges res). \<forall>b \<in> set (granted_ranges res'). unat (cr_lastLSN a) < unat (cr_firstLSN b)"
    using 1 by (meson le_less_trans)
  then have "sorted_wrt (\<lambda>a b. unat (cr_lastLSN a) < unat (cr_firstLSN b)) (granted_ranges (res @ res'))"
    using assms unfolding g sorted_wrt_append by (simp add: ranges_in_def)
  moreover have "\<forall>a \<in> set (granted_ranges (res @ res')). lo < unat (cr_firstLSN a) \<and> unat (cr_lastLSN a) \<le> hi"
  proof
    fix a assume "a \<in> set (granted_ranges (res @ res'))"
    then have "a \<in> set (granted_ranges res) \<or> a \<in> set (granted_ranges res')" unfolding g by simp
    then show "lo < unat (cr_firstLSN a) \<and> unat (cr_lastLSN a) \<le> hi" using 1 by (meson le_less_trans order_trans)
  qed
  ultimately show ?thesis using 1(1,2) by (simp add: ranges_in_def)
qed

section \<open>One flush\<close>

lemma answer_error:
  "answer_loop (Some e) a rs c = (res, c') \<Longrightarrow> list_all2 answered rs res \<and> (\<forall>r \<in> set res. cr_firstLSN r = 0)"
  by (induction rs arbitrary: a c res c') (auto simp: answered_def split: prod.splits)

lemma answer_ok:
  assumes "unat a + nrecs rs < 2 ^ 64" "answer_loop None a rs c = (res, c')"
  shows "list_all2 answered rs res \<and> ranges_in (unat a) res (unat a + nrecs rs)"
  using assms
proof (induction rs arbitrary: a c res c')
  case Nil
  then show ?case by (simp add: ranges_none nrecs_def)
next
  case (Cons r rs)
  let ?n = "length (cq_walRecs r)"
  have n: "nrecs (r # rs) = ?n + nrecs rs" by (simp add: nrecs_def)
  show ?case
  proof (cases "cq_walRecs r = []")
    case True
    then obtain res1 where r1: "answer_loop None a rs c = (res1, c')" "res = \<lparr>cr_firstLSN = 0, cr_lastLSN = 0, cr_err = None\<rparr> # res1"
      using Cons.prems(2) by (auto split: prod.splits)
    have "list_all2 answered rs res1 \<and> ranges_in (unat a) res1 (unat a + nrecs rs)"
      using Cons.IH [OF _ r1(1)] Cons.prems(1) n by simp
    moreover have "answered r \<lparr>cr_firstLSN = 0, cr_lastLSN = 0, cr_err = None\<rparr>" using True by (simp add: answered_def)
    ultimately show ?thesis using True n unfolding r1(2) by (simp add: ranges_in_def granted_ranges_def)
  next
    case False
    let ?last = "a + word_of_nat ?n"
    obtain c1 res1 where r1: "answer_loop None ?last rs c1 = (res1, c')"
      "res = \<lparr>cr_firstLSN = a + 1, cr_lastLSN = ?last, cr_err = None\<rparr> # res1"
      using Cons.prems(2) False by (auto simp: Let_def split: prod.splits)
    have pos: "0 < ?n" using False by simp
    have ul: "unat ?last = unat a + ?n" using unat_lsn_add [of a ?n] Cons.prems(1) n by simp
    have "unat a + 1 < 2 ^ 64" using Cons.prems(1) n pos by linarith
    then have uf: "unat (a + 1) = unat a + 1" using unat_lsn_add [of a 1] by simp
    have IH: "list_all2 answered rs res1 \<and> ranges_in (unat ?last) res1 (unat ?last + nrecs rs)"
      using Cons.IH [OF _ r1(1)] Cons.prems(1) n ul by simp
    have nz: "a + 1 \<noteq> 0" using uf by auto
    have "ranges_in (unat a) [\<lparr>cr_firstLSN = a + 1, cr_lastLSN = ?last, cr_err = None\<rparr>] (unat ?last)"
      using ul uf nz by (simp add: ranges_in_def granted_ranges_def)
    from ranges_append [OF this conjunct2 [OF IH]] have "ranges_in (unat a) res (unat a + nrecs (r # rs))"
      unfolding r1(2) n ul by (simp add: add.assoc)
    moreover have "answered r \<lparr>cr_firstLSN = a + 1, cr_lastLSN = ?last, cr_err = None\<rparr>"
      using False ul uf pos by (simp add: answered_def)
    ultimately show ?thesis using IH unfolding r1(2) by simp
  qed
qed

lemma encode_all_bounds:
  "unat l + length rs < 2 ^ 64 \<Longrightarrow> encode_all l rs = (l', x) \<Longrightarrow> unat l \<le> unat l' \<and> unat l' \<le> unat l + length rs"
proof (induction rs arbitrary: l l' x)
  case (Cons r rs)
  have s: "unat (l + 1) = unat l + 1" using unat_lsn_add [of l 1] Cons.prems(1) by simp
  have "l' = l + 1 \<or> (\<exists>y. encode_all (l + 1) rs = (l', y))"
    using Cons.prems(2) by (auto split: sum.splits prod.splits)
  moreover have "unat (l + 1) \<le> unat l' \<and> unat l' \<le> unat (l + 1) + length rs" if "encode_all (l + 1) rs = (l', y)" for y
    by (rule Cons.IH [OF _ that]) (use Cons.prems(1) s in simp)
  ultimately show ?case using s by auto
qed simp

lemma flush_lsn: "w_lsn (snd (flush io batch w)) = w_lsn w"
proof -
  have "w_lsn (snd (maybeRotate io l v)) = w_lsn v" for l v
    by (auto simp: maybeRotate_def openNewSegment_def Let_def)
  then have "maybeRotate io l v = (ok, v') \<Longrightarrow> w_lsn v' = w_lsn v" for l v ok v' by (metis snd_conv)
  then show ?thesis by (auto simp: flush_def Let_def split: prod.split bool.split)
qed

lemma append_lsn:
  assumes "AppendBatch io w recs = (res, w')" "unat (w_lsn w) + length recs < 2 ^ 64"
  shows "unat (w_lsn w) \<le> unat (w_lsn w') \<and> unat (w_lsn w') \<le> unat (w_lsn w) + length recs \<and>
    (\<forall>l. res = Inr l \<and> recs \<noteq> [] \<longrightarrow> l = w_lsn w + word_of_nat (length recs) \<and> w_lsn w' = l)"
proof (cases "recs = [] \<or> w_closed w")
  case True
  then show ?thesis using assms(1) by (auto simp: AppendBatch_def append_encode_def split: if_splits)
next
  case False
  obtain l x where e: "encode_all (w_lsn w) recs = (l, x)" by force
  note b = encode_all_bounds [OF assms(2) e]
  show ?thesis
  proof (cases x)
    case (Inl err)
    then have "res = Inl (EncodeErr err)" "w_lsn w' = l" using assms(1) False e by (auto simp: AppendBatch_def append_encode_def)
    then show ?thesis using b by simp
  next
    case (Inr bs)
    obtain ok w2 where f: "flush io [\<lparr>pw_data = bs, pw_lsn = l\<rparr>] (w\<lparr>w_lsn := l\<rparr>) = (ok, w2)" by force
    have r: "res = (if ok then Inr l else Inl append_error.IOErr)" "w' = w2"
      using assms(1) False e Inr f by (auto simp: AppendBatch_def append_encode_def split: bool.splits)
    have "w_lsn w2 = l" using flush_lsn [of io "[\<lparr>pw_data = bs, pw_lsn = l\<rparr>]" "w\<lparr>w_lsn := l\<rparr>"] f by simp
    then show ?thesis using b r encode_all_correct [OF e [unfolded Inr]] by (auto split: if_splits)
  qed
qed

lemma length_concat_recs: "length (concat (map cq_walRecs batch)) = nrecs batch"
  by (simp add: nrecs_def length_concat comp_def)

lemma flush_ranges:
  assumes f: "commit_flush io batch q = (res, q')" and n: "unat (w_lsn (q_wal q)) + nrecs batch < 2 ^ 64"
  shows "list_all2 answered batch res \<and> ranges_in (unat (w_lsn (q_wal q))) res (unat (w_lsn (q_wal q'))) \<and>
    unat (w_lsn (q_wal q')) \<le> unat (w_lsn (q_wal q)) + nrecs batch"
proof (cases "batch = []")
  case True
  then show ?thesis using f by (simp add: commit_flush_def ranges_none nrecs_def)
next
  case ne: False
  define recs where "recs = concat (map cq_walRecs batch)"
  define synced where "synced = store_Sync (ci_fsync io) (dedup_pages [] (concat (map cq_payloadRefs batch))) (q_pages q)"
  obtain a w where ap: "AppendBatch (ci_wal io) (q_wal q) recs = (a, w)" by force
  have len: "length recs = nrecs batch" unfolding recs_def by (rule length_concat_recs)
  have l: "unat (w_lsn (q_wal q)) \<le> unat (w_lsn w)" "unat (w_lsn w) \<le> unat (w_lsn (q_wal q)) + nrecs batch"
    "\<And>x. a = Inr x \<Longrightarrow> recs \<noteq> [] \<Longrightarrow> x = w_lsn (q_wal q) + word_of_nat (nrecs batch) \<and> w_lsn w = x"
    using append_lsn [OF ap] n unfolding len by blast+
  have err: ?thesis if e: "answer_loop (Some x) as batch (q_apply q) = (res, c)" and w: "q_wal q' = q_wal q \<or> q_wal q' = w" for x as c
    using answer_error [OF e] l(1,2) w by (auto intro: ranges_none)
  show ?thesis
  proof (cases "synced \<and> (\<exists>x. a = Inr x)")
    case False
    then obtain x as c where "answer_loop (Some x) as batch (q_apply q) = (res, c)" "q_wal q' = q_wal q \<or> q_wal q' = w"
      using f ne ap unfolding commit_flush_def Let_def recs_def [symmetric] synced_def [symmetric]
      by (cases a) (auto split: prod.splits if_splits)
    then show ?thesis by (rule err)
  next
    case True
    then obtain x where x: "a = Inr x" "synced" by blast
    define as where "as = (if recs \<noteq> [] then x - word_of_nat (length recs) else x)"
    obtain c where ans: "answer_loop None as batch (q_apply q) = (res, c)" and w: "q_wal q' = w"
      using f ne ap x unfolding commit_flush_def Let_def recs_def [symmetric] synced_def [symmetric] as_def
      by (auto split: prod.splits if_splits)
    show ?thesis
    proof (cases "recs = []")
      case True
      then have z: "nrecs batch = 0" using len by simp
      then have "unat as + nrecs batch < 2 ^ 64" using unsigned_less [of as] by simp
      note ok = answer_ok [OF this ans]
      have "\<forall>r \<in> set batch. cq_walRecs r = []" using True by (simp add: recs_def)
      with conjunct1 [OF ok] have "\<forall>r \<in> set res. cr_firstLSN r = 0"
        by (induction batch res rule: list_all2_induct) (auto simp: answered_def)
      then show ?thesis using ok l w by (auto intro: ranges_none)
    next
      case False
      then have "as = w_lsn (q_wal q)" "unat (w_lsn w) = unat (w_lsn (q_wal q)) + nrecs batch"
        using l(3) [OF x(1) False] len unat_lsn_add [of "w_lsn (q_wal q)" "nrecs batch"] n by (simp_all add: as_def)
      then show ?thesis using answer_ok [OF _ ans] n w by simp
    qed
  qed
qed

section \<open>The whole run\<close>

lemma nrecs_append: "nrecs (a @ b) = nrecs a + nrecs b"
  by (simp add: nrecs_def)

lemma run_ranges:
  assumes "runCommitter evs batch q = (res, left, q')" "unat (w_lsn (q_wal q)) + nrecs (batch @ requests evs) < 2 ^ 64"
  shows "(stops evs \<longrightarrow> left = []) \<and> (\<exists>ans. batch @ requests evs = ans @ left \<and> list_all2 answered ans res) \<and>
    ranges_in (unat (w_lsn (q_wal q))) res (unat (w_lsn (q_wal q')))"
  using assms
proof (induction evs batch q arbitrary: res left q' rule: runCommitter.induct)
  case (1 batch q)
  then show ?case by (auto simp: stops_def ranges_none)
next
  case (2 io r evs batch q)
  have st: "stops ((io, ReqEvent r) # evs) = stops evs" by (auto simp: stops_def)
  show ?case
  proof (cases "commitBatchSize \<le> length (batch @ [r])")
    case False
    have c: "runCommitter evs (batch @ [r]) q = (res, left, q')" using "2.prems"(1) False by (simp add: Let_def)
    show ?thesis using "2.IH"(2) [OF refl False c] "2.prems"(2) st by simp
  next
    case True
    obtain res1 q1 where f: "commit_flush io (batch @ [r]) q = (res1, q1)" by force
    obtain res2 where c: "runCommitter evs [] q1 = (res2, left, q')" "res = res1 @ res2"
      using "2.prems"(1) True f by (auto simp: Let_def split: prod.splits)
    have n: "nrecs (batch @ requests ((io, ReqEvent r) # evs)) = nrecs (batch @ [r]) + nrecs (requests evs)" by (simp add: nrecs_def)
    have fl: "list_all2 answered (batch @ [r]) res1" "ranges_in (unat (w_lsn (q_wal q))) res1 (unat (w_lsn (q_wal q1)))"
      "unat (w_lsn (q_wal q1)) \<le> unat (w_lsn (q_wal q)) + nrecs (batch @ [r])"
      using flush_ranges [OF f] "2.prems"(2) unfolding n by auto
    have IH: "(stops evs \<longrightarrow> left = []) \<and> (\<exists>ans. [] @ requests evs = ans @ left \<and> list_all2 answered ans res2) \<and>
        ranges_in (unat (w_lsn (q_wal q1))) res2 (unat (w_lsn (q_wal q')))"
      by (rule "2.IH"(1) [OF refl True f [symmetric] c(1)]) (use fl(3) "2.prems"(2) n in simp)
    then obtain ans where d: "requests evs = ans @ left" "list_all2 answered ans res2" by auto
    have "list_all2 answered ((batch @ [r]) @ ans) res" unfolding c(2) by (rule list_all2_appendI [OF fl(1) d(2)])
    moreover have "batch @ requests ((io, ReqEvent r) # evs) = ((batch @ [r]) @ ans) @ left" using d(1) by simp
    ultimately show ?thesis using IH ranges_append [OF fl(2)] st unfolding c(2) by blast
  qed
next
  case (3 io evs batch q)
  have st: "stops ((io, TickEvent) # evs) = stops evs" by (auto simp: stops_def)
  obtain res1 q1 where f: "commit_flush io batch q = (res1, q1)" by force
  obtain res2 where c: "runCommitter evs [] q1 = (res2, left, q')" "res = res1 @ res2"
    using "3.prems"(1) f by (auto split: prod.splits)
  have fl: "list_all2 answered batch res1" "ranges_in (unat (w_lsn (q_wal q))) res1 (unat (w_lsn (q_wal q1)))"
    "unat (w_lsn (q_wal q1)) \<le> unat (w_lsn (q_wal q)) + nrecs batch"
    using flush_ranges [OF f] "3.prems"(2) by (auto simp: nrecs_append)
  have IH: "(stops evs \<longrightarrow> left = []) \<and> (\<exists>ans. [] @ requests evs = ans @ left \<and> list_all2 answered ans res2) \<and>
      ranges_in (unat (w_lsn (q_wal q1))) res2 (unat (w_lsn (q_wal q')))"
    by (rule "3.IH" [OF f [symmetric] c(1)]) (use fl(3) "3.prems"(2) in \<open>simp add: nrecs_append\<close>)
  then obtain ans where d: "requests evs = ans @ left" "list_all2 answered ans res2" by auto
  have "list_all2 answered (batch @ ans) res" unfolding c(2) by (rule list_all2_appendI [OF fl(1) d(2)])
  then show ?case using IH ranges_append [OF fl(2)] st d(1) unfolding c(2) by auto
next
  case (4 io rs evs batch q)
  obtain res1 q1 where f: "commit_flush io (batch @ rs) q = (res1, q1)" by force
  then have "res = res1" "left = []" "q' = q1" using "4.prems"(1) by auto
  then show ?case using flush_ranges [OF f] "4.prems"(2) by simp
qed

section \<open>Property\<close>

text \<open>C12. The committer answers every request exactly once and in order, for any arrival of requests, timer ticks and
  failures of the fsync and the log, and when it is stopped nothing is left waiting, not even the requests
  that arrive with the stop.  A request whose commit succeeds gets a range of log sequence numbers of the
  size of its records, and the ranges are disjoint and increase in the order of the requests.\<close>

theorem committer_answers_every_request:
  assumes "unat (w_lsn (q_wal q)) + nrecs (requests evs) < 2 ^ 64" and "stops evs" and "runCommitter evs [] q = (res, left, q')"
  shows "left = [] \<and> list_all2 answered (requests evs) res \<and>
    sorted_wrt (\<lambda>a b. unat (cr_lastLSN a) < unat (cr_firstLSN b)) (granted_ranges res)"
  using run_ranges [OF assms(3)] assms(1,2) by (auto simp: ranges_in_def)

definition sample_commit :: commitRequest where
  "sample_commit = \<lparr>cq_payloadRefs = [], cq_walRecs = [ack_record 1 77]\<rparr>"

theorem committer_answers_every_request_witness:
  "\<exists>res q'. runCommitter [(cio_ok, ReqEvent sample_commit), (cio_ok, StopEvent [sample_commit])] [] sample_q0 = (res, [], q') \<and>
    length res = 2"
proof -
  let ?evs = "[(cio_ok, ReqEvent sample_commit), (cio_ok, StopEvent [sample_commit])]"
  obtain res left q' where r: "runCommitter ?evs [] sample_q0 = (res, left, q')" by (metis prod_cases3)
  have "w_lsn (q_wal sample_q0) = 0" by (simp add: sample_q0_def new_queue_def wal_Open_def openNewSegment_def Let_def)
  then have n: "unat (w_lsn (q_wal sample_q0)) + nrecs (requests ?evs) < 2 ^ 64" by (simp add: nrecs_def sample_commit_def)
  have s: "stops ?evs" by (auto simp: stops_def)
  have "left = []" "list_all2 answered (requests ?evs) res" using committer_answers_every_request [OF n s r] by blast+
  then show ?thesis using r by (auto dest: list_all2_lengthD)
qed

end
