(* ===== verification/Queue_Recover.thy ===== *)
theory Queue_Recover
  imports Broker_Inv
begin

text \<open>
  Recovery of a queue from its checkpoint when the log has nothing more to replay, as after an orderly
  shutdown: the volatile structures are rebuilt from the index, and the messages are the same except that
  leases end (unless leases are durable and still run).
\<close>

section \<open>Ending leases\<close>

definition keeps_lease :: "Config \<Rightarrow> i64 \<Rightarrow> Slot \<Rightarrow> bool" where
  "keeps_lease cfg now s \<longleftrightarrow> cfg_DurableLeases cfg \<and> sint now < sint (s_LeaseUntilMs s) \<and> s_LeaseNonce s \<noteq> 0"

definition demoted :: "Config \<Rightarrow> i64 \<Rightarrow> Slot \<Rightarrow> Slot" where
  "demoted cfg now s = (if s_State s = StateInflight \<and> \<not> keeps_lease cfg now s then unleased StateReady s else s)"

lemma idx_put_index [simp]:
  "CheckpointLSN (q_idx (idx_put r s q)) = CheckpointLSN (q_idx q)" "index_inv (q_idx q) \<Longrightarrow> index_inv (q_idx (idx_put r s q))"
  "(idx_put r s q)\<lparr>q_idx := i\<rparr> = q\<lparr>q_idx := i\<rparr>"
  by (auto simp: idx_put_def CheckpointLSN_def Put_def index_inv_def set_alist_update)

lemma demote_loop_spec:
  assumes "distinct (map fst es)" "\<forall>(r, s) \<in> set es. q_slots q r = Some s" "index_inv (q_idx q)"
  shows "\<exists>i. demote_loop now es q = q\<lparr>q_idx := i\<rparr> \<and> index_inv i \<and> CheckpointLSN i = CheckpointLSN (q_idx q) \<and>
    slots i = (\<lambda>r. if r \<in> fst ` set es then map_option (demoted (q_cfg q) now) (q_slots q r) else q_slots q r)"
  using assms
proof (induction es arbitrary: q)
  case Nil
  then show ?case by (intro exI [of _ "q_idx q"]) simp
next
  case (Cons e es)
  obtain r s where e: "e = (r, s)" by force
  have s: "q_slots q r = Some s" using Cons.prems(2) e by simp
  define q1 where "q1 = (if s_State s = StateInflight \<and> \<not> keeps_lease (q_cfg q) now s then idx_put r (unleased StateReady s) q else q)"
  have 1: "demote_loop now (e # es) q = demote_loop now es q1" by (simp add: e q1_def keeps_lease_def)
  have sl1: "q_slots q1 = (q_slots q)(r \<mapsto> demoted (q_cfg q) now s)"
    using s by (auto simp: q1_def demoted_def)
  have q1: "q_cfg q1 = q_cfg q" "index_inv (q_idx q1)" "CheckpointLSN (q_idx q1) = CheckpointLSN (q_idx q)"
    "\<And>i. q1\<lparr>q_idx := i\<rparr> = q\<lparr>q_idx := i\<rparr>"
    using Cons.prems(3) by (auto simp: q1_def)
  have "\<forall>(x, y) \<in> set es. q_slots q1 x = Some y" using Cons.prems(1,2) e by (auto simp: sl1 rev_image_eqI)
  from Cons.IH [OF _ this q1(2)] Cons.prems(1) obtain i where i: "demote_loop now es q1 = q\<lparr>q_idx := i\<rparr>" "index_inv i"
    "CheckpointLSN i = CheckpointLSN (q_idx q)"
    "slots i = (\<lambda>x. if x \<in> fst ` set es then map_option (demoted (q_cfg q) now) (q_slots q1 x) else q_slots q1 x)"
    unfolding q1(1,3,4) by auto
  have "slots i = (\<lambda>x. if x \<in> fst ` set (e # es) then map_option (demoted (q_cfg q) now) (q_slots q x) else q_slots q x)"
    using Cons.prems(1) e s unfolding i(4) sl1 by (auto simp: fun_eq_iff)
  then show ?case using i(1-3) unfolding 1 by blast
qed

section \<open>Rebuilding the structures\<close>

definition restored :: "Slot \<Rightarrow> Slot" where
  "restored s = (if s_State s = StateDead then unleased StateDead s else s)"

lemma restored_fields [simp]:
  "s_MsgID (restored s) = s_MsgID s" "s_State (restored s) = s_State s" "s_PayloadRef (restored s) = s_PayloadRef s"
  "s_PayloadLen (restored s) = s_PayloadLen s"
  by (simp_all add: restored_def unleased_def)

lemma body_restored [simp]: "body p (restored s) = body p s"
  unfolding body_def restored_fields ..

lemma core_bump:
  assumes "core_inv {#} {#} {#} {} {#} sl q"
  shows "core_inv {#} {#} {#} {} {#} sl (bumpMsgID v q)" "v \<le> q_nextMsgID (bumpMsgID v q)"
proof -
  note c = core_invD [OF assms]
  show "v \<le> q_nextMsgID (bumpMsgID v q)" by (simp add: bumpMsgID_def)
  have "ids_ok (q_nextMsgID (bumpMsgID v q)) sl"
  proof (rule ids_okI)
    fix r s assume s: "sl r = Some s"
    show "s_MsgID s \<noteq> 0 \<and> s_MsgID s \<le> q_nextMsgID (bumpMsgID v q) \<and> s_State s \<in> {StateReady, StateDelayed, StateInflight, StateDead}"
      using ids_okD(1-3) [OF c(2) s] by (auto simp: bumpMsgID_def)
    show "r = r'" if "sl r' = Some s'" "s_MsgID s = s_MsgID s'" for r' s' using ids_okD(4) [OF c(2) that(1) s that(2)] .
  qed
  then show "core_inv {#} {#} {#} {} {#} sl (bumpMsgID v q)"
    using c by (simp add: core_inv_def bumpMsgID_def shape_inv_def q_dir_def ready_view_def dead_view_def)
qed

definition dead_letter :: "Store \<Rightarrow> u64 \<Rightarrow> Slot \<Rightarrow> DeadMessage" where
  "dead_letter p r s = (dead_key r s)\<lparr>dm_Payload := body p s\<rparr>"

text \<open>One entry of the index is put into its structure.\<close>

lemma restore_one_spec:
  assumes c: "core_inv {#} {#} {#} {} {#} sl q" and f: "fresh_id r sl (s_MsgID s) q" and s: "q_slots q r = Some s"
    and st: "s_State s \<in> {StateReady, StateDelayed, StateInflight, StateDead}"
    and p: "s_State s = StateDead \<Longrightarrow> readPayloadLocked s q = Some (body (q_pages q) s)"
  shows "\<exists>q'. restore_one now r s q = Some q' \<and> core_inv {#} {#} {#} {} {#} (sl(r \<mapsto> restored s)) q' \<and>
    q_slots q' = (q_slots q)(r \<mapsto> restored s) \<and> q_pages q' = q_pages q \<and> q_cfg q' = q_cfg q \<and> q_wal q' = q_wal q \<and>
    CheckpointLSN (q_idx q') = CheckpointLSN (q_idx q) \<and>
    q_dead q' = q_dead q @ (if s_State s = StateDead then [dead_letter (q_pages q) r s] else [])"
proof -
  have same: "(q_slots q)(r \<mapsto> s) = q_slots q" using s by (rule fun_upd_idem)
  consider "s_State s = StateReady" | "s_State s = StateDelayed" | "s_State s = StateInflight" | "s_State s = StateDead" using st by blast
  then show ?thesis
  proof cases
    case 1
    then show ?thesis
      using insert_ready [OF c f 1 refl refl refl, of now] same by (simp add: restore_one_def restored_def ready_push_def)
  next
    case 2
    then show ?thesis
      using insert_delayed [OF c f 2] same by (simp add: restore_one_def restored_def delayed_key_def)
  next
    case 3
    then show ?thesis
      using insert_lease [OF c f 3] same by (simp add: restore_one_def restored_def lease_key_def lease_of_def)
  next
    case 4
    have new: "\<not> (\<exists>d \<in> set (q_dead q). dm_ID d = s_MsgID s)"
    proof
      assume "\<exists>d \<in> set (q_dead q). dm_ID d = s_MsgID s"
      then obtain d where d: "d \<in> set (q_dead q)" "dm_ID d = s_MsgID s" by blast
      obtain x y where "sl x = Some y" "s_MsgID y = dm_ID d" by (rule dead_ids [OF c d(1)])
      then show False using f d(2) by (metis fresh_id_def)
    qed
    let ?q1 = "q\<lparr>q_dead := q_dead q @ [dead_letter (q_pages q) r s]\<rparr>"
    have dl: "deadLetterLocked s r (body (q_pages q) s) q = idx_put r (restored s) ?q1"
      using new 4 by (auto simp: deadLetterLocked_def dead_letter_def dead_key_def restored_def)
    have "core_inv {#} {#} {#} {} {#} (sl(r \<mapsto> restored s)) ?q1"
      by (rule insert_dead [OF c])
        (use f 4 in \<open>simp_all add: dead_letter_def dead_key_def restored_def unleased_def\<close>)
    then have "core_inv {#} {#} {#} {} {#} (sl(r \<mapsto> restored s)) (idx_put r (restored s) ?q1)" by (rule core_idx_put)
    moreover have "restore_one now r s q = Some (idx_put r (restored s) ?q1)" using 4 p dl by (simp add: restore_one_def)
    ultimately show ?thesis using 4 by simp
  qed
qed

lemma restore_loop_spec:
  assumes "core_inv {#} {#} {#} {} {#} sl q" "distinct (map fst es)" "distinct (map (s_MsgID \<circ> snd) es)"
    "\<forall>(r, s) \<in> set es. q_slots q r = Some s \<and> sl r = None \<and> s_MsgID s \<noteq> 0 \<and> (\<forall>x y. sl x = Some y \<longrightarrow> s_MsgID y \<noteq> s_MsgID s) \<and>
       s_State s \<in> {StateReady, StateDelayed, StateInflight, StateDead}"
    "\<forall>(r, s) \<in> set es. s_State s = StateDead \<longrightarrow> (\<forall>q'. q_pages q' = q_pages q \<longrightarrow> readPayloadLocked s q' = Some (body (q_pages q) s))"
  shows "\<exists>q'. restore_loop now es q = Some q' \<and> core_inv {#} {#} {#} {} {#} (sl ++ map_of (map (\<lambda>(r, s). (r, restored s)) es)) q' \<and>
    q_slots q' = q_slots q ++ map_of (map (\<lambda>(r, s). (r, restored s)) es) \<and> q_pages q' = q_pages q \<and> q_cfg q' = q_cfg q \<and>
    q_wal q' = q_wal q \<and> CheckpointLSN (q_idx q') = CheckpointLSN (q_idx q) \<and>
    set (q_dead q') = set (q_dead q) \<union> {dead_letter (q_pages q) r s | r s. (r, s) \<in> set es \<and> s_State s = StateDead}"
  using assms
proof (induction es arbitrary: sl q)
  case Nil
  then show ?case by simp
next
  case (Cons e es)
  obtain r s where e: "e = (r, s)" by force
  let ?q0 = "bumpMsgID (s_MsgID s) q"
  have same: "q_slots ?q0 = q_slots q" "q_pages ?q0 = q_pages q" "q_cfg ?q0 = q_cfg q" "q_wal ?q0 = q_wal q" "q_idx ?q0 = q_idx q" "q_dead ?q0 = q_dead q"
    by (simp_all add: bumpMsgID_def)
  note b = core_bump [OF Cons.prems(1), of "s_MsgID s"]
  have h: "q_slots q r = Some s" "sl r = None" "s_MsgID s \<noteq> 0" "\<forall>x y. sl x = Some y \<longrightarrow> s_MsgID y \<noteq> s_MsgID s"
    "s_State s \<in> {StateReady, StateDelayed, StateInflight, StateDead}"
    using Cons.prems(4) e by auto
  have f: "fresh_id r sl (s_MsgID s) ?q0" using h b(2) by (simp add: fresh_id_def)
  have p: "s_State s = StateDead \<Longrightarrow> readPayloadLocked s ?q0 = Some (body (q_pages ?q0) s)"
    using Cons.prems(5) e same(2) by auto
  obtain q1 where q1: "restore_one now r s ?q0 = Some q1" "core_inv {#} {#} {#} {} {#} (sl(r \<mapsto> restored s)) q1"
    "q_slots q1 = (q_slots q)(r \<mapsto> restored s)" "q_pages q1 = q_pages q" "q_cfg q1 = q_cfg q" "q_wal q1 = q_wal q"
    "CheckpointLSN (q_idx q1) = CheckpointLSN (q_idx q)"
    "q_dead q1 = q_dead q @ (if s_State s = StateDead then [dead_letter (q_pages q) r s] else [])"
    using restore_one_spec [OF b(1) f h(1) [folded same(1)] h(5) p, of now] unfolding same by blast
  have out: "x \<noteq> r" "s_MsgID y \<noteq> s_MsgID s" if "(x, y) \<in> set es" for x y
    using Cons.prems(2,3) that e by (auto simp: rev_image_eqI)
  have 4: "\<forall>(x, y) \<in> set es. q_slots q1 x = Some y \<and> (sl(r \<mapsto> restored s)) x = None \<and> s_MsgID y \<noteq> 0 \<and>
      (\<forall>u v. (sl(r \<mapsto> restored s)) u = Some v \<longrightarrow> s_MsgID v \<noteq> s_MsgID y) \<and> s_State y \<in> {StateReady, StateDelayed, StateInflight, StateDead}"
  proof (intro ballI, clarify)
    fix x y assume xy: "(x, y) \<in> set es"
    have "q_slots q x = Some y" "sl x = None" "s_MsgID y \<noteq> 0" "\<forall>u v. sl u = Some v \<longrightarrow> s_MsgID v \<noteq> s_MsgID y"
      "s_State y \<in> {StateReady, StateDelayed, StateInflight, StateDead}"
      using Cons.prems(4) xy by auto
    then show "q_slots q1 x = Some y \<and> (sl(r \<mapsto> restored s)) x = None \<and> s_MsgID y \<noteq> 0 \<and>
      (\<forall>u v. (sl(r \<mapsto> restored s)) u = Some v \<longrightarrow> s_MsgID v \<noteq> s_MsgID y) \<and> s_State y \<in> {StateReady, StateDelayed, StateInflight, StateDead}"
      using out [OF xy] q1(3) by auto
  qed
  have 5: "\<forall>(x, y) \<in> set es. s_State y = StateDead \<longrightarrow> (\<forall>q'. q_pages q' = q_pages q1 \<longrightarrow> readPayloadLocked y q' = Some (body (q_pages q1) y))"
    using Cons.prems(5) unfolding q1(4) by auto
  have rr: "r \<notin> dom (map_of (map (\<lambda>(r, s). (r, restored s)) es))"
    using Cons.prems(2) e by (auto simp: dom_map_of_conv_image_fst image_image case_prod_beta)
  have d: "distinct (map fst es)" "distinct (map (s_MsgID \<circ> snd) es)" using Cons.prems(2,3) by (simp_all add: comp_def)
  obtain q' where q': "restore_loop now es q1 = Some q'"
    "core_inv {#} {#} {#} {} {#} (sl(r \<mapsto> restored s) ++ map_of (map (\<lambda>(r, s). (r, restored s)) es)) q'"
    "q_slots q' = q_slots q1 ++ map_of (map (\<lambda>(r, s). (r, restored s)) es)" "q_pages q' = q_pages q1" "q_cfg q' = q_cfg q1"
    "q_wal q' = q_wal q1" "CheckpointLSN (q_idx q') = CheckpointLSN (q_idx q1)"
    "set (q_dead q') = set (q_dead q1) \<union> {dead_letter (q_pages q1) r s | r s. (r, s) \<in> set es \<and> s_State s = StateDead}"
    using Cons.IH [OF q1(2) d 4 5] by blast
  have l: "restore_loop now (e # es) q = Some q'" using q1(1) q'(1) by (simp add: e)
  have m: "map_of (map (\<lambda>(r, s). (r, restored s)) (e # es)) = (map_of (map (\<lambda>(r, s). (r, restored s)) es))(r \<mapsto> restored s)"
    by (simp add: e)
  have sl: "sl(r \<mapsto> restored s) ++ map_of (map (\<lambda>(r, s). (r, restored s)) es) = sl ++ map_of (map (\<lambda>(r, s). (r, restored s)) (e # es))"
    unfolding m using map_add_upd_left [OF rr] by simp
  have qs: "q_slots q' = q_slots q ++ map_of (map (\<lambda>(r, s). (r, restored s)) (e # es))"
    unfolding q'(3) q1(3) m using map_add_upd_left [OF rr] by simp
  have dd: "set (q_dead q') = set (q_dead q) \<union> {dead_letter (q_pages q) r s | r s. (r, s) \<in> set (e # es) \<and> s_State s = StateDead}"
    unfolding q'(8) q1(4,8) by (auto simp: e)
  from q'(2,4-7) show ?case unfolding sl q1(4-7) using l qs dd by blast
qed

section \<open>Recovery without records to replay\<close>

lemma readPayload_shape:
  assumes p: "store_shape (q_pages q)" "fits (s_PayloadRef s, s_PayloadLen s) (q_pages q)" "s_MsgID s \<noteq> 0"
  shows "readPayloadLocked s q = Some (body (q_pages q) s)"
proof -
  let ?p = "q_pages q" and ?a = "s_PayloadRef s"
  obtain data where d: "store_Read ?a ?p = Inr data" "unat (s_PayloadLen s) \<le> length data" using p(2) by (auto simp: fits_def)
  obtain pg im where pg: "map_of (st_pgs ?p) (PageID ?a) = Some pg" "map_of (st_files ?p) (PageID ?a) = Some im"
    using d(1) by (auto simp: store_Read_def split: option.splits)
  have "0 \<le> pg_dataLen pg"
    using store_shapeD(3) [OF p(1) pg(1)] by (cases "pg_jumbo pg") (auto simp: page_shape_def class_page_def)
  note cap = read_in_cap [OF pg this d(1)]
  then have "take (unat (s_PayloadLen s)) (slice_cap ?a ?p) = take (unat (s_PayloadLen s)) data"
    using d(2) by (metis min.absorb1 take_take)
  then show ?thesis using d cap(2) p(3) by (simp add: readPayloadLocked_def body_def Let_def)
qed

lemma new_queue_core:
  assumes "index_inv i"
  shows "core_inv {#} {#} {#} {} {#} (\<lambda>r. None) ((new_queue now cfg w idx p)\<lparr>q_idx := i\<rparr>)"
proof -
  let ?q = "(new_queue now cfg w idx p)\<lparr>q_idx := i\<rparr>"
  have v: "ready_view ?q = {#}" "dead_view ?q = {#}" "q_delayed ?q = []" "q_inflight ?q = []" "q_receipts ?q = []"
    by (simp_all add: new_queue_def ready_view_def dead_view_def newReadyHeap_def)
  have "shape_inv ?q"
    using rh_inv_new [of "cfg_Order cfg" "cfg_AgeBoostMs cfg"] assms by (simp add: shape_inv_def new_queue_def q_dir_def)
  then show ?thesis unfolding core_inv_def v by (simp add: tracks_empty ids_ok_def receipts_ok_def)
qed

definition recovered :: "Config \<Rightarrow> i64 \<Rightarrow> Slot \<Rightarrow> Slot" where
  "recovered cfg now s = restored (demoted cfg now s)"

lemma demoted_fields [simp]:
  "s_MsgID (demoted cfg now s) = s_MsgID s" "s_PayloadRef (demoted cfg now s) = s_PayloadRef s"
  "s_PayloadLen (demoted cfg now s) = s_PayloadLen s" "s_State (demoted cfg now s) = StateDead \<longleftrightarrow> s_State s = StateDead"
  by (simp_all add: demoted_def unleased_def)

lemma demoted_state:
  "s_State s \<in> {StateReady, StateDelayed, StateInflight, StateDead} \<Longrightarrow>
   s_State (demoted cfg now s) \<in> {StateReady, StateDelayed, StateInflight, StateDead}"
  by (simp add: demoted_def unleased_def)

lemma recover_clean:
  assumes idx: "index_inv idx" "ids_ok n (slots idx)"
    and w: "wal_Replay w (if 0 < CheckpointLSN idx then CheckpointLSN idx + 1 else CheckpointLSN idx) = ([], None)"
    and p: "store_shape p" "\<And>r s. slots idx r = Some s \<Longrightarrow> s_State s = StateDead \<Longrightarrow> fits (s_PayloadRef s, s_PayloadLen s) p"
  shows "\<exists>q'. recover io now (new_queue now cfg w idx p) = (None, q') \<and> queue_inv q' \<and> dead_ok q' \<and> q_pages q' = p \<and> q_cfg q' = cfg \<and>
    q_slots q' = (\<lambda>r. map_option (recovered cfg now) (slots idx r))"
proof -
  let ?q = "new_queue now cfg w idx p"
  have q: "q_idx ?q = idx" "q_wal ?q = w" "q_cfg ?q = cfg" "q_pages ?q = p" "q_dead ?q = []" by (simp_all add: new_queue_def)
  note sc = Scan_slots [OF idx(1)]
  have e: "\<forall>(r, s) \<in> set (Scan idx). q_slots ?q r = Some s" using sc(3) q(1) by auto
  obtain i where i: "demote_loop now (Scan idx) ?q = ?q\<lparr>q_idx := i\<rparr>" "index_inv i" "CheckpointLSN i = CheckpointLSN idx"
    and si: "slots i = (\<lambda>r. map_option (demoted cfg now) (slots idx r))"
  proof -
    have m: "r \<in> fst ` set (Scan idx) \<longleftrightarrow> slots idx r \<noteq> None" for r using sc(3) by force
    obtain i where i: "demote_loop now (Scan idx) ?q = ?q\<lparr>q_idx := i\<rparr>" "index_inv i" "CheckpointLSN i = CheckpointLSN (q_idx ?q)"
      "slots i = (\<lambda>r. if r \<in> fst ` set (Scan idx) then map_option (demoted (q_cfg ?q) now) (q_slots ?q r) else q_slots ?q r)"
      using demote_loop_spec [OF sc(1) e, of now] idx(1) q(1) by auto
    have "slots i = (\<lambda>r. map_option (demoted cfg now) (slots idx r))"
      unfolding i(4) q m by (rule ext) simp
    then show ?thesis using that i q by simp
  qed
  let ?q2 = "?q\<lparr>q_idx := i\<rparr>"
  note sc2 = Scan_slots [OF i(2)]
  have old: "\<exists>s. slots idx r = Some s \<and> y = demoted cfg now s" if "(r, y) \<in> set (Scan i)" for r y using that sc2(3) [of r y] si by auto
  have 3: "distinct (map (s_MsgID \<circ> snd) (Scan i))"
  proof -
    have "inj_on (s_MsgID \<circ> snd) (set (Scan i))"
    proof (rule inj_onI, clarify)
      fix r y r' y' assume a: "(r, y) \<in> set (Scan i)" "(r', y') \<in> set (Scan i)" "(s_MsgID \<circ> snd) (r, y) = (s_MsgID \<circ> snd) (r', y')"
      obtain s s' where s: "slots idx r = Some s" "y = demoted cfg now s" "slots idx r' = Some s'" "y' = demoted cfg now s'"
        using old a(1,2) by blast
      have "r' = r" by (rule ids_okD(4) [OF idx(2) s(1,3)]) (use a(3) s in simp)
      then show "r = r' \<and> y = y'" using s by simp
    qed
    moreover have "distinct (Scan i)" using sc2(1) by (simp add: distinct_map)
    ultimately show ?thesis by (simp add: distinct_map)
  qed
  have 4: "\<forall>(r, s) \<in> set (Scan i). q_slots ?q2 r = Some s \<and> (\<lambda>r. None :: Slot option) r = None \<and> s_MsgID s \<noteq> 0 \<and>
      (\<forall>x y. (\<lambda>r. None) x = Some y \<longrightarrow> s_MsgID y \<noteq> s_MsgID s) \<and> s_State s \<in> {StateReady, StateDelayed, StateInflight, StateDead}"
  proof (intro ballI, clarify)
    fix r y assume a: "(r, y) \<in> set (Scan i)"
    obtain s where s: "slots idx r = Some s" "y = demoted cfg now s" using old [OF a] by blast
    show "q_slots ?q2 r = Some y \<and> (\<lambda>r. None :: Slot option) r = None \<and> s_MsgID y \<noteq> 0 \<and>
      (\<forall>x z. (\<lambda>r. None) x = Some z \<longrightarrow> s_MsgID z \<noteq> s_MsgID y) \<and> s_State y \<in> {StateReady, StateDelayed, StateInflight, StateDead}"
      using sc2(3) a ids_okD(1,3) [OF idx(2) s(1)] demoted_state [of s cfg now] s(2) by simp
  qed
  have 5: "\<forall>(r, s) \<in> set (Scan i). s_State s = StateDead \<longrightarrow>
      (\<forall>q'. q_pages q' = q_pages ?q2 \<longrightarrow> readPayloadLocked s q' = Some (body (q_pages ?q2) s))"
  proof (intro ballI, clarify)
    fix r y and q' :: Queue assume a: "(r, y) \<in> set (Scan i)" "s_State y = StateDead" "q_pages q' = q_pages ?q2"
    obtain s where s: "slots idx r = Some s" "y = demoted cfg now s" using old [OF a(1)] by blast
    have pg: "q_pages ?q2 = p" "q_pages q' = p" using a(3) q by simp_all
    have "fits (s_PayloadRef y, s_PayloadLen y) p" using p(2) [OF s(1)] a(2) s(2) by simp
    then show "readPayloadLocked y q' = Some (body (q_pages ?q2) y)"
      unfolding pg using readPayload_shape [of q' y] p(1) pg(2) ids_okD(1) [OF idx(2) s(1)] s(2) by simp
  qed
  obtain q3 where q3: "restore_loop now (Scan i) ?q2 = Some q3"
    "core_inv {#} {#} {#} {} {#} ((\<lambda>r. None) ++ map_of (map (\<lambda>(r, s). (r, restored s)) (Scan i))) q3"
    "q_slots q3 = q_slots ?q2 ++ map_of (map (\<lambda>(r, s). (r, restored s)) (Scan i))" "q_pages q3 = q_pages ?q2" "q_cfg q3 = q_cfg ?q2"
    "set (q_dead q3) = set (q_dead ?q2) \<union> {dead_letter (q_pages ?q2) r s | r s. (r, s) \<in> set (Scan i) \<and> s_State s = StateDead}"
    using restore_loop_spec [OF new_queue_core [OF i(2)] sc2(1) 3 4 5] by blast
  have m: "map_of (map (\<lambda>(r, s). (r, restored s)) (Scan i)) = (\<lambda>r. map_option (recovered cfg now) (slots idx r))"
    by (rule ext) (simp add: map_of_map sc2(2) si recovered_def [abs_def] option.map_comp comp_def)
  have s3: "q_slots q3 = (\<lambda>r. map_option (recovered cfg now) (slots idx r))"
    unfolding q3(3) m by (rule ext) (simp add: map_add_def si split: option.split)
  have c3: "queue_inv q3" using q3(2) unfolding m s3 by (simp add: map_add_def)
  define q4 where "q4 = q3\<lparr>q_apply := cursor_reset (if w_durableLSN (q_wal q3) < CheckpointLSN (q_idx q3) then CheckpointLSN (q_idx q3) else w_durableLSN (q_wal q3)) (q_apply q3)\<rparr>"
  have "recover io now ?q = (None, q4)"
    using w i(1) q3(1) q by (simp add: recover_def q4_def Let_def)
  moreover have "queue_inv q4" by (rule core_inv_cong [where q = q3]) (use c3 in \<open>simp_all add: q4_def\<close>)
  moreover have "dead_ok q4"
  proof -
    have "dm_Payload d = body p s'" if d: "d \<in> set (q_dead q3)" "q_slots q3 (dm_indexRef d) = Some s'" for d s'
    proof -
      obtain r y where y: "(r, y) \<in> set (Scan i)" "d = dead_letter p r y" using d(1) q3(6) q by auto
      obtain s where s: "slots idx r = Some s" "y = demoted cfg now s" using old [OF y(1)] by blast
      have "s' = restored y" using d(2) s y(2) unfolding s3 by (simp add: dead_letter_def dead_key_def recovered_def)
      then show ?thesis using y(2) by (simp add: dead_letter_def)
    qed
    then show ?thesis using q3(4) q by (simp add: dead_ok_def q4_def)
  qed
  moreover have "q_pages q4 = p" "q_cfg q4 = cfg" "q_slots q4 = (\<lambda>r. map_option (recovered cfg now) (slots idx r))"
    using q3(4,5) q s3 by (simp_all add: q4_def)
  ultimately show ?thesis by blast
qed

section \<open>A queue closed and opened again\<close>

text \<open>What a restart does to a message: a lease ends, unless leases are durable and it still runs.\<close>

definition end_lease :: "Config \<Rightarrow> i64 \<Rightarrow> amsg \<Rightarrow> amsg" where
  "end_lease cfg now a =
    (case am_status a of
       Leased n u \<Rightarrow> (if cfg_DurableLeases cfg \<and> sint now < sint u \<and> n \<noteq> 0 then a else a\<lparr>am_status := Waiting\<rparr>)
     | _ \<Rightarrow> a)"

lemma recovered_fields [simp]:
  "s_MsgID (recovered cfg now s) = s_MsgID s" "s_PayloadRef (recovered cfg now s) = s_PayloadRef s"
  "s_PayloadLen (recovered cfg now s) = s_PayloadLen s"
  by (simp_all add: recovered_def)

lemma msg_of_recovered: "msg_of p (recovered cfg now s) = end_lease cfg now (msg_of p s)"
proof -
  have "body p (recovered cfg now s) = body p s" unfolding body_def recovered_fields ..
  then show ?thesis
    by (auto simp: msg_of_def end_lease_def status_of_def recovered_def restored_def demoted_def keeps_lease_def unleased_def)
qed

text \<open>
  A queue at rest: its log is one that a run without I/O errors produces, every durable record has been
  applied to the index, and the LSNs and the number of entries are below the bounds of their encodings.
\<close>

definition at_rest :: "Queue \<Rightarrow> bool" where
  "at_rest q \<longleftrightarrow> (\<exists>log mark. wal_run (q_wal q) log mark \<and> mark \<le> w_durableLSN (q_wal q)) \<and>
     applied (q_apply q) = w_durableLSN (q_wal q) \<and> w_durableLSN (q_wal q) + 1 \<noteq> 0 \<and> length (ix_live (q_idx q)) < 2 ^ 32"

definition index_written :: "index_io \<Rightarrow> bool" where
  "index_written xio \<longleftrightarrow> xio_create xio \<and> xio_write xio \<and> xio_sync xio \<and> xio_rename xio"

lemma index_written_open:
  assumes "index_inv idx" "length (ix_live idx) < 2 ^ 32" "index_written xio"
  shows "\<exists>d idx'. index_Checkpoint xio lsn idx = (xio_dir xio, idx') \<and> ix_file idx' = Some d \<and> index_Open (FileData d) = Some idx' \<and>
    ix_live idx' = ix_live idx \<and> CheckpointLSN idx' = lsn"
  using assms(3) load_live [OF assms(1,2), of lsn]
  by (auto simp: index_written_def index_Checkpoint_def index_Open_def CheckpointLSN_def Let_def)

lemma nothing_to_replay:
  assumes w: "wal_run w log mark" "mark \<le> c" and log: "\<forall>r \<in> set log. 0 < rec_LSN r \<and> rec_LSN r \<le> c" and c: "c + 1 \<noteq> (0 :: u64)"
  shows "wal_Replay w (if 0 < c then c + 1 else c) = ([], None)"
proof (cases "0 < c")
  case True
  have lt: "c < c + 1" using unatSuc [of c] c by (simp add: word_less_nat_alt add.commute)
  have "filter (\<lambda>r. c + 1 \<le> rec_LSN r) log = []" using log lt by (auto simp: filter_empty_conv)
  moreover have "mark < c + 1" using w(2) lt by (rule order_le_less_trans)
  ultimately show ?thesis using wal_Replay_holds [OF wal_run_holds [OF w(1)], of "c + 1"] True by simp
next
  case False
  then have "c = 0" by (simp add: word_gt_0)
  moreover have "log = []" using log \<open>c = 0\<close> by (cases log) auto
  ultimately show ?thesis using wal_Replay_holds [OF wal_run_holds [OF w(1)], of 0] w(2) by simp
qed

lemma closed_log:
  fixes wio :: wal_io
  assumes "wal_run (q_wal q) log mark" "index_Checkpoint xio (checkpoint_lsn q) (q_idx q) = (xio_dir xio, idx)"
  defines "qc \<equiv> q_Close xio (\<lambda>_. True) wio q"
  shows "q_idx qc = idx \<and> q_cfg qc = q_cfg q \<and> (\<exists>mark'. mark' \<le> max mark (checkpoint_lsn q) \<and> wal_run (wal_Open (w_files (q_wal qc))) log mark')"
proof -
  let ?q = "q\<lparr>q_stopped := True\<rparr>"
  have c: "checkpoint_lsn ?q = checkpoint_lsn q" by (simp add: checkpoint_lsn_def)
  obtain ok w where t: "TruncatePrefix (\<lambda>_. True) (checkpoint_lsn q) (q_wal q) = (ok, w)" by force
  have ok: "ok" using wal_holds_truncate [OF wal_run_holds [OF assms(1)], of "checkpoint_lsn q"] t by simp
  have run: "wal_run w log (max mark (checkpoint_lsn q))" by (rule wal_run.truncate [OF assms(1)]) (use t ok in simp)
  have ro: "wal_run (wal_Open (w_files (wal_Close wio [] v))) log m" if "wal_run v log m" for v m
    by (rule wal_run.reopen, rule wal_run.close, rule that)
  show ?thesis
  proof (cases "xio_dir xio")
    case True
    then have "q_idx qc = idx" "q_cfg qc = q_cfg q" "q_wal qc = wal_Close wio [] w"
      using assms(2) t by (simp_all add: qc_def q_Close_def q_Checkpoint_def c Let_def)
    then show ?thesis using ro [OF run] by auto
  next
    case False
    then have "q_idx qc = idx" "q_cfg qc = q_cfg q" "q_wal qc = wal_Close wio [] (q_wal q)"
      using assms(2) t by (simp_all add: qc_def q_Close_def q_Checkpoint_def c Let_def)
    then show ?thesis using ro [OF assms(1)] by (intro conjI exI [of _ mark]) simp_all
  qed
qed

lemma reopen_queue:
  fixes wio :: wal_io
  assumes q: "queue_inv q" "at_rest q" and x: "index_written xio"
    and p: "store_shape p" "\<And>r s. q_slots q r = Some s \<Longrightarrow> fits (s_PayloadRef s, s_PayloadLen s) p"
  defines "d \<equiv> dir_of (q_Close xio (\<lambda>_. True) wio q)"
  shows "qd_meta d = Some (q_cfg q) \<and> (\<exists>q'. openQueue io now (q_cfg q) (qd_wal d) (qd_index d) p = (Inr q', p) \<and>
    queue_inv q' \<and> dead_ok q' \<and> q_pages q' = p \<and> q_cfg q' = q_cfg q \<and> q_slots q' = (\<lambda>r. map_option (recovered (q_cfg q) now) (q_slots q r)))"
proof -
  note c = core_invD [OF q(1)]
  obtain log mark where w: "wal_run (q_wal q) log mark" "mark \<le> w_durableLSN (q_wal q)" "applied (q_apply q) = w_durableLSN (q_wal q)"
    "w_durableLSN (q_wal q) + 1 \<noteq> 0" "length (ix_live (q_idx q)) < 2 ^ 32"
    using q(2) unfolding at_rest_def by blast
  have cp: "checkpoint_lsn q = w_durableLSN (q_wal q)" using w(3) by (simp add: checkpoint_lsn_def)
  have ii: "index_inv (q_idx q)" using c(1) by (simp add: shape_inv_def)
  obtain data idx where i: "index_Checkpoint xio (checkpoint_lsn q) (q_idx q) = (xio_dir xio, idx)" "ix_file idx = Some data"
    "index_Open (FileData data) = Some idx" "ix_live idx = ix_live (q_idx q)" "CheckpointLSN idx = checkpoint_lsn q"
    using index_written_open [OF ii w(5) x] by blast
  have idx: "slots idx = q_slots q" "index_inv idx"
    using ii same_index [OF i(4)] by simp_all
  obtain mark' where cl: "q_idx (q_Close xio (\<lambda>_. True) wio q) = idx" "q_cfg (q_Close xio (\<lambda>_. True) wio q) = q_cfg q"
    "mark' \<le> max mark (checkpoint_lsn q)" "wal_run (wal_Open (w_files (q_wal (q_Close xio (\<lambda>_. True) wio q)))) log mark'"
    using closed_log [OF w(1) i(1), of wio] by blast
  have d: "qd_meta d = Some (q_cfg q)" "qd_wal d = w_files (q_wal (q_Close xio (\<lambda>_. True) wio q))" "qd_index d = FileData data"
    using cl(1,2) i(2) by (simp_all add: d_def dir_of_def)
  have log: "\<forall>r \<in> set log. 0 < rec_LSN r \<and> rec_LSN r \<le> checkpoint_lsn q"
    using wal_run_holds [OF w(1)] unfolding cp wal_holds_def log_ok_def by blast
  have "mark' \<le> checkpoint_lsn q" using cl(3) w(2) cp by simp
  from nothing_to_replay [OF cl(4) this log] have rp: "wal_Replay (wal_Open (qd_wal d)) (if 0 < CheckpointLSN idx then CheckpointLSN idx + 1 else CheckpointLSN idx) = ([], None)"
    using w(4) unfolding d(2) i(5) cp by blast
  have ids: "ids_ok (q_nextMsgID q) (slots idx)" using c(2) unfolding idx(1) .
  have f: "fits (s_PayloadRef s, s_PayloadLen s) p" if "slots idx r = Some s" "s_State s = StateDead" for r s
    using p(2) that(1) unfolding idx(1) by blast
  have "\<exists>q'. recover io now (new_queue now (q_cfg q) (wal_Open (qd_wal d)) idx p) = (None, q') \<and> queue_inv q' \<and> dead_ok q' \<and>
    q_pages q' = p \<and> q_cfg q' = q_cfg q \<and> q_slots q' = (\<lambda>r. map_option (recovered (q_cfg q) now) (slots idx r))"
    by (rule recover_clean [OF idx(2) ids rp p(1)]) (rule f)
  then show ?thesis using d i(3) unfolding idx(1) by (auto simp: openQueue_def)
qed

end
