(* ===== verification/Store_Disk.thy ===== *)
theory Store_Disk
  imports Store_Rebuild
begin

text \<open>
  What the page files and the journal say about a store: during one life of a store every page has exactly
  one journal entry, its creation, and a header from which it can be mapped again; retired pages have no
  file.  Allocations, releases and writes keep this, and opening such files gives back every live payload.
\<close>

section \<open>The invariant\<close>

fun about :: "u32 \<Rightarrow> entry \<Rightarrow> bool" where
  "about k (PageCreate p c n g) = (p = k)"
| "about k (PageRetire p a b) = (p = k)"
| "about k (QueueDrop b i) = False"

definition page_on_disk :: "entry list \<Rightarrow> u32 \<Rightarrow> page \<Rightarrow> image \<Rightarrow> bool" where
  "page_on_disk es k pg im \<longleftrightarrow>
    (\<exists>c n g q. filter (about k) es = [PageCreate k c n g] \<and> mmapExisting oio_ok k n im = Inr q \<and> same_page pg q)"

definition journalled :: "entry list \<Rightarrow> Store \<Rightarrow> bool" where
  "journalled es s \<longleftrightarrow> st_jnl s = concat (map entry_bytes es) \<and>
     (\<forall>k im. map_of (st_files s) k = Some im \<longrightarrow> (\<exists>pg. map_of (st_pgs s) k = Some pg \<and> page_on_disk es k pg im)) \<and>
     (\<forall>k e. e \<in> set es \<and> about k e \<longrightarrow> k < st_nextID s)"

definition on_disk :: "Store \<Rightarrow> bool" where
  "on_disk s \<longleftrightarrow> (\<exists>es. journalled es s)"

lemma journalledD:
  assumes "journalled es s"
  shows "st_jnl s = concat (map entry_bytes es)"
    "map_of (st_files s) k = Some im \<Longrightarrow> \<exists>pg. map_of (st_pgs s) k = Some pg \<and> page_on_disk es k pg im"
    "e \<in> set es \<Longrightarrow> about k e \<Longrightarrow> k < st_nextID s"
  using assms unfolding journalled_def by blast+

lemma journalledI:
  assumes "st_jnl s = concat (map entry_bytes es)"
    "\<And>k im. map_of (st_files s) k = Some im \<Longrightarrow> \<exists>pg. map_of (st_pgs s) k = Some pg \<and> page_on_disk es k pg im"
    "\<And>k e. e \<in> set es \<Longrightarrow> about k e \<Longrightarrow> k < st_nextID s"
  shows "journalled es s"
  using assms unfolding journalled_def by blast

lemma mmapExisting_cong: "im_header im' = im_header im \<Longrightarrow> mmapExisting oio_ok k n im' = mmapExisting oio_ok k n im"
  by (simp add: mmapExisting_def)

lemma mmapExisting_count: "mmapExisting io k n im = Inr q \<Longrightarrow> pg_freeCount q = 0"
  by (auto simp: mmapExisting_def split: if_splits option.splits prod.splits)

lemma same_page_sym: "same_page p q \<Longrightarrow> same_page q p"
  by (simp add: same_page_def)

lemma page_on_disk_same:
  assumes "page_on_disk es k pg im" "same_page pg q" "im_header im' = im_header im"
  shows "page_on_disk es k q im'"
proof -
  obtain c n g p where "filter (about k) es = [PageCreate k c n g]" "mmapExisting oio_ok k n im = Inr p" "same_page pg p"
    using assms(1) unfolding page_on_disk_def by blast
  moreover from this have "same_page q p" using assms(2) by (simp add: same_page_def)
  ultimately show ?thesis unfolding page_on_disk_def mmapExisting_cong [OF assms(3)] by blast
qed

section \<open>Preservation\<close>

lemma on_disk_cong:
  "st_jnl s' = st_jnl s \<Longrightarrow> st_files s' = st_files s \<Longrightarrow> st_pgs s' = st_pgs s \<Longrightarrow> st_nextID s' = st_nextID s \<Longrightarrow>
   on_disk s' = on_disk s"
  by (simp add: on_disk_def journalled_def)

lemma on_disk_put_page:
  assumes d: "on_disk s" and pg: "map_of (st_pgs s) k = Some pg" "map_of (st_files s) k = Some im"
    and q: "same_page pg q" "im_header im' = im_header im"
  shows "on_disk (put_page k q im' s)"
proof -
  obtain es where j: "journalled es s" using d unfolding on_disk_def by blast
  have "journalled es (put_page k q im' s)"
  proof (rule journalledI)
    fix k' x assume x: "map_of (st_files (put_page k q im' s)) k' = Some x"
    show "\<exists>p. map_of (st_pgs (put_page k q im' s)) k' = Some p \<and> page_on_disk es k' p x"
    proof (cases "k' = k")
      case True
      have "page_on_disk es k q im'" using journalledD(2) [OF j pg(2)] pg(1) page_on_disk_same [OF _ q] by auto
      then show ?thesis using x True by (simp add: put_page_def)
    next
      case False
      then show ?thesis using x journalledD(2) [OF j, of k' x] by (simp add: put_page_def)
    qed
  next
    fix k' e assume "e \<in> set es" "about k' e"
    then show "k' < st_nextID (put_page k q im' s)" using journalledD(3) [OF j] by (simp add: put_page_def)
  qed (use journalledD(1) [OF j] in \<open>simp add: put_page_def\<close>)
  then show ?thesis unfolding on_disk_def by blast
qed

text \<open>A page is created under the next id.\<close>

lemma on_disk_create:
  assumes d: "on_disk s" and ov: "st_nextID s + 1 \<noteq> 0"
    and cf: "create_file io (st_nextID s) (appendPageCreate (st_nextID s) c n g) (s\<lparr>st_nextID := st_nextID s + 1\<rparr>) = (True, s2)"
    and m: "mmapExisting oio_ok (st_nextID s) n im = Inr q" "same_page pg q"
  shows "on_disk (put_page (st_nextID s) pg im s2)"
proof -
  let ?k = "st_nextID s" and ?e = "PageCreate (st_nextID s) c n g" and ?s = "put_page (st_nextID s) pg im s2"
  obtain es where j: "journalled es s" using d unfolding on_disk_def by blast
  have s2: "s2 = s\<lparr>st_nextID := ?k + 1, st_jnl := st_jnl s @ entry_bytes ?e, st_files := AList.update ?k zero_image (st_files s)\<rparr>"
    using create_file_ok(2) [OF cf] by simp
  have lt: "?k < ?k + 1" using ov unatSuc [of ?k] by (simp add: word_less_nat_alt add.commute)
  have none: "filter (about ?k) es = []" using journalledD(3) [OF j, of _ ?k] by (auto simp: filter_empty_conv)
  have "journalled (es @ [?e]) ?s"
  proof (rule journalledI)
    show "st_jnl ?s = concat (map entry_bytes (es @ [?e]))" using journalledD(1) [OF j] by (simp add: put_page_def s2)
    show "k < st_nextID ?s" if "e \<in> set (es @ [?e])" "about k e" for k e
      using that journalledD(3) [OF j, of e k] lt by (auto simp: put_page_def s2)
    fix k x assume x: "map_of (st_files ?s) k = Some x"
    show "\<exists>p. map_of (st_pgs ?s) k = Some p \<and> page_on_disk (es @ [?e]) k p x"
    proof (cases "k = ?k")
      case True
      then have "x = im" using x by (simp add: put_page_def)
      then show ?thesis using True m none by (simp add: put_page_def page_on_disk_def)
    next
      case False
      then show ?thesis using x journalledD(2) [OF j, of k x] by (simp add: put_page_def s2 page_on_disk_def)
    qed
  qed
  then show ?thesis unfolding on_disk_def by blast
qed

text \<open>A page is retired.\<close>

lemma on_disk_reclaim:
  assumes d: "on_disk s" and k: "map_of (st_files s) k = Some im0" and io: "pio_journal io = None" "pio_remove io"
  shows "on_disk (doReclaim io k im (s\<lparr>st_pgs := AList.delete k (st_pgs s)\<rparr>))"
proof -
  let ?e = "PageRetire k (pg_gen im) (pg_gen im + 1)" and ?s = "doReclaim io k im (s\<lparr>st_pgs := AList.delete k (st_pgs s)\<rparr>)"
  obtain es where j: "journalled es s" using d unfolding on_disk_def by blast
  have s: "?s = s\<lparr>st_pgs := AList.delete k (st_pgs s), st_jnl := st_jnl s @ entry_bytes ?e, st_files := AList.delete k (st_files s)\<rparr>"
    by (simp add: doReclaim_def journal_write_def io)
  obtain c n g where "filter (about k) es = [PageCreate k c n g]" using journalledD(2) [OF j k] by (auto simp: page_on_disk_def)
  then have "PageCreate k c n g \<in> set (filter (about k) es)" by simp
  then have lt: "k < st_nextID s" using journalledD(3) [OF j, of "PageCreate k c n g" k] by simp
  have "journalled (es @ [?e]) ?s"
  proof (rule journalledI)
    show "st_jnl ?s = concat (map entry_bytes (es @ [?e]))" using journalledD(1) [OF j] by (simp add: s)
    show "k' < st_nextID ?s" if "e \<in> set (es @ [?e])" "about k' e" for k' e
      using that journalledD(3) [OF j, of e k'] lt by (auto simp: s)
    fix k' x assume x: "map_of (st_files ?s) k' = Some x"
    then have "k' \<noteq> k" "map_of (st_files s) k' = Some x" by (auto simp: s delete_conv' split: if_splits)
    then show "\<exists>p. map_of (st_pgs ?s) k' = Some p \<and> page_on_disk (es @ [?e]) k' p x"
      using journalledD(2) [OF j, of k' x] by (simp add: s page_on_disk_def delete_conv')
  qed
  then show ?thesis unfolding on_disk_def by blast
qed

text \<open>The headers that a new page gets can be read back.\<close>

lemma slab_mmap:
  assumes c: "c < 14" and h: "im_header im = WriteHeader (replicate 32 0) (NewSlabHeader k (word_of_nat c))" and pg: "class_page c pg"
  shows "\<exists>q. mmapExisting oio_ok k 1 im = Inr q \<and> same_page pg q"
proof -
  obtain cap st where lay: "slabLayout (SizeClasses ! c) = (cap, st)" by force
  have u: "unat (word_of_nat c :: u8) = c" using c by (simp add: unsigned_of_nat take_bit_nat_eq_self)
  have l: "length SizeClasses = 14" by (simp add: SizeClasses_def)
  show ?thesis
    using new_slab_header [OF c, of k, folded h] pg c lay l
    by (simp add: mmapExisting_def oio_ok_def same_page_def class_page_def NewSlabHeader_def u SlotSize_def IsJumbo_def Has_def FlagJumbo_def PageSize_def)
qed

lemma jumbo_mmap:
  assumes "n \<noteq> 0" "im_header im = WriteHeader (replicate 32 0) (NewJumboHeader k n)"
    "pg_jumbo pg" "pg_sizeClass pg = 0" "pg_capacity pg = 0" "pg_slotsStart pg = HeaderSize" "pg_dataLen pg = uint n * uint PageSize"
  shows "\<exists>q. mmapExisting oio_ok k (ucast n) im = Inr q \<and> same_page pg q"
proof -
  have "ReadHeader (im_header im) = (NewJumboHeader k n, None)"
    using ReadHeader_WriteHeader [of "replicate 32 0" "NewJumboHeader k n"] assms(1,2)
    by (simp add: NewJumboHeader_def IsJumbo_def Has_def FlagJumbo_def)
  moreover have "uint (ucast n :: u32) = uint n" by (rule uint_up_ucast) (simp add: is_up)
  ultimately show ?thesis
    using assms(3-7) by (simp add: mmapExisting_def oio_ok_def same_page_def NewJumboHeader_def SlotSize_def IsJumbo_def Has_def FlagJumbo_def)
qed

lemma allocSlot_same: "allocSlot pg im = (r, q, im') \<Longrightarrow> same_page pg q \<and> im_header im' = im_header im"
  by (auto simp: allocSlot_def same_page_def Let_def split: if_splits option.splits prod.splits)

lemma newSlabPage_on_disk:
  assumes "on_disk s" "st_nextID s + 1 \<noteq> 0" "newSlabPage io c s = (Inr (pg, im, k), s1)" "c < 14"
  shows "on_disk s1" "map_of (st_pgs s1) k = Some pg" "map_of (st_files s1) k = Some im"
proof -
  obtain s2 where s2: "create_file io (st_nextID s) (appendPageCreate (st_nextID s) (word_of_nat c) 1 0)
      (s\<lparr>st_nextID := st_nextID s + 1\<rparr>) = (True, s2)" "s1 = put_page k pg im s2" "k = st_nextID s" "class_page c pg"
    by (rule newSlabPage_ok [OF assms(3,4)])
  have "im_header im = WriteHeader (replicate 32 0) (NewSlabHeader k (word_of_nat c))"
    using assms(3) s2(1,3) by (auto simp: newSlabPage_def Let_def initBitmap_def zero_image_def split: prod.splits)
  then obtain q where "mmapExisting oio_ok k 1 im = Inr q" "same_page pg q" using slab_mmap [OF assms(4) _ s2(4)] by blast
  then show "on_disk s1" using on_disk_create [OF assms(1,2) s2(1)] s2(2,3) by simp
  show "map_of (st_pgs s1) k = Some pg" "map_of (st_files s1) k = Some im" by (simp_all add: s2(2) put_page_def)
qed

lemma alloc_fresh_on_disk:
  assumes "on_disk s" "st_nextID s + 1 \<noteq> 0" "alloc_fresh io c s = (Inr x, s')" "c < 14"
  shows "on_disk s'"
proof -
  obtain pg im k s1 where n: "newSlabPage io c s = (Inr (pg, im, k), s1)"
    using assms(3) by (auto simp: alloc_fresh_def split: prod.splits sum.splits)
  note d = newSlabPage_on_disk [OF assms(1,2) n assms(4)]
  obtain r q im' where a: "allocSlot pg im = (r, q, im')" by (metis prod_cases3)
  let ?s2 = "s1\<lparr>st_active := (st_active s1)[c := k]\<rparr>"
  have "s' = put_page k q im' ?s2" using assms(3) n a by (simp add: alloc_fresh_def Let_def)
  moreover have "on_disk ?s2" using d(1) on_disk_cong [of ?s2 s1] by simp
  ultimately show ?thesis using allocSlot_same [OF a] d(2,3) by (auto intro: on_disk_put_page)
qed

lemma Alloc_on_disk:
  assumes d: "on_disk s" "st_nextID s + 1 \<noteq> 0" and n: "uint n \<le> 2 ^ 32 - 2 ^ 21" and a: "Alloc io n s = (Inr x, s')"
  shows "on_disk s'"
proof (cases "JumboThreshold < n")
  case True
  let ?k = "st_nextID s" and ?m = "SpanPagesFor n"
  obtain s2 pg im where c: "create_file io ?k (appendPageCreate ?k 0xFFFF (ucast ?m) 0) (s\<lparr>st_nextID := ?k + 1\<rparr>) = (True, s2)"
    and s': "s' = put_page ?k pg im s2" "im_header im = WriteHeader (replicate 32 0) (NewJumboHeader ?k ?m)"
      "pg_jumbo pg" "pg_sizeClass pg = 0" "pg_capacity pg = 0" "pg_slotsStart pg = HeaderSize" "pg_dataLen pg = uint ?m * uint PageSize"
    using a True by (auto simp: Alloc_def newJumboPage_def Let_def zero_image_def split: prod.splits bool.splits if_splits)
  have "?m \<noteq> 0"
  proof
    assume "?m = 0"
    then have "32 + uint n \<le> 0" using span_pages_fit [OF n] by simp
    moreover have "0 \<le> uint n" by simp
    ultimately show False by linarith
  qed
  then obtain q where "mmapExisting oio_ok ?k (ucast ?m) im = Inr q" "same_page pg q" using jumbo_mmap [OF _ s'(2-7)] by blast
  then show ?thesis unfolding s'(1) by (rule on_disk_create [OF d c])
next
  case False
  let ?c = "nat (SizeClassFor n)"
  have jt: "n \<le> JumboThreshold" using False by simp
  have c: "?c < 14" using SizeClassFor_bound [OF jt] by simp
  have al: "allocSlab io n s = (Inr x, s')" using a False by (simp add: Alloc_def split: if_splits)
  let ?s0 = "s\<lparr>st_active := (st_active s)[?c := 0]\<rparr>"
  have d0: "on_disk ?s0" "st_nextID ?s0 + 1 \<noteq> 0" using d on_disk_cong [of ?s0 s] by simp_all
  consider "alloc_fresh io ?c s = (Inr x, s')" | "alloc_fresh io ?c ?s0 = (Inr x, s')" |
    k pg im i q im' where "map_of (st_pgs s) k = Some pg" "map_of (st_files s) k = Some im" "allocSlot pg im = (Some i, q, im')"
      "s' = put_page k q im' s"
    using al by (auto simp: allocSlab_def Let_def split: if_splits option.splits prod.splits)
  then show ?thesis
  proof cases
    case 1
    then show ?thesis by (rule alloc_fresh_on_disk [OF d _ c])
  next
    case 2
    then show ?thesis by (rule alloc_fresh_on_disk [OF d0 _ c])
  next
    case 3
    then show ?thesis using allocSlot_same [OF 3(3)] on_disk_put_page [OF d(1) 3(1,2)] by simp
  qed
qed

lemma Release_on_disk:
  assumes d: "on_disk s" and io: "pio_journal io = None" "pio_remove io"
  shows "on_disk (snd (Release io r s))"
proof (cases "map_of (st_pgs s) (PageID r) = None \<or> map_of (st_files s) (PageID r) = None")
  case True
  then show ?thesis using d by (auto simp: Release_def Let_def split: option.splits)
next
  case False
  then obtain pg im where pg: "map_of (st_pgs s) (PageID r) = Some pg" "map_of (st_files s) (PageID r) = Some im" by auto
  obtain full q im' where f: "freeSlot (ref_slot r pg) pg im = (full, q, im')" by (metis prod_cases3)
  obtain fc ws where fr: "q = pg\<lparr>pg_freeCount := fc\<rparr>" "im' = im\<lparr>im_words := ws\<rparr>" by (rule freeSlot_frame [OF f])
  have p: "on_disk (put_page (PageID r) q im' s)" by (rule on_disk_put_page [OF d pg]) (simp_all add: fr same_page_def)
  have rc: "on_disk (doReclaim io (PageID r) x (s\<lparr>st_pgs := AList.delete (PageID r) (st_pgs s)\<rparr>))" for x
    by (rule on_disk_reclaim [OF d pg(2) io])
  have act: "on_disk (doReclaim io (PageID r) x (s\<lparr>st_pgs := AList.delete (PageID r) (st_pgs s), st_active := a\<rparr>))" for x a
    using rc [of x] on_disk_cong [of "doReclaim io (PageID r) x (s\<lparr>st_pgs := AList.delete (PageID r) (st_pgs s), st_active := a\<rparr>)"
        "doReclaim io (PageID r) x (s\<lparr>st_pgs := AList.delete (PageID r) (st_pgs s)\<rparr>)"]
    by (simp add: doReclaim_def journal_write_def io(2))
  have act': "on_disk ((put_page (PageID r) q im' s)\<lparr>st_active := a\<rparr>)" for a
    using p on_disk_cong [of "(put_page (PageID r) q im' s)\<lparr>st_active := a\<rparr>" "put_page (PageID r) q im' s"] by simp
  let ?c = "SizeClassFor (pg_sizeClass pg)"
  consider "pg_jumbo pg" | "\<not> pg_jumbo pg" "full" "0 \<le> ?c \<and> st_active s ! nat ?c = PageID r" |
    "\<not> pg_jumbo pg" "full" "\<not> (0 \<le> ?c \<and> st_active s ! nat ?c = PageID r)" | "\<not> pg_jumbo pg" "\<not> full" by blast
  then show ?thesis
  proof cases
    case 2
    then have "snd (Release io r s) = doReclaim io (PageID r) im'
        (s\<lparr>st_pgs := AList.delete (PageID r) (st_pgs s), st_active := (st_active s)[nat ?c := 0]\<rparr>)"
      using pg f by (simp add: Release_def Let_def)
    then show ?thesis using act by simp
  next
    case 3
    then have "snd (Release io r s) = doReclaim io (PageID r) im' (s\<lparr>st_pgs := AList.delete (PageID r) (st_pgs s)\<rparr>)"
      using pg f by (auto simp: Release_def Let_def)
    then show ?thesis using rc by simp
  qed (use pg f p rc act' in \<open>simp_all add: Release_def Let_def\<close>)
qed

lemma store_copy_on_disk:
  assumes d: "on_disk s"
  shows "on_disk (store_copy k off bs s)"
proof (cases "map_of (st_files s) k")
  case None
  then show ?thesis using d by (simp add: store_copy_def)
next
  case (Some im)
  obtain es where "journalled es s" using d unfolding on_disk_def by blast
  then obtain pg where pg: "map_of (st_pgs s) k = Some pg" using journalledD(2) [OF _ Some] by blast
  let ?im = "im\<lparr>im_mem := \<lambda>i. if off \<le> i \<and> i < off + length bs then bs ! (i - off) else im_mem im i\<rparr>"
  have "store_copy k off bs s = (put_page k pg ?im s)\<lparr>st_pgs := st_pgs s\<rparr>" using Some by (simp add: store_copy_def put_page_def)
  moreover have "AList.update k pg (st_pgs s) = st_pgs s" using pg by (rule update_triv_alist)
  ultimately have "store_copy k off bs s = put_page k pg ?im s" by (simp add: put_page_def)
  then show ?thesis using on_disk_put_page [OF d pg Some, of pg ?im] by (simp add: same_page_def)
qed

lemma empty_store_on_disk: "on_disk (empty_store [])"
  unfolding on_disk_def by (intro exI [of _ "[]"]) (simp add: journalled_def empty_store_def)

section \<open>Opening\<close>

lemma replay_entries:
  assumes "\<forall>k im. map_of (st_files s) k = Some im \<longrightarrow> k + 1 \<noteq> 0 \<and>
      (filter (about k) es = [] \<or> (\<exists>c n g q. filter (about k) es = [PageCreate k c n g] \<and> mmapExisting oio_ok k n im = Inr q))"
    "\<forall>k. map_of (st_pgs s) k \<noteq> None \<longrightarrow> map_of (st_files s) k \<noteq> None \<and> k < st_nextID s" "distinct (map fst (st_pgs s))"
  shows "\<exists>s'. replay_loop oio_ok (map entry_rec es) s = Inr s' \<and> st_files s' = st_files s \<and> st_jnl s' = st_jnl s \<and> st_nextID s \<le> st_nextID s' \<and>
    distinct (map fst (st_pgs s')) \<and> (\<forall>k. map_of (st_pgs s') k \<noteq> None \<longrightarrow> map_of (st_files s) k \<noteq> None \<and> k < st_nextID s') \<and>
    (\<forall>k. filter (about k) es = [] \<longrightarrow> map_of (st_pgs s') k = map_of (st_pgs s) k) \<and>
    (\<forall>k im c n g q. map_of (st_files s) k = Some im \<longrightarrow> filter (about k) es = [PageCreate k c n g] \<longrightarrow> mmapExisting oio_ok k n im = Inr q \<longrightarrow>
       map_of (st_pgs s') k = Some q)"
  using assms
proof (induction es arbitrary: s)
  case Nil
  then show ?case by simp
next
  case (Cons e es)
  note P = Cons.prems
  show ?case
  proof (cases "\<exists>k im. about k e \<and> map_of (st_files s) k = Some im")
    case False
    have skip: "replay_loop oio_ok (map entry_rec (e # es)) s = replay_loop oio_ok (map entry_rec es) s"
      using False P(2) by (cases e) (auto simp: jrnl_zero_def split: option.split)
    have h: "map_of (st_files s) k = Some im \<Longrightarrow> filter (about k) (e # es) = filter (about k) es" for k im using False by auto
    have 1: "\<forall>k im. map_of (st_files s) k = Some im \<longrightarrow> k + 1 \<noteq> 0 \<and>
      (filter (about k) es = [] \<or> (\<exists>c n g q. filter (about k) es = [PageCreate k c n g] \<and> mmapExisting oio_ok k n im = Inr q))"
      using P(1) h by metis
    have "filter (about k) (e # es) = [] \<Longrightarrow> filter (about k) es = []" for k by (simp split: if_splits)
    then show ?thesis using Cons.IH [OF 1 P(2,3)] h unfolding skip by (metis (no_types, lifting))
  next
    case True
    then obtain k im where k: "about k e" "map_of (st_files s) k = Some im" by blast
    obtain c n g q where e: "e = PageCreate k c n g" "filter (about k) es = []" and q: "mmapExisting oio_ok k n im = Inr q" and k1: "k + 1 \<noteq> 0"
    proof -
      have h: "k + 1 \<noteq> 0" "filter (about k) (e # es) = [] \<or> (\<exists>c n g q. filter (about k) (e # es) = [PageCreate k c n g] \<and> mmapExisting oio_ok k n im = Inr q)"
        using P(1) k(2) by blast+
      from h(2) k(1) obtain c n g q where "e = PageCreate k c n g" "filter (about k) es = []" "mmapExisting oio_ok k n im = Inr q" by auto
      then show ?thesis using that h(1) by blast
    qed
    define s1 where "s1 = s\<lparr>st_pgs := AList.update k q (st_pgs s), st_nextID := (if st_nextID s \<le> k then k + 1 else st_nextID s)\<rparr>"
    have lt: "k < k + 1" using k1 unatSuc [of k] by (simp add: word_less_nat_alt add.commute)
    have step: "replay_loop oio_ok (map entry_rec (e # es)) s = replay_loop oio_ok (map entry_rec es) s1" using k q by (simp add: e s1_def jrnl_zero_def)
    have nx: "st_nextID s \<le> st_nextID s1" "k < st_nextID s1" using lt by (auto simp: s1_def)
    have 1: "\<forall>k im. map_of (st_files s1) k = Some im \<longrightarrow> k + 1 \<noteq> 0 \<and>
      (filter (about k) es = [] \<or> (\<exists>c n g q. filter (about k) es = [PageCreate k c n g] \<and> mmapExisting oio_ok k n im = Inr q))"
    proof (intro allI impI)
      fix k' im' assume "map_of (st_files s1) k' = Some im'"
      then have "map_of (st_files s) k' = Some im'" by (simp add: s1_def)
      then have "k' + 1 \<noteq> 0" "filter (about k') (e # es) = [] \<or> (\<exists>c n g q. filter (about k') (e # es) = [PageCreate k' c n g] \<and> mmapExisting oio_ok k' n im' = Inr q)"
        using P(1) by blast+
      then show "k' + 1 \<noteq> 0 \<and> (filter (about k') es = [] \<or> (\<exists>c n g q. filter (about k') es = [PageCreate k' c n g] \<and> mmapExisting oio_ok k' n im' = Inr q))"
        using e by (cases "k' = k") simp_all
    qed
    have 2: "\<forall>k. map_of (st_pgs s1) k \<noteq> None \<longrightarrow> map_of (st_files s1) k \<noteq> None \<and> k < st_nextID s1"
      using P(2) k(2) nx by (auto simp: s1_def update_conv')
    have 3: "distinct (map fst (st_pgs s1))" using P(3) by (simp add: s1_def distinct_update)
    obtain s' where s': "replay_loop oio_ok (map entry_rec es) s1 = Inr s'" "st_files s' = st_files s1" "st_jnl s' = st_jnl s1" "st_nextID s1 \<le> st_nextID s'"
      "distinct (map fst (st_pgs s'))" "\<forall>k. map_of (st_pgs s') k \<noteq> None \<longrightarrow> map_of (st_files s1) k \<noteq> None \<and> k < st_nextID s'"
      "\<forall>k. filter (about k) es = [] \<longrightarrow> map_of (st_pgs s') k = map_of (st_pgs s1) k"
      "\<forall>k im c n g q. map_of (st_files s1) k = Some im \<longrightarrow> filter (about k) es = [PageCreate k c n g] \<longrightarrow> mmapExisting oio_ok k n im = Inr q \<longrightarrow>
         map_of (st_pgs s') k = Some q"
      using Cons.IH [OF 1 2 3] by blast
    have f: "st_files s1 = st_files s" "st_jnl s1 = st_jnl s" by (simp_all add: s1_def)
    have a: "map_of (st_pgs s') k' = map_of (st_pgs s) k'" if "filter (about k') (e # es) = []" for k'
      using that s'(7) e by (auto simp: s1_def update_conv' split: if_splits)
    have b: "map_of (st_pgs s') k' = Some q'"
      if b: "map_of (st_files s) k' = Some im'" "filter (about k') (e # es) = [PageCreate k' c' n' g']" "mmapExisting oio_ok k' n' im' = Inr q'" for k' im' c' n' g' q'
    proof (cases "k' = k")
      case True
      then show ?thesis using b e k(2) q s'(7) by (simp add: s1_def)
    next
      case False
      then show ?thesis using b e s'(8) f(1) by auto
    qed
    show ?thesis unfolding step
      using s'(1,2,3,5,6) order_trans [OF nx(1) s'(4)] a b unfolding f by blast
  qed
qed

lemma reopen_store:
  assumes inv: "store_inv s" and d: "on_disk s"
  shows "\<exists>s0. store_Open oio_ok (st_files s) (st_jnl s) = Inr s0 \<and> store_shape s0 \<and>
    (\<forall>r \<in> live s. ref_valid s0 r \<and> store_Read r s0 = store_Read r s) \<and>
    (\<forall>k pg. map_of (st_pgs s) k = Some pg \<longrightarrow>
       (\<exists>q im. map_of (st_pgs s0) k = Some q \<and> map_of (st_files s0) k = Some im \<and> same_page pg q \<and> pg_freeCount q = 0))"
proof -
  obtain es where j: "journalled es s" using d unfolding on_disk_def by blast
  let ?e = "(empty_store (st_jnl s))\<lparr>st_files := st_files s\<rparr>"
  have o: "store_Open oio_ok (st_files s) (st_jnl s) = replay_loop oio_ok (map entry_rec es) ?e"
    unfolding journalledD(1) [OF j] by (rule store_Open_entries)
  have fl: "\<exists>pg c n g q. map_of (st_pgs s) k = Some pg \<and> filter (about k) es = [PageCreate k c n g] \<and> mmapExisting oio_ok k n im = Inr q \<and> same_page pg q"
    if "map_of (st_files s) k = Some im" for k im
    using journalledD(2) [OF j that] unfolding page_on_disk_def by blast
  have "k + 1 \<noteq> 0" if "map_of (st_files s) k = Some im" for k im
  proof
    assume "k + 1 = 0"
    then have "k = - 1" by (simp add: eq_neg_iff_add_eq_0)
    then show False using store_invD(4) [OF inv that] by simp
  qed
  then have 1: "\<forall>k im. map_of (st_files ?e) k = Some im \<longrightarrow> k + 1 \<noteq> 0 \<and>
      (filter (about k) es = [] \<or> (\<exists>c n g q. filter (about k) es = [PageCreate k c n g] \<and> mmapExisting oio_ok k n im = Inr q))"
    using fl by (simp add: empty_store_def) blast
  have 2: "\<forall>k. map_of (st_pgs ?e) k \<noteq> None \<longrightarrow> map_of (st_files ?e) k \<noteq> None \<and> k < st_nextID ?e" "distinct (map fst (st_pgs ?e))"
    "st_files ?e = st_files s"
    by (simp_all add: empty_store_def)
  obtain s0 where s0: "replay_loop oio_ok (map entry_rec es) ?e = Inr s0" "st_files s0 = st_files s" "st_nextID ?e \<le> st_nextID s0"
    "distinct (map fst (st_pgs s0))" "\<forall>k. map_of (st_pgs s0) k \<noteq> None \<longrightarrow> map_of (st_files s) k \<noteq> None \<and> k < st_nextID s0"
    "\<forall>k im c n g q. map_of (st_files s) k = Some im \<longrightarrow> filter (about k) es = [PageCreate k c n g] \<longrightarrow> mmapExisting oio_ok k n im = Inr q \<longrightarrow>
       map_of (st_pgs s0) k = Some q"
    using replay_entries [OF 1 2(1,2)] unfolding 2(3) by (elim exE conjE) (rule that)
  have pgs: "\<exists>pg q. map_of (st_pgs s) k = Some pg \<and> map_of (st_pgs s0) k = Some q \<and> same_page pg q \<and> pg_freeCount q = 0"
    if "map_of (st_files s) k = Some im" for k im
    using fl [OF that] s0(6) that mmapExisting_count by blast
  have sh: "page_shape q = page_shape pg" if "same_page pg q" for pg q
    using that same_page_class [OF that] by (simp add: page_shape_def same_page_def)
  have "store_shape s0"
    unfolding store_shape_def
  proof (intro conjI allI impI)
    show "distinct (map fst (st_pgs s0))" by (rule s0(4))
    show "distinct (map fst (st_files s0))" unfolding s0(2) by (rule store_invD(2) [OF inv])
    have "1 \<le> st_nextID s0" using s0(3) by (simp add: empty_store_def)
    then show "0 < st_nextID s0" by (rule order_less_le_trans [rotated]) simp
    show "k < st_nextID s0" if "map_of (st_files s0) k \<noteq> None" for k
      using that pgs [of k] s0(5) unfolding s0(2) by force
    fix k q assume q: "map_of (st_pgs s0) k = Some q"
    then obtain im where im: "map_of (st_files s) k = Some im" using s0(5) by blast
    obtain pg where pg: "map_of (st_pgs s) k = Some pg" "same_page pg q" using pgs [OF im] q by auto
    show "k \<noteq> 0" "page_shape q" using store_invD(5) [OF inv pg(1)] page_ok_shape sh [OF pg(2)] by blast+
    show "map_of (st_files s0) k \<noteq> None" using im s0(2) by simp
  qed
  moreover have "ref_valid s0 r \<and> store_Read r s0 = store_Read r s" if r: "r \<in> live s" for r
  proof -
    obtain pg im where pg: "map_of (st_pgs s) (PageID r) = Some pg" "map_of (st_files s) (PageID r) = Some im" "r \<in> slots_of (PageID r) pg im"
      by (rule live_lookup [OF r])
    obtain q where q: "map_of (st_pgs s0) (PageID r) = Some q" "same_page pg q" using pgs [OF pg(2)] pg(1) by auto
    have v: "slot_ref (PageID r) q r"
      using slots_of_slot_ref [OF pg(3)] q(2) same_page_offset [OF q(2)] by (simp add: slot_ref_def same_page_def)
    have sp: "page_shape q" using store_invD(5) [OF inv pg(1)] page_ok_shape sh [OF q(2)] by blast
    have "store_Read r s0 = store_Read r s"
      using read_shape(1) [of s0 r q im] read_live(1) [OF inv pg] q pg(2) sp v s0(2) by (simp add: page_end_def same_page_def)
    then show ?thesis using q(1) v by (auto simp: ref_valid_def)
  qed
  moreover have "\<exists>q im. map_of (st_pgs s0) k = Some q \<and> map_of (st_files s0) k = Some im \<and> same_page pg q \<and> pg_freeCount q = 0"
    if k: "map_of (st_pgs s) k = Some pg" for k pg
  proof -
    obtain im where im: "map_of (st_files s) k = Some im" by (rule store_inv_page [OF inv k])
    then show ?thesis using pgs [OF im] k s0(2) by auto
  qed
  ultimately show ?thesis using s0(1) unfolding o by blast
qed

section \<open>Properties\<close>

text \<open>C29. Recovery of the page store: take a well-formed store whose directory is in order (every page file
  belongs to an open page with its one \<open>PAGE_CREATE\<close> entry and a header, as every successful allocation,
  write and release of one life leaves it). Opening that directory, with every file readable, succeeds,
  and \<open>RebuildVolatile\<close> with references that were live before (the ones recovered from the queues) gives a
  well-formed store whose live references are exactly those, each reading the bytes it read before;
  counters, bitmaps and hints are consistent again, and all other slots are free.\<close>

theorem rebuild_volatile_exact:
  assumes "store_inv s" "on_disk s" "set refs \<subseteq> live s"
  shows "\<exists>s0. store_Open oio_ok (st_files s) (st_jnl s) = Inr s0 \<and>
    store_inv (RebuildVolatile io refs s0) \<and> live (RebuildVolatile io refs s0) = set refs \<and>
    (\<forall>r \<in> set refs. store_Read r (RebuildVolatile io refs s0) = store_Read r s)"
proof -
  obtain s0 where s0: "store_Open oio_ok (st_files s) (st_jnl s) = Inr s0" "store_shape s0"
    "\<forall>r \<in> live s. ref_valid s0 r \<and> store_Read r s0 = store_Read r s"
    using reopen_store [OF assms(1,2)] by blast
  have v: "\<forall>r \<in> set refs. ref_valid s0 r" using s0(3) assms(3) by blast
  show ?thesis using s0(1,3) rebuild_exact [OF s0(2) v, of io] assms(3) by (intro exI [of _ s0]) auto
qed

lemma one_page_store:
  obtains ref lo hi s pg where "Alloc pio_ok 100 (empty_store []) = (Inr (ref, lo, hi), s)" "store_inv s" "live s = {ref}" "on_disk s"
    "map_of (st_pgs s) (PageID ref) = Some pg" "class_page (nat (SizeClassFor 100)) pg"
proof -
  obtain ref lo hi s pg where a: "Alloc pio_ok 100 (empty_store []) = (Inr (ref, lo, hi), s)" "store_inv s" "live s = {ref}"
    "PageID ref = 1" "map_of (st_pgs s) 1 = Some pg" "class_page (nat (SizeClassFor 100)) pg"
    by (rule alloc_empty [OF small_alloc(1,2), of "[]"])
  have "st_nextID (empty_store []) + 1 \<noteq> 0" by (simp add: empty_store_def)
  then show ?thesis using that a Alloc_on_disk [OF empty_store_on_disk _ small_alloc(3) a(1)] by simp
qed

theorem rebuild_volatile_exact_witness:
  "\<exists>ref x s s0. Alloc pio_ok 100 (empty_store []) = (Inr (ref, x), s) \<and>
     store_Open oio_ok (st_files s) (st_jnl s) = Inr s0 \<and>
     live (RebuildVolatile pio_ok [ref] s0) = {ref} \<and> live (RebuildVolatile pio_ok [] s0) = {} \<and>
     store_Read ref (RebuildVolatile pio_ok [ref] s0) = store_Read ref s"
proof -
  obtain ref lo hi s where a: "Alloc pio_ok 100 (empty_store []) = (Inr (ref, lo, hi), s)" "store_inv s" "live s = {ref}" "on_disk s"
    by (rule one_page_store)
  show ?thesis
    using rebuild_volatile_exact [OF a(2,4), of "[ref]" pio_ok] rebuild_volatile_exact [OF a(2,4), of "[]" pio_ok] a(1,3) by auto
qed

text \<open>C30. Releases between \<open>Open\<close> and \<open>RebuildVolatile\<close> can destroy a live payload: take a well-formed store
  whose directory is in order, a live payload \<open>r0\<close> on a slab page, and as many releases of other slots of
  that page as the page has slots (the acknowledgements that WAL recovery replays, where a slot that was
  used and freed several times is released several times). \<open>Open\<close> succeeds and \<open>r0\<close> is readable, but the
  free counters start at zero, so these releases drop the page, delete its file and make \<open>r0\<close>, which none
  of them names, unreadable.\<close>

theorem release_before_rebuild_deletes_page:
  assumes "store_inv s" "on_disk s" "r0 \<in> live s" "map_of (st_pgs s) (PageID r0) = Some pg" "\<not> pg_jumbo pg"
    "\<forall>r \<in> set refs. PageID r = PageID r0 \<and> slot_ref (PageID r0) pg r \<and> r \<noteq> r0" "length refs = unat (pg_capacity pg)"
  shows "\<exists>s0. store_Open oio_ok (st_files s) (st_jnl s) = Inr s0 \<and> store_Read r0 s0 = store_Read r0 s \<and>
    store_Read r0 (release_all io refs s0) = Inl (PageNotFound (PageID r0)) \<and>
    (pio_remove io \<longrightarrow> map_of (st_files (release_all io refs s0)) (PageID r0) = None)"
proof -
  obtain s0 q im where s0: "store_Open oio_ok (st_files s) (st_jnl s) = Inr s0" "store_Read r0 s0 = store_Read r0 s"
    and q: "map_of (st_pgs s0) (PageID r0) = Some q" "map_of (st_files s0) (PageID r0) = Some im" "same_page pg q" "pg_freeCount q = 0"
    using reopen_store [OF assms(1,2)] assms(3,4) by blast
  obtain c where c: "class_page c pg" using store_invD(5) [OF assms(1,4)] assms(5) by (auto simp: page_ok_def)
  have "0 < pg_capacity pg" using class_page_slab [OF c] by (simp add: slab_page_def word_less_nat_alt)
  then have "refs \<noteq> []" using assms(7) by (auto simp: word_gt_0 word_unat_eq_iff)
  then have "map_of (st_pgs (release_all io refs s0)) (PageID r0) = None \<and>
      (pio_remove io \<longrightarrow> map_of (st_files (release_all io refs s0)) (PageID r0) = None)"
    using assms(5-7) q(3,4) by (intro release_all_count [OF q(1,2)]) (auto simp: same_page_def)
  then show ?thesis using s0 by (intro exI [of _ s0]) (simp add: store_Read_def)
qed

theorem release_before_rebuild_deletes_page_witness:
  "\<exists>ref x s s0 r m. Alloc pio_ok 100 (empty_store []) = (Inr (ref, x), s) \<and> live s = {ref} \<and> r \<noteq> ref \<and>
     store_Open oio_ok (st_files s) (st_jnl s) = Inr s0 \<and>
     store_Read ref (release_all pio_ok (replicate m r) s0) = Inl (PageNotFound (PageID ref))"
proof -
  obtain ref lo hi s pg where a: "Alloc pio_ok 100 (empty_store []) = (Inr (ref, lo, hi), s)" "store_inv s" "live s = {ref}" "on_disk s"
    "map_of (st_pgs s) (PageID ref) = Some pg" "class_page (nat (SizeClassFor 100)) pg"
    by (rule one_page_store)
  have "1 < fst (slabLayout (SizeClasses ! nat (SizeClassFor 100)))" by code_simp
  then have cap: "1 < unat (pg_capacity pg)" using a(6) by (simp add: class_page_def word_less_nat_alt)
  let ?r = "\<lambda>i. Pack (PageID ref) (slotOffset pg (word_of_nat i))"
  obtain i where i: "i < unat (pg_capacity pg)" "?r i \<noteq> ref"
  proof (cases "?r 0 = ref")
    case True
    moreover have "?r 1 \<noteq> ?r 0" using class_offset_inj [OF a(6), of 1 0] cap by fastforce
    ultimately show ?thesis using that [of 1] cap by simp
  qed (use that [of 0] cap in simp)
  have p: "PageID (?r i) = PageID ref" by (rule PageID_Pack [OF class_offset(5) [OF a(6) i(1)]])
  have "slot_ref (PageID ref) pg (?r i)" "\<not> pg_jumbo pg" using i(1) a(6) by (auto simp: slot_ref_def class_page_def)
  then show ?thesis
    using release_before_rebuild_deletes_page [OF a(2,4) _ a(5), of "replicate (unat (pg_capacity pg)) (?r i)" pio_ok] p i(2) a(1,3)
    by auto
qed

end
