(* ===== verification/Queue_Rest.thy ===== *)
theory Queue_Rest
  imports Queue_Recover Queue_Progress Store_Disk
begin

text \<open>
  Where a queue at rest comes from: between two handlers nothing is pending in the apply cursor, so that the
  watermark is the last durable LSN, and the page store is as its files and journal say.
\<close>

section \<open>The cursor at rest\<close>

definition settled :: "Queue \<Rightarrow> bool" where
  "settled q \<longleftrightarrow> (\<exists>log mark. wal_run (q_wal q) log mark \<and> mark \<le> w_durableLSN (q_wal q)) \<and> ac_pending (q_apply q) = [] \<and>
     ac_high (q_apply q) = w_durableLSN (q_wal q) \<and> ac_contig (q_apply q) = w_durableLSN (q_wal q)"

lemma settled_at_rest:
  "settled q \<Longrightarrow> w_durableLSN (q_wal q) + 1 \<noteq> 0 \<Longrightarrow> length (ix_live (q_idx q)) < 2 ^ 32 \<Longrightarrow> at_rest q"
  by (simp add: settled_def at_rest_def applied_def)

text \<open>A committed request is registered in the cursor and removed by \<open>finish\<close>; the watermark is then its last LSN.\<close>

lemma commit_settled:
  assumes s: "settled q" and c: "submitCommit io refs recs q = (res, q1)" "cr_err res = None" and recs: "recs \<noteq> []"
    and lim: "unat (w_lsn (q_wal q)) + length recs < 2 ^ 64" and q2: "q_wal q2 = q_wal q1" "q_apply q2 = q_apply q1"
  shows "settled (finish res q2)" "w_lsn (q_wal (finish res q2)) = w_lsn (q_wal q) + word_of_nat (length recs)"
    "w_durableLSN (q_wal (finish res q2)) = w_lsn (q_wal (finish res q2))"
proof -
  let ?w = "q_wal q" and ?n = "word_of_nat (length recs) :: u64"
  obtain log mark where w: "wal_run ?w log mark" "mark \<le> w_durableLSN ?w" using s unfolding settled_def by blast
  have cur: "ac_pending (q_apply q) = []" "ac_high (q_apply q) = w_durableLSN ?w" using s unfolding settled_def by blast+
  obtain l w' where a: "AppendBatch (ci_wal io) ?w recs = (Inr l, w')" and q1: "q_wal q1 = w'"
    "q_apply q1 = cursor_begin (l - ?n + 1) (l - ?n + ?n) (q_apply q)"
    "cr_firstLSN res = l - ?n + 1" "cr_lastLSN res = l - ?n + ?n"
    using c recs by (auto simp: submitCommit_def commit_flush_def Let_def split: if_splits prod.splits sum.splits)
  obtain w1 where l: "l = w_lsn ?w + ?n" and w1: "maybeRotate (ci_wal io) l (?w\<lparr>w_lsn := l\<rparr>) = (True, w1)" and d: "w_durableLSN w' = l" "w_lsn w' = w_lsn w1"
    by (rule append_success [OF a recs]) auto
  have lw: "w_lsn w' = l" using maybeRotate_cases [OF w1] d(2) by auto
  have run: "wal_run w' (log @ number (w_lsn ?w) recs) mark" by (rule wal_run.append [OF w(1) recs lim a])
  have dw: "w_durableLSN ?w \<le> w_lsn ?w" using wal_run_holds [OF w(1)] unfolding wal_holds_def log_ok_def by blast
  have ul: "unat l = unat (w_lsn ?w) + length recs" unfolding l by (rule unat_lsn_add [OF lim])
  have lt: "w_lsn ?w < l" using ul recs by (simp add: word_less_nat_alt)
  then have hi: "w_durableLSN ?w < l" using dw by (rule order_le_less_trans [rotated])
  have nz: "l \<noteq> 0" using lt by auto
  have ap: "q_apply (finish res q2) = cursor_finish (l - ?n + 1) l (cursor_begin (l - ?n + 1) l (q_apply q))"
    using q1 q2 by (simp add: finish_def)
  have "ac_pending (q_apply (finish res q2)) = []" "ac_high (q_apply (finish res q2)) = l" "ac_contig (q_apply (finish res q2)) = l"
    unfolding ap using cur hi nz by (simp_all add: cursor_finish_def cursor_begin_def recompute_def)
  moreover have wf: "q_wal (finish res q2) = w'" using q1(1) q2(1) by (simp add: finish_def)
  moreover have "mark \<le> l" using w(2) hi by simp
  ultimately show "settled (finish res q2)" using run d(1) unfolding settled_def by auto
  show "w_lsn (q_wal (finish res q2)) = w_lsn ?w + ?n" "w_durableLSN (q_wal (finish res q2)) = w_lsn (q_wal (finish res q2))"
    unfolding wf using lw l d(1) by simp_all
qed

section \<open>An enqueue\<close>

lemma alloc_payloads_on_disk:
  "on_disk p \<Longrightarrow> room (n + length rs) p \<Longrightarrow> \<forall>r \<in> set rs. small r \<Longrightarrow> alloc_payloads io now i rs p = (None, its, p') \<Longrightarrow>
   on_disk p' \<and> room n p' \<and> length its = length rs"
proof (induction rs arbitrary: i p its p')
  case (Cons r rs)
  obtain ref lo hi p1 where al: "Alloc (io i) (payload_size r) p = (Inr (ref, lo, hi), p1)"
    using Cons.prems(4) by (auto simp: Let_def split: prod.splits sum.splits)
  define p2 where "p2 = (if er_Payload r \<noteq> [] then store_copy (PageID ref) (nat lo) (take (nat (hi - lo)) (er_Payload r)) p1 else p1)"
  obtain its1 where its1: "alloc_payloads io now (Suc i) rs p2 = (None, its1, p')" "length its = Suc (length its1)"
    using Cons.prems(4) al by (auto simp: p2_def Let_def split: prod.splits)
  have rm: "room (Suc (n + length rs)) p" using Cons.prems(2) by simp
  note ra = room_Alloc [OF rm al]
  have sz: "uint (payload_size r) \<le> 2 ^ 32 - 2 ^ 21"
    by (rule small_len) (use Cons.prems(3) in simp)
  have "on_disk p2" using Alloc_on_disk [OF Cons.prems(1) ra(1) sz al] store_copy_on_disk by (simp add: p2_def)
  moreover have "st_nextID p2 = st_nextID p1" by (simp add: p2_def store_copy_def split: option.split)
  then have "room (n + length rs) p2" using ra(2) by (simp add: room_def)
  ultimately show ?case using Cons.IH [OF _ _ _ its1(1)] Cons.prems(3) its1(2) by simp
qed simp

lemma assign_ids_on_disk:
  "on_disk p \<Longrightarrow> room (length its) p \<Longrightarrow> assign_ids io i its m p = (None, its', m', p') \<Longrightarrow> on_disk p' \<and> length its' = length its"
proof (induction its arbitrary: i m p its')
  case (Cons it its)
  obtain ref p1 where a: "AllocSlot (io i) p = (Inr ref, p1)"
    using Cons.prems(3) by (auto simp: Let_def split: prod.splits sum.splits)
  obtain x where al: "Alloc (io i) (SizeClasses ! 0) p = (Inr x, p1)"
    using a by (auto simp: AllocSlot_def split: prod.splits sum.splits)
  obtain its1 where its1: "assign_ids io (Suc i) its (m + 1) p1 = (None, its1, m', p')" "length its' = Suc (length its1)"
    using Cons.prems(3) a by (auto simp: Let_def split: prod.splits)
  have rm: "room (Suc (length its)) p" using Cons.prems(2) by simp
  note ra = room_Alloc [OF rm al]
  have "uint (SizeClasses ! 0) \<le> 2 ^ 32 - 2 ^ 21" by (simp add: SizeClasses_def)
  then have "on_disk p1" by (rule Alloc_on_disk [OF Cons.prems(1) ra(1) _ al])
  then show ?case using Cons.IH [OF _ ra(2) its1(1)] its1(2) by simp
qed simp

lemma Enqueue_rest:
  assumes s: "settled q" "on_disk (q_pages q)" and n: "enough reqs q" "unat (w_lsn (q_wal q)) + length reqs < 2 ^ 64"
    and e: "q_Enqueue io now now2 reqs q = (Inr ids, q')" "reqs \<noteq> []"
  shows "settled q'" "on_disk (q_pages q')" "w_durableLSN (q_wal q') = w_lsn (q_wal q) + word_of_nat (length reqs)"
proof -
  let ?q = "q\<lparr>q_reserved := q_reserved q + int (length reqs)\<rparr>"
  have rm: "room (length reqs + length reqs) (q_pages q)" "\<forall>r \<in> set reqs. small r" using n(1) by (simp_all add: enough_def mult_2)
  have "enqueue_reserved io now now2 reqs ?q = (Inr ids, q')"
    using e by (auto simp: q_Enqueue_def Let_def split: option.splits if_splits)
  then obtain its p its' nid p' where al: "alloc_payloads (qi_payload io) now 0 reqs (q_pages q) = (None, its, p)"
    and as: "assign_ids (qi_index io) 0 its (q_nextMsgID q) p = (None, its', nid, p')"
    and ec: "enqueue_commit io now now2 reqs its its' (?q\<lparr>q_pages := p', q_nextMsgID := nid\<rparr>) = (Inr ids, q')"
    by (auto simp: enqueue_reserved_def split: prod.splits option.splits)
  note a = alloc_payloads_on_disk [OF s(2) rm al]
  note b = assign_ids_on_disk [OF _ _ as]
  have d: "on_disk p'" "length its' = length reqs" using b a by simp_all
  let ?q2 = "?q\<lparr>q_pages := p', q_nextMsgID := nid\<rparr>" and ?recs = "map2 (enqueue_rec now) reqs its'"
  obtain res q3 where c: "submitCommit (qi_commit io 0) (map it_ref its') ?recs ?q2 = (res, q3)" "cr_err res = None"
    using ec by (auto simp: enqueue_commit_def split: prod.splits option.splits)
  let ?q4 = "apply_items now now2 reqs its' q3"
  let ?q4' = "?q4\<lparr>q_reserved := q_reserved ?q4 - int (length reqs)\<rparr>"
  have q': "q' = notify ((finish res ?q4')\<lparr>q_statEnqueued := q_statEnqueued (finish res ?q4') + word_of_nat (length reqs)\<rparr>)"
    using ec c by (simp add: enqueue_commit_def Let_def)
  have s2: "settled ?q2" using s(1) by (simp add: settled_def)
  have recs: "?recs \<noteq> []" "length ?recs = length reqs" using d(2) e(2) by (cases reqs; cases its'; simp)+
  have "q_apply (apply_items now now2 rs is x) = q_apply x" for rs "is" x
    by (induction now now2 rs "is" x rule: apply_items.induct) (simp_all add: apply_item_def Let_def)
  then have f: "q_wal ?q4' = q_wal q3" "q_apply ?q4' = q_apply q3" by (simp_all add: apply_items_wal)
  have lim: "unat (w_lsn (q_wal ?q2)) + length ?recs < 2 ^ 64" using n(2) recs(2) by simp
  note cs = commit_settled [OF s2 c recs(1) lim f]
  show "settled q'" using cs(1) unfolding q' by (simp add: settled_def notify_def)
  show "on_disk (q_pages q')" using d(1) submitCommit_same(8) [OF c(1)] unfolding q' by (simp add: notify_def finish_def apply_items_wal)
  show "w_durableLSN (q_wal q') = w_lsn (q_wal q) + word_of_nat (length reqs)"
    using cs(2,3) recs(2) unfolding q' by (simp add: notify_def)
qed

end
