(* ===== verification/Broker_Restart.thy ===== *)
theory Broker_Restart
  imports Queue_Rest Broker_Props
begin

text \<open>
  An orderly restart of the broker: \<open>Broker.Close\<close> writes a checkpoint of every queue, and \<open>OpenBroker\<close> on
  what is then on disk gives back every queue with every message.
\<close>

section \<open>Opening the queues again\<close>










section \<open>The references of a queue\<close>




section \<open>The restart\<close>







end
